(* ===== verification/Prelude.thy ===== *)
theory Prelude
  imports Main "HOL-Library.Word"
begin

text \<open>
  Shared vocabulary of the development: the machine integer the sources use, the outcome of an
  operation that may not return normally, the sequencing of such operations, and the general
  lemmas on lists that several components need.
\<close>

section \<open>Collections of rewrite rules\<close>

named_theorems map_simps \<open>lookups after an insertion or an erasure in an ordered map\<close>
named_theorems frame_simps \<open>fields that an operation leaves as they are\<close>

section \<open>Machine integers and object references\<close>

text \<open>The sources use \<open>unsigned int\<close> (32 bit) and \<open>int\<close>; addresses of shared objects are numbers.\<close>

type_synonym u32 = "32 word"
type_synonym ref = nat

text \<open>A \<open>std::weak_ptr\<close> is empty or refers to an object that may have been freed.\<close>

type_synonym weak = "ref option"

section \<open>Outcomes\<close>

text \<open>
  The exception classes of the program, the exceptions of the standard library and of the
  libraries it calls (all of which derive publicly from \<open>std::exception\<close>), and the other ways in
  which an operation does not return: the process exits, its image is replaced by
  \<open>execvpe\<close>, the behaviour is undefined, or the fuel of a bounded loop is used up.
\<close>

datatype exn =
    ChildProcessException string
  | ConfigParseException string
  | ProcessHandlerException string
  | Std_exception string

datatype stop =
    Throw exn
  | Exit_process int
  | Image_replaced
  | Undefined_behaviour string
  | No_fuel

type_synonym 'a res = "stop + 'a"

text \<open>\<open>what()\<close> of the three exception classes returns the stored reason.\<close>

primrec what :: "exn \<Rightarrow> string" where
  "what (ChildProcessException s) = s"
| "what (ConfigParseException s) = s"
| "what (ProcessHandlerException s) = s"
| "what (Std_exception s) = s"

text \<open>
  The program's exception classes are declared with the keyword \<open>class\<close> and the base clause
  \<open>: virtual std::exception\<close>, so the inheritance is private. A handler
  \<open>catch (std::exception&)\<close> takes an exception only through an accessible base class.
\<close>

primrec caught_as_std_exception :: "exn \<Rightarrow> bool" where
  "caught_as_std_exception (ChildProcessException s) = False"
| "caught_as_std_exception (ConfigParseException s) = False"
| "caught_as_std_exception (ProcessHandlerException s) = False"
| "caught_as_std_exception (Std_exception s) = True"

text \<open>
  Sequencing: the next operation runs on the state the previous one left, unless that one did
  not return. The state is kept in either case, since what has been done stays done.
\<close>

definition andThen :: "'a res \<times> 's \<Rightarrow> ('a \<Rightarrow> 's \<Rightarrow> 'b res \<times> 's) \<Rightarrow> 'b res \<times> 's" where
  "andThen m f = (case m of (Inl e, s) \<Rightarrow> (Inl e, s) | (Inr x, s) \<Rightarrow> f x s)"

lemma andThen_simps [simp]:
  "andThen (Inl e, s) f = (Inl e, s)"
  "andThen (Inr x, s) f = f x s"
  by (simp_all add: andThen_def)

lemma andThen_Inr_iff:
  "andThen m f = (Inr y, t) \<longleftrightarrow> (\<exists>x s. m = (Inr x, s) \<and> f x s = (Inr y, t))"
  by (auto simp: andThen_def split: prod.splits sum.splits)

lemma andThen_cases:
  assumes "andThen m f = (r, t)"
  obtains (stopped) e where "m = (Inl e, t)" and "r = Inl e"
    | (went_on) x s where "m = (Inr x, s)" and "f x s = (r, t)"
  using assms by (auto simp: andThen_def split: prod.splits sum.splits)

lemma andThen_assoc: "andThen (andThen m f) g = andThen m (\<lambda>x s. andThen (f x s) g)"
  by (auto simp: andThen_def split: prod.splits sum.splits)

text \<open>A loop over a container whose body may not return.\<close>

fun for_each :: "('x \<Rightarrow> 's \<Rightarrow> unit res \<times> 's) \<Rightarrow> 'x list \<Rightarrow> 's \<Rightarrow> unit res \<times> 's" where
  "for_each f [] s = (Inr (), s)"
| "for_each f (x # xs) s = andThen (f x s) (\<lambda>_ s. for_each f xs s)"

lemma for_each_append:
  "for_each f (xs @ ys) s = andThen (for_each f xs s) (\<lambda>_. for_each f ys)"
  by (induction xs arbitrary: s) (auto simp: andThen_def split: prod.splits sum.splits)

text \<open>What every pass of the body keeps, the loop keeps, whichever way it ends.\<close>

lemma for_each_invariant:
  assumes step: "\<And>x s r t. x \<in> set xs \<Longrightarrow> P s \<Longrightarrow> f x s = (r, t) \<Longrightarrow> P t"
    and start: "P s" and run: "for_each f xs s = (r, t)"
  shows "P t"
  using step start run
proof (induction xs arbitrary: s)
  case Nil
  then show ?case by simp
next
  case (Cons x xs)
  from Cons.prems(3) show ?case
    unfolding for_each.simps
  proof (cases rule: andThen_cases)
    case stopped
    then show ?thesis using Cons.prems(1) [of x s] Cons.prems(2) by simp
  next
    case (went_on u s')
    have "P s'" using Cons.prems(1) [of x s "Inr u" s'] Cons.prems(2) went_on(1) by simp
    then show ?thesis using Cons.IH [of s'] Cons.prems(1) went_on(2) by auto
  qed
qed

lemma for_each_invariant_Inr:
  assumes step: "\<And>x s t. x \<in> set xs \<Longrightarrow> P s \<Longrightarrow> f x s = (Inr (), t) \<Longrightarrow> P t"
    and start: "P s" and run: "for_each f xs s = (Inr (), t)"
  shows "P t"
  using step start run
proof (induction xs arbitrary: s)
  case Nil
  then show ?case by simp
next
  case (Cons x xs)
  from Cons.prems(3) obtain s' where "f x s = (Inr (), s')" "for_each f xs s' = (Inr (), t)"
    by (auto simp: andThen_Inr_iff)
  then show ?case using Cons by (metis list.set_intros)
qed

text \<open>A loop whose body always returns, returns.\<close>

lemma for_each_total:
  assumes step: "\<And>x s. x \<in> set xs \<Longrightarrow> P s \<Longrightarrow> \<exists>t. f x s = (Inr (), t) \<and> P t" and start: "P s"
  obtains t where "for_each f xs s = (Inr (), t)" and "P t"
proof -
  have "\<exists>t. for_each f xs s = (Inr (), t) \<and> P t"
    using step start
  proof (induction xs arbitrary: s)
    case (Cons x xs)
    from Cons.prems(1) [of x s] Cons.prems(2) obtain u where u: "f x s = (Inr (), u)" "P u" by auto
    with Cons.IH [of u] Cons.prems(1) show ?case by auto
  qed simp
  with that show thesis by blast
qed

section \<open>Contracts\<close>

text \<open>
  An operation upholds \<open>I\<close> with the final condition \<open>Q\<close> if, started in a state with \<open>I\<close>, it returns in such a state or is
  stopped for a reason and in a state that satisfy \<open>Q\<close>. The rules of composition are collected in \<open>upholds_rules\<close>.
\<close>

definition upholds :: "('s \<Rightarrow> bool) \<Rightarrow> (stop \<Rightarrow> 's \<Rightarrow> bool) \<Rightarrow> ('s \<Rightarrow> 'a res \<times> 's) \<Rightarrow> bool" where
  "upholds I Q f \<longleftrightarrow> (\<forall>s res t. I s \<longrightarrow> f s = (res, t) \<longrightarrow> (case res of Inl e \<Rightarrow> Q e t | Inr x \<Rightarrow> I t))"

named_theorems upholds_rules \<open>how contracts compose\<close>

lemma upholdsI:
  assumes "\<And>s x t. I s \<Longrightarrow> f s = (Inr x, t) \<Longrightarrow> I t" and "\<And>s e t. I s \<Longrightarrow> f s = (Inl e, t) \<Longrightarrow> Q e t"
  shows "upholds I Q f"
  using assms by (auto simp: upholds_def split: sum.split)

lemma upholds_Inr: "upholds I Q f \<Longrightarrow> I s \<Longrightarrow> f s = (Inr x, t) \<Longrightarrow> I t"
  by (fastforce simp: upholds_def)

lemma upholds_Inl: "upholds I Q f \<Longrightarrow> I s \<Longrightarrow> f s = (Inl e, t) \<Longrightarrow> Q e t"
  by (fastforce simp: upholds_def)

lemma upholds_andThen [upholds_rules]:
  assumes f: "upholds I Q f" and g: "\<And>x. upholds I Q (g x)"
  shows "upholds I Q (\<lambda>s. andThen (f s) g)"
proof (rule upholdsI)
  show "I t" if "I s" "andThen (f s) g = (Inr x, t)" for s x t
    using that upholds_Inr [OF f] upholds_Inr [OF g] unfolding andThen_Inr_iff by blast
  show "Q e t" if "I s" "andThen (f s) g = (Inl e, t)" for s e t
    using that(2) upholds_Inr [OF f that(1)] upholds_Inl [OF f that(1)] upholds_Inl [OF g]
    by (cases rule: andThen_cases) auto
qed

lemma upholds_return [upholds_rules]: "upholds I Q (\<lambda>s. (Inr x, s))"
  by (rule upholdsI) simp_all

lemma upholds_if [upholds_rules]: "upholds I Q f \<Longrightarrow> upholds I Q g \<Longrightarrow> upholds I Q (\<lambda>s. if b s then f s else g s)"
  by (auto simp: upholds_def)

lemma upholds_for_each [upholds_rules]:
  assumes "\<And>x. upholds I Q (f x)"
  shows "upholds I Q (for_each f xs)"
proof (induction xs)
  case Nil
  show ?case by (rule upholdsI) simp_all
next
  case (Cons x xs)
  have "for_each f (x # xs) = (\<lambda>s. andThen (f x s) (\<lambda>_. for_each f xs))" by (simp add: fun_eq_iff)
  with upholds_andThen [OF assms Cons] show ?case by simp
qed

section \<open>Lists\<close>

lemma takeWhile_replicate [simp]:
  "takeWhile P (replicate n x) = (if P x then replicate n x else [])"
  by (induction n) simp_all

lemma takeWhile_all: "(\<And>x. x \<in> set xs \<Longrightarrow> P x) \<Longrightarrow> takeWhile P xs = xs"
  by (induction xs) auto

lemma dropWhile_none: "(\<And>x. x \<in> set xs \<Longrightarrow> P x) \<Longrightarrow> dropWhile P xs = []"
  by (induction xs) auto

lemma fold_const_True:
  "fold (\<lambda>x b. if b then True else f x) xs True = True"
  by (induction xs) simp_all

text \<open>\<open>std::accumulate\<close> with a flag that, once set, is kept: the flag is a disjunction.\<close>

lemma fold_flag:
  "fold (\<lambda>x b. if b then True else f x) xs b \<longleftrightarrow> b \<or> (\<exists>x\<in>set xs. f x)"
proof (induction xs arbitrary: b)
  case (Cons x xs)
  then show ?case by (cases b) (auto simp: fold_const_True)
qed simp

end
