(* ===== verification/Ordered_Map.thy ===== *)
theory Ordered_Map
  imports Prelude
begin

text \<open>
  \<open>std::map\<close> as the sources use it: a finite map that is iterated in ascending order of its keys.
  The representation is the list of its entries in that order. The interface \<open>finite_map\<close> holds
  the laws its users rely on, and is interpreted on this representation.
\<close>

section \<open>The interface\<close>

locale finite_map =
  fixes find :: "'m \<Rightarrow> 'k \<Rightarrow> 'v option"
    and ins :: "'k \<Rightarrow> 'v \<Rightarrow> 'm \<Rightarrow> 'm"
    and del :: "'k \<Rightarrow> 'm \<Rightarrow> 'm"
    and keys :: "'m \<Rightarrow> 'k list"
    and inv :: "'m \<Rightarrow> bool"
  assumes find_ins: "find (ins k v m) j = (if j = k then Some v else find m j)"
    and find_del: "find (del k m) j = (if j = k then None else find m j)"
    and set_keys: "k \<in> set (keys m) \<longleftrightarrow> find m k \<noteq> None"
    and distinct_keys: "inv m \<Longrightarrow> distinct (keys m)"
    and inv_ins: "inv m \<Longrightarrow> inv (ins k v m)"
    and inv_del: "inv m \<Longrightarrow> inv (del k m)"
begin

lemma keys_ins: "set (keys (ins k v m)) = insert k (set (keys m))"
  using set_keys find_ins by (auto split: if_splits)

lemma keys_del: "set (keys (del k m)) = set (keys m) - {k}"
  using set_keys find_del by (auto split: if_splits)

text \<open>The number of entries, which is what a counter kept beside a map has to agree with.\<close>

lemma card_keys: "inv m \<Longrightarrow> length (keys m) = card (set (keys m))"
  using distinct_keys [of m] by (simp add: distinct_card)

lemma size_ins_fresh: "inv m \<Longrightarrow> find m k = None \<Longrightarrow> length (keys (ins k v m)) = Suc (length (keys m))"
  using set_keys [of k m] by (simp add: card_keys inv_ins keys_ins)

lemma size_del_present: "inv m \<Longrightarrow> find m k \<noteq> None \<Longrightarrow> Suc (length (keys (del k m))) = length (keys m)"
  using set_keys [of k m] card_Suc_Diff1 [of "set (keys m)" k]
  by (simp add: card_keys inv_del keys_del)

end

section \<open>Entries in ascending order\<close>

type_synonym ('k, 'v) omap = "('k \<times> 'v) list"

definition omap_find :: "('k, 'v) omap \<Rightarrow> 'k \<Rightarrow> 'v option" where
  "omap_find m k = map_of m k"

fun omap_insert :: "'k::linorder \<Rightarrow> 'v \<Rightarrow> ('k, 'v) omap \<Rightarrow> ('k, 'v) omap" where
  "omap_insert k v [] = [(k, v)]"
| "omap_insert k v ((a, b) # m) =
     (if k < a then (k, v) # (a, b) # m
      else if k = a then (k, v) # m
      else (a, b) # omap_insert k v m)"

fun omap_erase :: "'k \<Rightarrow> ('k, 'v) omap \<Rightarrow> ('k, 'v) omap" where
  "omap_erase k [] = []"
| "omap_erase k ((a, b) # m) = (if a = k then omap_erase k m else (a, b) # omap_erase k m)"

abbreviation omap_keys :: "('k, 'v) omap \<Rightarrow> 'k list" where
  "omap_keys m \<equiv> List.map fst m"

definition omap_ok :: "('k::linorder, 'v) omap \<Rightarrow> bool" where
  "omap_ok m \<longleftrightarrow> sorted_wrt (<) (omap_keys m)"

text \<open>\<open>operator[]\<close> inserts the default value of the type when the key is absent.\<close>

definition omap_index :: "'v \<Rightarrow> 'k::linorder \<Rightarrow> ('k, 'v) omap \<Rightarrow> 'v \<times> ('k, 'v) omap" where
  "omap_index d k m =
     (case omap_find m k of Some v \<Rightarrow> (v, m) | None \<Rightarrow> (d, omap_insert k d m))"

lemma omap_find_Nil [simp]: "omap_find [] k = None"
  by (simp add: omap_find_def)

lemma omap_find_Cons: "omap_find ((a, b) # m) k = (if k = a then Some b else omap_find m k)"
  by (simp add: omap_find_def)

lemma omap_find_insert [simp, map_simps]:
  "omap_find (omap_insert k v m) j = (if j = k then Some v else omap_find m j)"
  by (induction k v m rule: omap_insert.induct) (auto simp: omap_find_def)

lemma omap_find_erase [simp, map_simps]:
  "omap_find (omap_erase k m) j = (if j = k then None else omap_find m j)"
  by (induction k m rule: omap_erase.induct) (auto simp: omap_find_def)

lemma omap_keys_find: "k \<in> set (omap_keys m) \<longleftrightarrow> omap_find m k \<noteq> None"
  by (simp add: omap_find_def map_of_eq_None_iff)

lemma set_omap_keys_insert: "set (omap_keys (omap_insert k v m)) = insert k (set (omap_keys m))"
  by (induction k v m rule: omap_insert.induct) auto

lemma set_omap_keys_erase: "set (omap_keys (omap_erase k m)) = set (omap_keys m) - {k}"
  by (induction k m rule: omap_erase.induct) auto

lemma omap_ok_Nil [simp]: "omap_ok []"
  by (simp add: omap_ok_def)

lemma omap_ok_insert [simp]: "omap_ok m \<Longrightarrow> omap_ok (omap_insert k v m)"
  unfolding omap_ok_def
proof (induction k v m rule: omap_insert.induct)
  case (2 k v a b m)
  then show ?case using set_omap_keys_insert [of k v m] by auto
qed simp

lemma omap_ok_erase [simp]: "omap_ok m \<Longrightarrow> omap_ok (omap_erase k m)"
  unfolding omap_ok_def
proof (induction k m rule: omap_erase.induct)
  case (2 k a b m)
  then show ?case using set_omap_keys_erase [of k m] by auto
qed simp

lemma omap_index_value: "fst (omap_index d k m) = (case omap_find m k of Some v \<Rightarrow> v | None \<Rightarrow> d)"
  by (simp add: omap_index_def split: option.splits)

lemma omap_index_present [simp]: "omap_find m k = Some v \<Longrightarrow> omap_index d k m = (v, m)"
  by (simp add: omap_index_def)

lemma omap_index_absent: "omap_find m k = None \<Longrightarrow> omap_index d k m = (d, omap_insert k d m)"
  by (simp add: omap_index_def)

interpretation om: finite_map omap_find omap_insert omap_erase omap_keys omap_ok
proof unfold_locales
  show "k \<in> set (omap_keys m) \<longleftrightarrow> omap_find m k \<noteq> None" for k :: 'a and m :: "('a, 'b) omap"
    by (rule omap_keys_find)
  show "omap_ok m \<Longrightarrow> distinct (omap_keys m)" for m :: "('a, 'b) omap"
    by (simp add: omap_ok_def strict_sorted_iff)
qed simp_all

lemma omap_entry_find: "omap_ok m \<Longrightarrow> (k, v) \<in> set m \<longleftrightarrow> omap_find m k = Some v"
  using om.distinct_keys [of m] by (simp add: omap_find_def)

lemma omap_size_insert: "omap_ok m \<Longrightarrow> omap_find m k = None \<Longrightarrow> length (omap_insert k v m) = Suc (length m)"
  using om.size_ins_fresh [of m k v] by simp

lemma omap_size_erase: "omap_ok m \<Longrightarrow> omap_find m k \<noteq> None \<Longrightarrow> Suc (length (omap_erase k m)) = length m"
  using om.size_del_present [of m k] by simp

end
