(* ===== verification/OS_Interface.thy ===== *)
theory OS_Interface
  imports Ordered_Map "HOL-Library.Sublist" "HOL-Library.List_Lexorder" "HOL-Library.Char_ord"
begin

text \<open>
  The outside world: the calls that the program makes into the C library, the kernel, libcap, the
  logging library and the template engine. None of that code is part of the repository, so it is
  a parameter, the record \<open>platform\<close>. Every call and its reply are recorded in a trace, newest
  first, and a reply is a function of the trace so far and of the call: any behaviour of the
  outside world is some such function.
\<close>

section \<open>Calls and replies\<close>

record termios =
  c_iflag :: u32
  c_oflag :: u32
  c_cflag :: u32
  c_lflag :: u32
  c_line :: "8 word"
  c_cc :: "8 word list"
  c_ispeed :: u32
  c_ospeed :: u32

record winsize =
  ws_row :: "16 word"
  ws_col :: "16 word"
  ws_xpixel :: "16 word"
  ws_ypixel :: "16 word"

datatype (plugins only: code size) oscall =
    Sys_getpwuid u32
  | Sys_getpwnam string
  | Sys_getgrnam string
  | Sys_pipe
  | Sys_fcntl int int
  | Sys_tcgetattr int
  | Sys_ioctl_TIOCGWINSZ int
  | Sys_openpty termios winsize
  | Sys_ttyname_r int nat
  | Sys_fork
  | Sys_dup2 int int
  | Sys_close int
  | Sys_chown string u32 u32
  | Sys_chmod string nat
  | Sys_cap_from_text string
  | Sys_cap_set_proc int
  | Sys_cap_free int
  | Sys_cap_from_name string
  | Sys_prctl_keepcaps int
  | Sys_prctl_ambient_clear_all
  | Sys_prctl_ambient_raise int
  | Sys_setgid u32
  | Sys_setuid u32
  | Sys_execvpe string "string list" "string list"
  | Sys_sigprocmask_block "u32 list"
  | Sys_signalfd "u32 list"
  | Sys_epoll_create
  | Sys_epoll_ctl_add int int u32
  | Sys_epoll_ctl_del int int
  | Sys_epoll_wait int nat int
  | Sys_read int nat
  | Sys_waitpid
  | Sys_kill int u32
  | Log_create string
  | Log_get string
  | Log_info string string
  | Log_warn string string

text \<open>
  A reply holds the returned value and what the call writes through its pointer arguments: a
  pair of descriptors, a text or byte sequence, a number (an exit status, a capability, a signal
  number, a user or group id, \<open>errno\<close>), terminal attributes, or a list of ready descriptors.
\<close>

record reply =
  ret :: int
  fds :: "int \<times> int"
  out_text :: string
  out_num :: int
  out_termios :: termios
  out_winsize :: winsize
  out_events :: "(int \<times> u32) list"

definition zero_termios :: termios where
  "zero_termios = \<lparr>c_iflag = 0, c_oflag = 0, c_cflag = 0, c_lflag = 0, c_line = 0, c_cc = replicate 32 0,
     c_ispeed = 0, c_ospeed = 0\<rparr>"

definition zero_winsize :: winsize where
  "zero_winsize = \<lparr>ws_row = 0, ws_col = 0, ws_xpixel = 0, ws_ypixel = 0\<rparr>"

definition ok_reply :: reply where
  "ok_reply = \<lparr>ret = 0, fds = (0, 0), out_text = [], out_num = 0, out_termios = zero_termios,
     out_winsize = zero_winsize, out_events = []\<rparr>"

type_synonym trace = "(oscall \<times> reply) list"

text \<open>
  The template engine is given the callbacks \<open>keys\<close> and \<open>lookup\<close> that the program registers. The
  object passed to it holds one member, \<open>vars\<close>, an object whose members are strings.
\<close>

type_synonym vars = "(string, string) omap"

record platform =
  os :: "trace \<Rightarrow> oscall \<Rightarrow> reply"
  environ :: "string list"
  inja_render :: "string \<Rightarrow> vars \<Rightarrow> exn + string"
  inja_render_with ::
    "(vars \<Rightarrow> string list) \<Rightarrow> (vars \<Rightarrow> string \<Rightarrow> string option) \<Rightarrow> string \<Rightarrow> vars \<Rightarrow> exn + string"

definition syscall :: "platform \<Rightarrow> oscall \<Rightarrow> trace \<Rightarrow> reply \<times> trace" where
  "syscall P c tr = (os P tr c, (c, os P tr c) # tr)"

lemma syscall_simps [simp]:
  "fst (syscall P c tr) = os P tr c"
  "snd (syscall P c tr) = (c, os P tr c) # tr"
  by (simp_all add: syscall_def)

text \<open>\<open>std::string::c_str()\<close> as a C function reads it: up to the first zero byte.\<close>

definition c_string :: "string \<Rightarrow> string" where
  "c_string s = takeWhile (\<lambda>c. c \<noteq> CHR 0x00) s"

lemma c_string_id: "CHR 0x00 \<notin> set s \<Longrightarrow> c_string s = s"
  by (auto simp: c_string_def intro: takeWhile_all)

section \<open>Traces only grow\<close>

text \<open>
  The contract of every operation that talks to the outside world: it adds to the trace and
  never rewrites it, so that what has been observed stays observed.
\<close>

locale traced =
  fixes run :: "'a \<Rightarrow> trace \<Rightarrow> 'b \<times> trace"
  assumes grows: "suffix tr (snd (run a tr))"
begin

lemma keeps: "e \<in> set tr \<Longrightarrow> e \<in> set (snd (run a tr))"
  using grows [of tr a] by (auto simp: suffix_def)

lemma new_part: obtains es where "snd (run a tr) = es @ tr"
  using grows [of tr a] by (auto simp: suffix_def)

lemma then_grows: "suffix tr0 tr \<Longrightarrow> suffix tr0 (snd (run a tr))"
  using grows suffix_order.trans by blast

end

interpretation sc: traced "syscall P" for P
  by unfold_locales (simp add: suffix_def)

section \<open>Processes the kernel has handed out\<close>

text \<open>
  The children that have been forked and not yet been reported by \<open>waitpid\<close>. The kernel gives a
  new child a number that no such child has, and it does not fail or return in the child: a
  hypothesis of the properties that are about the parent.
\<close>

fun outstanding :: "trace \<Rightarrow> int set" where
  "outstanding [] = {}"
| "outstanding ((c, r) # tr) =
     (case c of
        Sys_fork \<Rightarrow> insert (ret r) (outstanding tr)
      | Sys_waitpid \<Rightarrow> outstanding tr - {ret r}
      | _ \<Rightarrow> outstanding tr)"

definition fork_gives_fresh_pid :: "platform \<Rightarrow> bool" where
  "fork_gives_fresh_pid P \<longleftrightarrow>
     (\<forall>tr. 0 < ret (os P tr Sys_fork) \<and> ret (os P tr Sys_fork) \<notin> outstanding tr)"

text \<open>
  Operations that neither fork nor wait leave these children alone; a quiet operation does not
  execute a program either.
\<close>

definition quiet_call :: "oscall \<Rightarrow> bool" where
  "quiet_call c \<longleftrightarrow> (case c of Sys_fork \<Rightarrow> False | Sys_waitpid \<Rightarrow> False | Sys_execvpe p av env \<Rightarrow> False | _ \<Rightarrow> True)"

definition quiet_ext :: "trace \<Rightarrow> trace \<Rightarrow> bool" where
  "quiet_ext tr tr' \<longleftrightarrow> (\<exists>es. tr' = es @ tr \<and> (\<forall>e\<in>set es. quiet_call (fst e)))"

lemma quiet_ext_refl [simp]: "quiet_ext tr tr"
  by (simp add: quiet_ext_def)

lemma quiet_ext_trans: "quiet_ext a b \<Longrightarrow> quiet_ext b c \<Longrightarrow> quiet_ext a c"
  unfolding quiet_ext_def by (metis Un_iff append.assoc set_append)

lemma quiet_ext_Cons: "quiet_ext a b \<Longrightarrow> quiet_call c \<Longrightarrow> quiet_ext a ((c, r) # b)"
  unfolding quiet_ext_def by (metis append_Cons fst_conv set_ConsD)

lemma quiet_ext_suffix: "quiet_ext a b \<Longrightarrow> suffix a b"
  by (auto simp: quiet_ext_def suffix_def)

lemma outstanding_quiet: "quiet_ext tr tr' \<Longrightarrow> outstanding tr' = outstanding tr"
proof -
  have "outstanding (es @ tr) = outstanding tr" if "\<forall>e\<in>set es. quiet_call (fst e)" for es
    using that by (induction es) (auto simp: quiet_call_def split: oscall.splits)
  then show "quiet_ext tr tr' \<Longrightarrow> outstanding tr' = outstanding tr"
    by (auto simp: quiet_ext_def)
qed

lemmas quiet_rules = quiet_ext_Cons quiet_call_def

locale quiet_traced =
  fixes run :: "'a \<Rightarrow> trace \<Rightarrow> 'b \<times> trace"
  assumes quiet_from: "quiet_ext tr0 tr \<Longrightarrow> run a tr = (x, tr') \<Longrightarrow> quiet_ext tr0 tr'"
begin

lemma quiet: "run a tr = (x, tr') \<Longrightarrow> quiet_ext tr tr'"
  by (rule quiet_from [OF quiet_ext_refl])

lemma outstanding_kept: "run a tr = (x, tr') \<Longrightarrow> outstanding tr' = outstanding tr"
  by (rule outstanding_quiet [OF quiet])

end

sublocale quiet_traced \<subseteq> traced run
  by unfold_locales (metis prod.collapse quiet quiet_ext_suffix)

text \<open>
  Calls that happened in a given order, the newest first, with other calls before, between and
  after them: each test holds of an event older than the event of the test before it.
\<close>

fun happened :: "(oscall \<Rightarrow> reply \<Rightarrow> bool) list \<Rightarrow> trace \<Rightarrow> bool" where
  "happened [] tr = True"
| "happened (p # ps) [] = False"
| "happened (p # ps) ((c, r) # tr) = (p c r \<and> happened ps tr \<or> happened (p # ps) tr)"

lemma happened_Cons: "happened ps tr \<Longrightarrow> happened ps (e # tr)"
  by (cases ps; cases e) simp_all

lemma happened_append: "happened ps tr \<Longrightarrow> happened ps (es @ tr)"
  by (induction es) (simp_all add: happened_Cons)

lemma happened_suffix: "suffix tr tr' \<Longrightarrow> happened ps tr \<Longrightarrow> happened ps tr'"
  by (auto simp: suffix_def happened_append)

lemma happened_split: "happened (p # ps) tr \<longleftrightarrow> (\<exists>es c r tr0. tr = es @ (c, r) # tr0 \<and> p c r \<and> happened ps tr0)"
proof (induction tr)
  case (Cons e tr)
  obtain c r where [simp]: "e = (c, r)" by (cases e)
  show ?case
  proof
    assume "happened (p # ps) (e # tr)"
    then show "\<exists>es c r tr0. e # tr = es @ (c, r) # tr0 \<and> p c r \<and> happened ps tr0"
      using Cons.IH by (auto intro: append_Cons [symmetric] exI [where x = "[]"]) (metis append_Cons)
  next
    assume "\<exists>es c r tr0. e # tr = es @ (c, r) # tr0 \<and> p c r \<and> happened ps tr0"
    then show "happened (p # ps) (e # tr)"
      using Cons.IH by (auto simp: Cons_eq_append_conv)
  qed
qed simp

text \<open>The same, within what has been added to a trace since an earlier point.\<close>

definition since :: "trace \<Rightarrow> (oscall \<Rightarrow> reply \<Rightarrow> bool) list \<Rightarrow> trace \<Rightarrow> bool" where
  "since tr0 ps tr \<longleftrightarrow> (\<exists>es. tr = es @ tr0 \<and> happened ps es)"

lemma since_start: "suffix tr0 tr \<Longrightarrow> since tr0 [] tr"
  by (auto simp: since_def suffix_def)

lemma since_hit: "since tr0 ps tr \<Longrightarrow> p c r \<Longrightarrow> since tr0 (p # ps) ((c, r) # tr)"
  unfolding since_def by (metis append_Cons happened.simps(3))

lemma since_skip: "since tr0 ps tr \<Longrightarrow> since tr0 ps (e # tr)"
  unfolding since_def by (metis append_Cons happened_Cons)

lemma since_suffix: "suffix tr tr' \<Longrightarrow> since tr0 ps tr \<Longrightarrow> since tr0 ps tr'"
  unfolding since_def suffix_def by (metis append_assoc happened_append)

lemma since_earlier: "suffix tr00 tr0 \<Longrightarrow> since tr0 ps tr \<Longrightarrow> since tr00 ps tr"
proof -
  have "happened ps (es @ fs)" if "happened ps es" for es fs
    using that by (induction ps es rule: happened.induct) (auto split: list.splits)
  then show "suffix tr00 tr0 \<Longrightarrow> since tr0 ps tr \<Longrightarrow> since tr00 ps tr"
    unfolding since_def suffix_def by (metis append_assoc)
qed

text \<open>Number of calls of one kind in a trace.\<close>

definition count_calls :: "oscall \<Rightarrow> trace \<Rightarrow> nat" where
  "count_calls c tr = length (filter (\<lambda>e. fst e = c) tr)"

lemma count_calls_simps [simp]:
  "count_calls c [] = 0"
  "count_calls c (e # tr) = (if fst e = c then Suc (count_calls c tr) else count_calls c tr)"
  by (simp_all add: count_calls_def)

end
