(* ===== verification/Process_Types.thy ===== *)
theory Process_Types
  imports OS_Interface
begin

text \<open>
  The enumerations of \<open>ChildProcessInterface.h\<close> and \<open>ProcessHandlerInterface.h\<close>, in the order the
  sources declare them. The order of the process states is the order of their enumerators.
\<close>

datatype ProcessType = ONESHOT | SIMPLE

datatype ProcessState = BLOCKED | READY | RUNNING | DONE | CRASHED | BACKOFF

datatype ProcessEvent = SIGHUP | EXIT

datatype FDType = STDOUT | STDERR

text \<open>The value of an enumerator, as the log prints it.\<close>

primrec state_value :: "ProcessState \<Rightarrow> nat" where
  "state_value BLOCKED = 0"
| "state_value READY = 1"
| "state_value RUNNING = 2"
| "state_value DONE = 3"
| "state_value CRASHED = 4"
| "state_value BACKOFF = 5"

lemma state_value_inject [simp]: "state_value a = state_value b \<longleftrightarrow> a = b"
  by (cases a; cases b) simp_all

instantiation ProcessState :: linorder
begin

definition less_eq_ProcessState :: "ProcessState \<Rightarrow> ProcessState \<Rightarrow> bool" where
  "less_eq_ProcessState a b \<longleftrightarrow> state_value a \<le> state_value b"

definition less_ProcessState :: "ProcessState \<Rightarrow> ProcessState \<Rightarrow> bool" where
  "less_ProcessState a b \<longleftrightarrow> state_value a < state_value b"

instance
proof
  fix a b :: ProcessState
  show "a < b \<longleftrightarrow> a \<le> b \<and> \<not> b \<le> a"
    by (auto simp: less_eq_ProcessState_def less_ProcessState_def)
  show "a \<le> a"
    by (simp add: less_eq_ProcessState_def)
  show "a \<le> b \<or> b \<le> a"
    by (auto simp: less_eq_ProcessState_def)
  show "a \<le> b \<Longrightarrow> b \<le> a \<Longrightarrow> a = b"
    by (simp add: less_eq_ProcessState_def)
  fix c :: ProcessState
  show "a \<le> b \<Longrightarrow> b \<le> c \<Longrightarrow> a \<le> c"
    by (simp add: less_eq_ProcessState_def)
qed

end

lemmas state_order = less_eq_ProcessState_def less_ProcessState_def

text \<open>
  The life of a process: \<open>lives a b\<close> holds when a process in state \<open>a\<close> may be found in state \<open>b\<close>
  later on. Waiting, being ready, running, and one of the two final states follow each other;
  nothing leaves a final state.
\<close>

inductive moves :: "ProcessState \<Rightarrow> ProcessState \<Rightarrow> bool" where
  unblock: "moves BLOCKED READY"
| fork: "moves READY RUNNING"
| exit_ok: "moves RUNNING DONE"
| exit_bad: "moves RUNNING CRASHED"

definition lives :: "ProcessState \<Rightarrow> ProcessState \<Rightarrow> bool" where
  "lives = moves\<^sup>*\<^sup>*"

inductive_simps moves_simps [simp]:
  "moves BLOCKED s" "moves READY s" "moves RUNNING s" "moves DONE s" "moves CRASHED s" "moves BACKOFF s"

lemma lives_refl [simp]: "lives a a"
  by (simp add: lives_def)

lemma lives_trans: "lives a b \<Longrightarrow> lives b c \<Longrightarrow> lives a c"
  unfolding lives_def by (rule rtranclp_trans)

lemma moves_lives: "moves a b \<Longrightarrow> lives a b"
  unfolding lives_def by (rule r_into_rtranclp)

lemma lives_unfold: "lives a c \<longleftrightarrow> a = c \<or> (\<exists>b. moves a b \<and> lives b c)"
  unfolding lives_def
  by (auto elim: converse_rtranclpE intro: converse_rtranclp_into_rtranclp)

lemma lives_DONE [simp]: "lives DONE s \<longleftrightarrow> s = DONE"
  by (subst lives_unfold) auto

lemma lives_CRASHED [simp]: "lives CRASHED s \<longleftrightarrow> s = CRASHED"
  by (subst lives_unfold) auto

lemma lives_BACKOFF [simp]: "lives BACKOFF s \<longleftrightarrow> s = BACKOFF"
  by (subst lives_unfold) auto

lemma lives_RUNNING [simp]: "lives RUNNING s \<longleftrightarrow> s \<in> {RUNNING, DONE, CRASHED}"
  by (subst lives_unfold) auto

lemma lives_READY [simp]: "lives READY s \<longleftrightarrow> s \<in> {READY, RUNNING, DONE, CRASHED}"
  by (subst lives_unfold) auto

lemma lives_BLOCKED [simp]: "lives BLOCKED s \<longleftrightarrow> s \<in> {BLOCKED, READY, RUNNING, DONE, CRASHED}"
  by (subst lives_unfold) auto

text \<open>The order of the enumerators agrees with the life of a process.\<close>

lemma lives_le: "lives a b \<Longrightarrow> a \<le> b"
  by (cases a) (auto simp: state_order)

end
