(* ===== verification/Child_Process.thy ===== *)
theory Child_Process
  imports Process_Types
begin

text \<open>
  The data and the state machine of \<open>ChildProcess\<close>: construction, dependencies on other processes,
  the transition to \<open>READY\<close>, and the reaction to an exit. Objects live in a store, since processes
  refer to one another and the handler holds weak references to them.
\<close>

section \<open>The object\<close>

text \<open>A \<open>std::vector<char>\<close> used as a buffer: the C string at \<open>data()\<close>, and \<open>capacity()\<close>.\<close>

record char_vector =
  c_str :: string
  capacity :: nat

record child =
  name :: string
  path :: string
  username :: string
  args :: "string list"
  capabilities :: "string list"
  uid :: u32
  gid :: u32
  graph_id :: u32
  before :: "string list"
  after :: "string list"
  conditions :: "(u32 \<times> ProcessState) list"
  stdout :: "int \<times> int"
  stderr :: "int \<times> int"
  primaryPid :: int
  stdoutPTYName :: char_vector
  stderrPTYName :: char_vector
  want_tty :: bool
  want_default_env :: bool
  ptype :: ProcessType
  state :: ProcessState
  allowed_env_vars :: "string list"
  env_extra_vars :: "(string \<times> string) list"

type_synonym store = "ref \<rightharpoonup> child"

definition default_allowed_env_vars :: "string list" where
  "default_allowed_env_vars =
     [''HOME'', ''LANG'', ''LANGUAGE'', ''LOGNAME'', ''PATH'', ''PWD'', ''SHELL'', ''TERM'', ''USER'']"

text \<open>\<open>::tolower\<close> in the C locale.\<close>

definition tolower :: "char \<Rightarrow> char" where
  "tolower c = (let n = of_char c :: nat in if 65 \<le> n \<and> n \<le> 90 then char_of (n + 32) else c)"

text \<open>
  The constructor, up to the registration with the handler, which \<open>Handler_State\<close> models. The
  user's name is looked up with \<open>getpwuid\<close>; a null result is the reply with value 0. Inserting
  into the unordered set is adding to a list that is only asked for membership.
\<close>

definition ChildProcess ::
  "platform \<Rightarrow> string \<Rightarrow> string \<Rightarrow> string list \<Rightarrow> string \<Rightarrow> string list \<Rightarrow> u32 \<Rightarrow> u32 \<Rightarrow> u32 \<Rightarrow>
   string list \<Rightarrow> string list \<Rightarrow> bool \<Rightarrow> bool \<Rightarrow> string list \<Rightarrow> (string \<times> string) list \<Rightarrow>
   trace \<Rightarrow> child \<times> trace" where
  "ChildProcess P nm pth ags ty caps u g i bef aft tty denv white extra tr =
     (let (user_ref, tr) = syscall P (Sys_getpwuid u) tr in
      (\<lparr>name = nm, path = pth,
        username = (if ret user_ref = 0 then ''UNKNOWN'' else out_text user_ref),
        args = ags, capabilities = caps, uid = u, gid = g, graph_id = i,
        before = bef, after = aft, conditions = [],
        stdout = (-1, -1), stderr = (-1, -1), primaryPid = -1,
        stdoutPTYName = \<lparr>c_str = [], capacity = 0\<rparr>, stderrPTYName = \<lparr>c_str = [], capacity = 0\<rparr>,
        want_tty = tty, want_default_env = denv,
        ptype = (if map tolower ty = ''simple'' then SIMPLE else ONESHOT),
        state = BLOCKED,
        allowed_env_vars = default_allowed_env_vars @ white,
        env_extra_vars = extra\<rparr>, tr))"

definition get_id :: "child \<Rightarrow> u32" where "get_id c = graph_id c"
definition get_name :: "child \<Rightarrow> string" where "get_name c = name c"
definition get_state :: "child \<Rightarrow> ProcessState" where "get_state c = state c"
definition can_start_now :: "child \<Rightarrow> bool" where "can_start_now c \<longleftrightarrow> state c = READY"

text \<open>\<open>weak_ptr::lock\<close>.\<close>

definition lock :: "store \<Rightarrow> weak \<Rightarrow> (ref \<times> child) option" where
  "lock h w = (case w of None \<Rightarrow> None | Some r \<Rightarrow> (case h r of None \<Rightarrow> None | Some c \<Rightarrow> Some (r, c)))"

lemma lock_simps [simp]:
  "lock h None = None"
  "h r = Some c \<Longrightarrow> lock h (Some r) = Some (r, c)"
  "h r = None \<Longrightarrow> lock h (Some r) = None"
  by (simp_all add: lock_def)

lemma lock_Some_iff: "lock h w = Some (r, c) \<longleftrightarrow> w = Some r \<and> h r = Some c"
  by (auto simp: lock_def split: option.splits)

section \<open>Dependencies\<close>

text \<open>At most one condition per process: a second one, even for another state, is not added.\<close>

definition should_wait_for :: "child \<Rightarrow> u32 \<Rightarrow> ProcessState \<Rightarrow> child" where
  "should_wait_for c other_process other_state =
     (let contains = fold (\<lambda>p contains. if contains then True else fst p = other_process) (conditions c) False in
      if \<not> contains then c\<lparr>conditions := conditions c @ [(other_process, other_state)]\<rparr> else c)"

text \<open>
  The lambda of \<open>propagate_dependencies\<close> and its loop over all processes. The object itself is one
  of them and is read again on every pass, since \<open>ref\<close> may be \<open>this\<close>.
\<close>

definition dependency_state :: "child \<Rightarrow> ProcessState" where
  "dependency_state c = (if ptype c = ONESHOT then DONE else RUNNING)"

definition propagate_one :: "ref \<Rightarrow> string \<Rightarrow> bool \<Rightarrow> weak \<Rightarrow> store \<Rightarrow> store" where
  "propagate_one this dependency other_or_this weak_ref h =
     (case (lock h weak_ref, h this) of
        (Some (r, other), Some me) \<Rightarrow>
          if get_name other = dependency then
            if other_or_this then h(r \<mapsto> should_wait_for other (graph_id me) (dependency_state me))
            else h(this \<mapsto> should_wait_for me (get_id other) (dependency_state me))
          else h
      | _ \<Rightarrow> h)"

definition propagate_func :: "ref \<Rightarrow> weak list \<Rightarrow> bool \<Rightarrow> string \<Rightarrow> store \<Rightarrow> store" where
  "propagate_func this others other_or_this dependency h =
     fold (propagate_one this dependency other_or_this) others h"

definition propagate_dependencies :: "ref \<Rightarrow> weak list \<Rightarrow> store \<Rightarrow> store" where
  "propagate_dependencies this others h =
     (let bef = (case h this of Some me \<Rightarrow> before me | None \<Rightarrow> []);
          h = fold (propagate_func this others True) bef h;
          aft = (case h this of Some me \<Rightarrow> after me | None \<Rightarrow> []);
          h = fold (propagate_func this others False) aft h
      in case h this of
           None \<Rightarrow> h
         | Some me \<Rightarrow>
             let me = me\<lparr>before := [], after := []\<rparr> in
             h(this \<mapsto> (if conditions me = [] then me\<lparr>state := READY\<rparr> else me)))"

section \<open>State changes\<close>

text \<open>
  \<open>notify_of_state\<close>: a blocked process becomes ready when every condition names a process that
  exists and is in exactly the required state.
\<close>

definition condition_blocks :: "(u32, weak) omap \<Rightarrow> store \<Rightarrow> u32 \<times> ProcessState \<Rightarrow> bool" where
  "condition_blocks other_procs h condition =
     (case omap_find other_procs (fst condition) of
        None \<Rightarrow> True
      | Some w \<Rightarrow>
          (case lock h w of
             Some (r, other) \<Rightarrow> get_state other \<noteq> snd condition
           | None \<Rightarrow> True))"

definition notify_of_state :: "(u32, weak) omap \<Rightarrow> store \<Rightarrow> child \<Rightarrow> child" where
  "notify_of_state other_procs h c =
     (if state c = BLOCKED then
        let still_blocked =
          fold (\<lambda>condition blocked. if blocked then True else condition_blocks other_procs h condition)
            (conditions c) False
        in if \<not> still_blocked then c\<lparr>state := READY\<rparr> else c
      else c)"

primrec handle_process_event :: "ProcessEvent \<Rightarrow> int \<Rightarrow> child \<Rightarrow> child" where
  "handle_process_event SIGHUP data c = c"
| "handle_process_event EXIT data c = (if data = 0 then c\<lparr>state := DONE\<rparr> else c\<lparr>state := CRASHED\<rparr>)"

lemmas child_getters = get_id_def get_name_def get_state_def can_start_now_def

section \<open>Behaviour of a single object\<close>

text \<open>What the configuration says about a process, apart from its name, number, type and dependencies.\<close>

type_synonym child_settings =
  "(string \<times> string list) \<times> (string \<times> u32 \<times> u32 \<times> string list) \<times> bool \<times> bool \<times> string list \<times> (string \<times> string) list"

definition settings :: "child \<Rightarrow> child_settings" where
  "settings c =
     ((path c, args c), (username c, uid c, gid c, capabilities c), want_tty c, want_default_env c,
      allowed_env_vars c, env_extra_vars c)"

lemma settings_update [simp]:
  "settings (c\<lparr>state := st\<rparr>) = settings c"
  "settings (c\<lparr>primaryPid := pid\<rparr>) = settings c"
  "settings (c\<lparr>conditions := cs\<rparr>) = settings c"
  "settings (c\<lparr>before := be\<rparr>) = settings c"
  "settings (c\<lparr>after := af\<rparr>) = settings c"
  by (simp_all add: settings_def)

lemma contains_iff:
  "fold (\<lambda>p contains. if contains then True else fst p = i) cs False \<longleftrightarrow> i \<in> set (map fst cs)"
  by (subst fold_flag) auto

lemma should_wait_for_conditions:
  "conditions (should_wait_for c i s) =
     (if i \<in> set (map fst (conditions c)) then conditions c else conditions c @ [(i, s)])"
  by (simp add: should_wait_for_def contains_iff del: set_map)

lemma should_wait_for_frame [simp, frame_simps]:
  "name (should_wait_for c i s) = name c"
  "graph_id (should_wait_for c i s) = graph_id c"
  "ptype (should_wait_for c i s) = ptype c"
  "state (should_wait_for c i s) = state c"
  "before (should_wait_for c i s) = before c"
  "after (should_wait_for c i s) = after c"
  "primaryPid (should_wait_for c i s) = primaryPid c"
  "settings (should_wait_for c i s) = settings c"
  by (simp_all add: should_wait_for_def Let_def)

text \<open>Whatever is waited for is waited for once: the first condition on a process stays.\<close>

lemma should_wait_for_distinct:
  "distinct (map fst (conditions c)) \<Longrightarrow> distinct (map fst (conditions (should_wait_for c i s)))"
  by (auto simp: should_wait_for_conditions)

lemma should_wait_for_twice:
  "should_wait_for (should_wait_for c i s) i s' = should_wait_for c i s"
  by (simp add: should_wait_for_def contains_iff)

definition condition_holds :: "(u32, weak) omap \<Rightarrow> store \<Rightarrow> u32 \<times> ProcessState \<Rightarrow> bool" where
  "condition_holds procs h cond \<longleftrightarrow>
     (\<exists>r other. omap_find procs (fst cond) = Some (Some r) \<and> h r = Some other \<and> state other = snd cond)"

lemma condition_blocks_iff: "condition_blocks procs h cond \<longleftrightarrow> \<not> condition_holds procs h cond"
  by (auto simp: condition_blocks_def condition_holds_def get_state_def lock_def split: option.splits)

lemma notify_of_state_alt:
  "notify_of_state procs h c =
     (if state c = BLOCKED \<and> (\<forall>cond\<in>set (conditions c). condition_holds procs h cond)
      then c\<lparr>state := READY\<rparr> else c)"
  by (auto simp: notify_of_state_def Let_def fold_flag condition_blocks_iff)

lemma notify_of_state_frame [simp, frame_simps]:
  "name (notify_of_state procs h c) = name c"
  "graph_id (notify_of_state procs h c) = graph_id c"
  "ptype (notify_of_state procs h c) = ptype c"
  "conditions (notify_of_state procs h c) = conditions c"
  "primaryPid (notify_of_state procs h c) = primaryPid c"
  "settings (notify_of_state procs h c) = settings c"
  by (simp_all add: notify_of_state_alt)

lemma notify_of_state_lives: "lives (state c) (state (notify_of_state procs h c))"
  by (simp add: notify_of_state_alt)

lemma handle_process_event_frame [simp, frame_simps]:
  "name (handle_process_event e d c) = name c"
  "graph_id (handle_process_event e d c) = graph_id c"
  "ptype (handle_process_event e d c) = ptype c"
  "conditions (handle_process_event e d c) = conditions c"
  "primaryPid (handle_process_event e d c) = primaryPid c"
  "settings (handle_process_event e d c) = settings c"
  by (cases e; simp)+

lemma handle_process_event_lives:
  "state c = RUNNING \<Longrightarrow> lives (state c) (state (handle_process_event e d c))"
  by (cases e) auto

section \<open>Properties\<close>

text \<open>An object for the examples: nothing configured, no condition, blocked.\<close>

definition example_child :: "string \<Rightarrow> u32 \<Rightarrow> child" where
  "example_child nm i =
     \<lparr>name = nm, path = ''/bin/x'', username = ''app'', args = [''-v''], capabilities = [], uid = 1000, gid = 1000,
      graph_id = i, before = [], after = [], conditions = [], stdout = (-1, -1), stderr = (-1, -1),
      primaryPid = -1, stdoutPTYName = \<lparr>c_str = [], capacity = 0\<rparr>, stderrPTYName = \<lparr>c_str = [], capacity = 0\<rparr>,
      want_tty = False, want_default_env = False, ptype = SIMPLE, state = BLOCKED,
      allowed_env_vars = default_allowed_env_vars, env_extra_vars = []\<rparr>"

text \<open>
  C22. \<open>notify_of_state\<close>, an early-exit fold over the conditions, changes nothing but the state, and the
  state only from \<open>BLOCKED\<close> to \<open>READY\<close>: exactly when every condition names a known live object that
  is at this moment in exactly the required state.
\<close>

theorem notify_of_state_exact:
  "notify_of_state procs h c =
     (if state c = BLOCKED \<and>
         (\<forall>(i, st)\<in>set (conditions c). \<exists>r other. omap_find procs i = Some (Some r) \<and> h r = Some other \<and> state other = st)
      then c\<lparr>state := READY\<rparr> else c)"
  unfolding notify_of_state_alt condition_holds_def case_prod_beta ..

theorem notify_of_state_exact_witness:
  "notify_of_state [(7, Some 1)] [1 \<mapsto> (example_child ''db'' 7)\<lparr>state := RUNNING\<rparr>]
     ((example_child ''web'' 8)\<lparr>conditions := [(7, RUNNING)]\<rparr>) =
   (example_child ''web'' 8)\<lparr>conditions := [(7, RUNNING)], state := READY\<rparr>"
  using notify_of_state_exact [of "[(7, Some 1)]" "[1 \<mapsto> (example_child ''db'' 7)\<lparr>state := RUNNING\<rparr>]"
      "(example_child ''web'' 8)\<lparr>conditions := [(7, RUNNING)]\<rparr>"]
  by (simp add: example_child_def omap_find_def)

text \<open>
  As a map from process numbers to awaited states, the conditions after \<open>should_wait_for\<close> are the
  old ones, extended at the new number if it was not there: the first state asked for wins.
\<close>

theorem should_wait_for_first_wins:
  "map_of (conditions (should_wait_for c i st)) = [i \<mapsto> st] ++ map_of (conditions c)"
proof
  fix j
  have "i \<in> set (map fst (conditions c)) \<longleftrightarrow> map_of (conditions c) i \<noteq> None"
    by (simp add: map_of_eq_None_iff)
  then show "map_of (conditions (should_wait_for c i st)) j = ([i \<mapsto> st] ++ map_of (conditions c)) j"
    by (auto simp: should_wait_for_conditions map_add_def split: option.splits)
qed

end
