(* ===== verification/Child_Env.thy ===== *)
theory Child_Env
  imports Child_Process
begin

text \<open>
  \<open>ChildProcess::handle_env\<close>: the environment of a child is built from the variables of the
  environment of scinit that are on the child's list, fixed defaults, and the variables of the
  configuration, whose values are templates. The result is rendered by the template engine as
  one line per variable and split into lines.
\<close>

section \<open>Reading the environment\<close>

definition newline :: char where "newline = CHR 0x0A"

text \<open>
  \<open>var.find('=')\<close> is \<open>npos\<close> when there is no such character. The test \<open>pos <= 0\<close> is on an
  unsigned value, so it holds for position 0 only; for \<open>npos\<close> the key is the whole string and
  \<open>substr(npos + 1)\<close>, that is \<open>substr(0)\<close>, is the whole string as well.
\<close>

fun find_char :: "char \<Rightarrow> string \<Rightarrow> nat option" where
  "find_char x [] = None"
| "find_char x (c # cs) = (if c = x then Some 0 else map_option Suc (find_char x cs))"

definition split_var :: "string \<Rightarrow> exn + string \<times> string" where
  "split_var var =
     (case find_char (CHR ''='') var of
        None \<Rightarrow> Inr (var, var)
      | Some pos \<Rightarrow>
          if pos = 0 then Inl (ChildProcessException ''ERROR: Couldn't find '=' in environment variable string!'')
          else Inr (take pos var, drop (pos + 1) var))"

fun read_environ :: "string list \<Rightarrow> string list \<Rightarrow> vars \<Rightarrow> exn + vars" where
  "read_environ allowed [] vs = Inr vs"
| "read_environ allowed (var # rest) vs =
     (case split_var var of
        Inl e \<Rightarrow> Inl e
      | Inr (key, val) \<Rightarrow>
          read_environ allowed rest (if key \<in> set allowed then omap_insert key val vs else vs))"

section \<open>Defaults and configured variables\<close>

definition insert_all :: "(string \<times> string) list \<Rightarrow> vars \<Rightarrow> vars" where
  "insert_all kvs vs = fold (\<lambda>(k, v). omap_insert k v) kvs vs"

definition default_env :: "string \<Rightarrow> (string \<times> string) list" where
  "default_env user =
     [(''LANG'', ''C''), (''LANGUAGE'', ''en''), (''LOGNAME'', user),
      (''PATH'', ''/usr/local/bin:/usr/bin:/bin''), (''SHELL'', ''/bin/bash''), (''TERM'', ''screen''),
      (''HOME'', ''/app''), (''PWD'', ''/app'')]"

fun render_extra :: "platform \<Rightarrow> (string \<times> string) list \<Rightarrow> vars \<Rightarrow> exn + vars" where
  "render_extra P [] vs = Inr vs"
| "render_extra P ((k, tmpl) # rest) vs =
     (case inja_render P tmpl vs of
        Inl e \<Rightarrow> Inl e
      | Inr val \<Rightarrow> render_extra P rest (omap_insert k val vs))"

definition env_vars :: "platform \<Rightarrow> child \<Rightarrow> exn + vars" where
  "env_vars P c =
     (case read_environ (allowed_env_vars c) (environ P) [] of
        Inl e \<Rightarrow> Inl e
      | Inr vs \<Rightarrow>
          let vs = omap_insert ''USER'' (username c) vs;
              vs = (if want_default_env c then insert_all (default_env (username c)) vs else vs)
          in render_extra P (env_extra_vars c) vs)"

section \<open>From the object to the list of strings\<close>

text \<open>The callbacks \<open>keys\<close> and \<open>lookup\<close>, and the template.\<close>

definition cb_keys :: "vars \<Rightarrow> string list" where "cb_keys obj = omap_keys obj"
definition cb_lookup :: "vars \<Rightarrow> string \<Rightarrow> string option" where "cb_lookup obj key = omap_find obj key"

definition env_template :: string where
  "env_template = ''{% for var in keys(vars) %}{{ var }}={{ lookup(vars, var) }}'' @ [newline] @ ''{% endfor %}''"

text \<open>\<open>std::getline\<close> in a loop: the last line counts only if it is not empty.\<close>

fun getlines_aux :: "string \<Rightarrow> string \<Rightarrow> string list" where
  "getlines_aux acc [] = (if acc = [] then [] else [rev acc])"
| "getlines_aux acc (c # cs) = (if c = newline then rev acc # getlines_aux [] cs else getlines_aux (c # acc) cs)"

definition getlines :: "string \<Rightarrow> string list" where
  "getlines s = getlines_aux [] s"

definition handle_env :: "platform \<Rightarrow> child \<Rightarrow> exn + string list" where
  "handle_env P c =
     (case env_vars P c of
        Inl e \<Rightarrow> Inl e
      | Inr vs \<Rightarrow>
          (case inja_render_with P cb_keys cb_lookup env_template vs of
             Inl e \<Rightarrow> Inl e
           | Inr envstr \<Rightarrow> Inr (getlines envstr)))"

section \<open>What the template engine is relied on for\<close>

text \<open>
  The engine's documentation of loops, expressions and callbacks, for this template: the body is
  rendered once per element of \<open>keys(vars)\<close>, and both expressions print their string.
\<close>

definition entry_line :: "string \<times> string \<Rightarrow> string" where
  "entry_line kv = fst kv @ ''='' @ snd kv"

definition renders_loop :: "platform \<Rightarrow> bool" where
  "renders_loop P \<longleftrightarrow>
     (\<forall>ks lk vs. (\<forall>k\<in>set (ks vs). lk vs k \<noteq> None) \<longrightarrow>
        inja_render_with P ks lk env_template vs =
        Inr (concat (map (\<lambda>k. entry_line (k, the (lk vs k)) @ [newline]) (ks vs))))"

section \<open>Lemmas\<close>

lemma getlines_aux_line:
  "newline \<notin> set l \<Longrightarrow> getlines_aux acc (l @ newline # s) = (rev acc @ l) # getlines_aux [] s"
  by (induction l arbitrary: acc) auto

text \<open>Printing lines and splitting them gives the lines back, if none contains a newline.\<close>

lemma getlines_concat:
  "(\<And>l. l \<in> set ls \<Longrightarrow> newline \<notin> set l) \<Longrightarrow> getlines (concat (map (\<lambda>l. l @ [newline]) ls)) = ls"
  by (induction ls) (simp_all add: getlines_def getlines_aux_line)

lemma getlines_concat_general:
  "getlines (concat (map (\<lambda>l. l @ [newline]) ls)) = concat (map (\<lambda>l. getlines (l @ [newline])) ls)"
proof -
  have step: "getlines_aux acc (l @ newline # s) = getlines_aux acc (l @ [newline]) @ getlines_aux [] s"
    for acc l s by (induction l arbitrary: acc) auto
  show ?thesis
  proof (induction ls)
    case (Cons l ls)
    then show ?case
      using step [of "[]" l "concat (map (\<lambda>l. l @ [newline]) ls)"] by (simp add: getlines_def)
  qed (simp add: getlines_def)
qed

lemma omap_ok_insert_all: "omap_ok vs \<Longrightarrow> omap_ok (insert_all kvs vs)"
  unfolding insert_all_def by (induction kvs arbitrary: vs) auto

lemma read_environ_ok: "read_environ al env vs = Inr vs' \<Longrightarrow> omap_ok vs \<Longrightarrow> omap_ok vs'"
  by (induction al env vs rule: read_environ.induct)
     (auto split: sum.splits prod.splits if_splits)

lemma render_extra_ok: "render_extra P ex vs = Inr vs' \<Longrightarrow> omap_ok vs \<Longrightarrow> omap_ok vs'"
  by (induction P ex vs rule: render_extra.induct) (auto split: sum.splits)

lemma env_vars_ok: "env_vars P c = Inr vs \<Longrightarrow> omap_ok vs"
  by (auto simp: env_vars_def Let_def split: sum.splits if_splits
      dest!: read_environ_ok intro: omap_ok_insert_all elim!: render_extra_ok)

lemma insert_all_find:
  "omap_find (insert_all kvs vs) k =
     (case map_of (rev kvs) k of Some v \<Rightarrow> Some v | None \<Rightarrow> omap_find vs k)"
  unfolding insert_all_def
  by (induction kvs arbitrary: vs) (auto simp: map_add_def split: option.splits)



lemma render_extra_other:
  "render_extra P ex vs = Inr vs' \<Longrightarrow> k \<notin> fst ` set ex \<Longrightarrow> omap_find vs' k = omap_find vs k"
  by (induction P ex vs rule: render_extra.induct) (auto split: sum.splits)

lemma handle_env_lines:
  assumes "renders_loop P" and "env_vars P c = Inr vs"
  shows "handle_env P c = Inr (concat (map (\<lambda>kv. getlines (entry_line kv @ [newline])) vs))"
proof -
  have keys: "\<forall>k\<in>set (cb_keys vs). cb_lookup vs k \<noteq> None"
    using omap_keys_find [of _ vs] by (auto simp: cb_keys_def cb_lookup_def simp del: set_map)
  have entry: "entry_line (k, the (cb_lookup vs k)) = entry_line (k, v)" if "(k, v) \<in> set vs" for k v
    using that omap_entry_find [OF env_vars_ok [OF assms(2)], of k v] by (simp add: cb_lookup_def)
  have lines: "map (\<lambda>k. entry_line (k, the (cb_lookup vs k)) @ [newline]) (cb_keys vs) =
      map (\<lambda>l. l @ [newline]) (map entry_line vs)"
    by (auto simp: cb_keys_def entry)
  have "handle_env P c = Inr (getlines (concat (map (\<lambda>l. l @ [newline]) (map entry_line vs))))"
    using assms keys unfolding renders_loop_def by (simp add: handle_env_def lines)
  then show ?thesis using getlines_concat_general [of "map entry_line vs"] by (simp add: comp_def)
qed

lemma getlines_aux_keep:
  "l \<noteq> [] \<Longrightarrow> newline \<notin> set l \<Longrightarrow> l \<in> set (getlines_aux acc (pre @ newline # l @ [newline]))"
proof (induction pre arbitrary: acc)
  case Nil
  then show ?case using getlines_aux_line [of l "[]" "[]"] by simp
qed auto




section \<open>Properties\<close>

text \<open>
  For the examples: an outside world given by its replies and its environment, and a template engine
  that renders the loop over all variables and leaves every other text as it is.
\<close>

definition example_platform :: "(trace \<Rightarrow> oscall \<Rightarrow> reply) \<Rightarrow> string list \<Rightarrow> platform" where
  "example_platform replies env =
     \<lparr>os = replies, environ = env,
      inja_render = (\<lambda>t vs. Inr t),
      inja_render_with = (\<lambda>ks lk t vs. Inr (concat (map (\<lambda>k. entry_line (k, the (lk vs k)) @ [newline]) (ks vs))))\<rparr>"

lemma example_platform_simps [simp]:
  "os (example_platform replies env) = replies"
  "environ (example_platform replies env) = env"
  "inja_render (example_platform replies env) t vs = Inr t"
  "renders_loop (example_platform replies env)"
  by (simp_all add: example_platform_def renders_loop_def)

text \<open>
  C20. The environment of a child: if no variable name or value contains a newline, the list of strings that
  \<open>handle_env\<close> returns has exactly one string \<open>key=value\<close> per variable, in strictly ascending order of the names.
\<close>

theorem environment_strings:
  assumes "renders_loop P" and "env_vars P c = Inr vs"
    and clean: "\<And>k v. (k, v) \<in> set vs \<Longrightarrow> newline \<notin> set k \<and> newline \<notin> set v"
  shows "handle_env P c = Inr (map (\<lambda>(k, v). k @ ''='' @ v) vs) \<and> sorted_wrt (<) (map fst vs)"
proof -
  have "getlines (entry_line kv @ [newline]) = [entry_line kv]" if "kv \<in> set vs" for kv
  proof -
    have "newline \<notin> set (entry_line kv)"
      using clean [of "fst kv" "snd kv"] that by (auto simp: entry_line_def newline_def)
    then show ?thesis using getlines_concat [of "[entry_line kv]"] by simp
  qed
  then have "concat (map (\<lambda>kv. getlines (entry_line kv @ [newline])) vs) = map entry_line vs"
    by (induction vs) simp_all
  then show ?thesis
    using handle_env_lines [OF assms(1,2)] env_vars_ok [OF assms(2)]
    by (auto simp: omap_ok_def entry_line_def)
qed

theorem environment_strings_witness:
  "handle_env (example_platform (\<lambda>_ _. ok_reply) [''TERM=vt100'', ''SECRET=1'']) (example_child ''web'' 1) =
     Inr [''TERM=vt100'', ''USER=app'']"
  using environment_strings [of "example_platform (\<lambda>_ _. ok_reply) [''TERM=vt100'', ''SECRET=1'']"
      "example_child ''web'' 1" "[(''TERM'', ''vt100''), (''USER'', ''app'')]"]
  by (simp add: env_vars_def example_child_def default_allowed_env_vars_def split_var_def newline_def) fastforce



text \<open>
  Precedence: for a variable that the configuration does not set, a wanted default hides the value
  inherited from the environment of scinit, and \<open>USER\<close> is always the name of the child's user.
\<close>

theorem environment_precedence:
  assumes "env_vars P c = Inr vs" and "read_environ (allowed_env_vars c) (environ P) [] = Inr inherited"
    and "k \<notin> fst ` set (env_extra_vars c)"
  shows "omap_find vs k =
    (case (if want_default_env c then map_of (default_env (username c)) k else None) of
       Some v \<Rightarrow> Some v
     | None \<Rightarrow> if k = ''USER'' then Some (username c) else omap_find inherited k)"
proof -
  have "render_extra P (env_extra_vars c)
      (if want_default_env c then insert_all (default_env (username c)) (omap_insert ''USER'' (username c) inherited)
       else omap_insert ''USER'' (username c) inherited) = Inr vs"
    using assms(1,2) by (simp add: env_vars_def Let_def)
  from render_extra_other [OF this assms(3)] show ?thesis
    by (simp add: insert_all_find default_env_def split: option.split)
qed

theorem environment_precedence_witness:
  "omap_find [(''TERM'', ''vt100''), (''USER'', ''app'')] ''USER'' = Some ''app''"
  using environment_precedence [of "example_platform (\<lambda>_ _. ok_reply) [''TERM=vt100'', ''USER=root'']"
      "example_child ''web'' 1" "[(''TERM'', ''vt100''), (''USER'', ''app'')]"
      "[(''TERM'', ''vt100''), (''USER'', ''root'')]" "''USER''"]
  by (simp add: env_vars_def example_child_def default_allowed_env_vars_def split_var_def)

text \<open>
  C38. A value with a newline injects a variable: the text after the newline becomes a string of the
  child's environment of its own, whatever the variable lists allow.
\<close>

theorem environment_injection:
  assumes "renders_loop P" and "env_vars P c = Inr vs"
    and "(k, v @ newline # injected) \<in> set vs" and "injected \<noteq> []" and "newline \<notin> set injected"
  shows "\<exists>environment. handle_env P c = Inr environment \<and> injected \<in> set environment"
proof -
  have "injected \<in> set (getlines (entry_line (k, v @ newline # injected) @ [newline]))"
    using getlines_aux_keep [OF assms(4,5), of "[]" "k @ ''='' @ v"] by (simp add: getlines_def entry_line_def)
  then show ?thesis using handle_env_lines [OF assms(1,2)] assms(3) by fastforce
qed

theorem environment_injection_witness:
  "\<exists>environment. handle_env (example_platform (\<lambda>_ _. ok_reply) [''TERM=x'' @ newline # ''LD_PRELOAD=e''])
     (example_child ''web'' 1) = Inr environment \<and> ''LD_PRELOAD=e'' \<in> set environment"
  by (rule environment_injection [of _ _ "[(''TERM'', ''x'' @ newline # ''LD_PRELOAD=e''), (''USER'', ''app'')]" "''TERM''" "''x''"])
    (simp_all add: env_vars_def example_child_def default_allowed_env_vars_def split_var_def newline_def)

text \<open>
  Reading the environment of scinit fails exactly if some string starts with the equals sign. A string without
  one is not an error, although the check is there for it: it counts as a variable whose name and value
  are both the whole string.
\<close>

theorem read_environ_errors:
  "((\<exists>e. read_environ allowed env vs = Inl e) \<longleftrightarrow> (\<exists>rest. CHR ''='' # rest \<in> set env)) \<and>
   (CHR ''='' \<notin> set var \<longrightarrow> split_var var = Inr (var, var))"
proof -
  have fc: "find_char x s = Some 0 \<longleftrightarrow> (\<exists>rest. s = x # rest)" for x s
    by (cases s) auto
  have nf: "find_char x s = None \<longleftrightarrow> x \<notin> set s" for x s
    by (induction s) auto
  have "split_var var = Inr (var, var)" if "CHR ''='' \<notin> set var"
  proof -
    have "find_char (CHR ''='') var = None" using that nf [of "CHR ''=''" var] by blast
    then show ?thesis by (simp add: split_var_def)
  qed
  moreover
  have sv: "(\<exists>e. split_var v = Inl e) \<longleftrightarrow> (\<exists>rest. v = CHR ''='' # rest)" for v
    by (auto simp: split_var_def fc [symmetric] split: option.splits)
  have "(\<exists>e. read_environ allowed env vs = Inl e) \<longleftrightarrow> (\<exists>rest. CHR ''='' # rest \<in> set env)"
  proof (induction env arbitrary: vs)
    case (Cons v env)
    then show ?case using sv [of v] by (cases "split_var v") (auto split: prod.splits)
  qed simp
  ultimately show ?thesis by blast
qed

theorem read_environ_errors_witness:
  "split_var ''BROKEN'' = Inr (''BROKEN'', ''BROKEN'')"
  using read_environ_errors [of "[]" "[]" "[]" "''BROKEN''"] by simp

end
