(* ===== verification/Child_Caps.thy ===== *)
theory Child_Caps
  imports Child_Process
begin

text \<open>
  \<open>ChildProcess::handle_caps\<close>, which runs in the forked child: hand the terminal to the child's
  user, switch to its group and user while keeping the capabilities it may hold, and reduce the
  capability sets to the configured ones. Every call is checked where the source checks it, and
  the result is whether all checks passed.
\<close>

definition cap_clause :: "string \<Rightarrow> string" where
  "cap_clause cap = '' '' @ cap @ ''=eip''"

definition transitional_caps :: "child \<Rightarrow> string" where
  "transitional_caps c =
     ''CAP_SETUID=eip CAP_SETGID=eip CAP_SETPCAP=eip'' @ concat (map cap_clause (capabilities c))"

definition mode_620 :: nat where "mode_620 = 400"

text \<open>Ownership and mode of the two pseudo terminals, if there are any.\<close>

definition chown_ptys :: "platform \<Rightarrow> child \<Rightarrow> trace \<Rightarrow> bool \<times> trace" where
  "chown_ptys P c tr =
     (if want_tty c then
        let (r, tr) = syscall P (Sys_chown (c_str (stdoutPTYName c)) (uid c) (gid c)) tr in
        if ret r \<noteq> 0 then (False, tr) else
        let (r, tr) = syscall P (Sys_chown (c_str (stderrPTYName c)) (uid c) (gid c)) tr in
        if ret r \<noteq> 0 then (False, tr) else
        let (r, tr) = syscall P (Sys_chmod (c_str (stdoutPTYName c)) mode_620) tr in
        if ret r \<noteq> 0 then (False, tr) else
        let (r, tr) = syscall P (Sys_chmod (c_str (stderrPTYName c)) mode_620) tr in
        if ret r \<noteq> 0 then (False, tr) else (True, tr)
      else (True, tr))"

text \<open>Step 1: keep the capabilities across the change of group and user.\<close>

definition switch_user :: "platform \<Rightarrow> child \<Rightarrow> trace \<Rightarrow> bool \<times> trace" where
  "switch_user P c tr =
     (let (new_caps, tr) = syscall P (Sys_cap_from_text (c_string (transitional_caps c))) tr;
          (r, tr) = syscall P (Sys_cap_set_proc (ret new_caps)) tr in
      if ret r \<noteq> 0 then (False, tr) else
      let (_, tr) = syscall P (Sys_prctl_keepcaps 1) tr;
          (r, tr) = syscall P (Sys_setgid (gid c)) tr in
      if ret r = -1 then (False, tr) else
      let (r, tr) = syscall P (Sys_setuid (uid c)) tr in
      if ret r = -1 then (False, tr) else
      let (_, tr) = syscall P (Sys_prctl_keepcaps 0) tr;
          (r, tr) = syscall P (Sys_cap_set_proc (ret new_caps)) tr in
      if ret r \<noteq> 0 then (False, tr) else
      let (_, tr) = syscall P (Sys_cap_free (ret new_caps)) tr in
      (True, tr))"

text \<open>
  Step 2: raise the configured capabilities in the ambient set. A name that cannot be decoded is
  reported, and the loop goes on with \<open>cap\<close> as it was initialised, 0.
\<close>

fun raise_ambient :: "platform \<Rightarrow> string list \<Rightarrow> string \<Rightarrow> trace \<Rightarrow> string option \<times> trace" where
  "raise_ambient P [] cap_string tr = (Some cap_string, tr)"
| "raise_ambient P (capability # rest) cap_string tr =
     (let cap_string = cap_string @ cap_clause capability;
          (r, tr) = syscall P (Sys_cap_from_name (c_string capability)) tr;
          cap = (if ret r \<noteq> 0 then 0 else out_num r);
          (r, tr) = syscall P (Sys_prctl_ambient_raise cap) tr in
      if ret r \<noteq> -1 then raise_ambient P rest cap_string tr else (None, tr))"

text \<open>Step 3: the permitted, effective and inheritable sets.\<close>

definition final_caps :: "platform \<Rightarrow> string \<Rightarrow> trace \<Rightarrow> bool \<times> trace" where
  "final_caps P cap_string tr =
     (let (new_caps, tr) = syscall P (Sys_cap_from_text (c_string cap_string)) tr;
          (r, tr) = syscall P (Sys_cap_set_proc (ret new_caps)) tr in
      if ret r \<noteq> 0 then (False, tr) else
      let (_, tr) = syscall P (Sys_cap_free (ret new_caps)) tr in
      (True, tr))"

definition handle_caps :: "platform \<Rightarrow> child \<Rightarrow> trace \<Rightarrow> bool \<times> trace" where
  "handle_caps P c tr =
     (let (ok, tr) = chown_ptys P c tr in
      if \<not> ok then (False, tr) else
      let (ok, tr) = switch_user P c tr in
      if \<not> ok then (False, tr) else
      let (_, tr) = syscall P Sys_prctl_ambient_clear_all tr;
          (cap_string, tr) = raise_ambient P (capabilities c) [] tr in
      case cap_string of
        None \<Rightarrow> (False, tr)
      | Some s \<Rightarrow> final_caps P s tr)"

section \<open>Each step adds to the trace, and neither forks nor waits\<close>

lemma raise_ambient_quiet: "quiet_ext tr0 tr \<Longrightarrow> quiet_ext tr0 (snd (raise_ambient P caps s tr))"
  by (induction P caps s tr rule: raise_ambient.induct)
     (simp_all add: syscall_def Let_def quiet_rules)

interpretation chown: quiet_traced "chown_ptys P" for P
  by unfold_locales (auto simp: chown_ptys_def syscall_def Let_def quiet_rules split: if_splits)

interpretation switch: quiet_traced "switch_user P" for P
  by unfold_locales (auto simp: switch_user_def syscall_def Let_def quiet_rules split: if_splits)

interpretation raise: quiet_traced "\<lambda>(caps, s). raise_ambient P caps s" for P
  using raise_ambient_quiet by unfold_locales (fastforce dest: arg_cong [where f = snd])

interpretation final: quiet_traced "final_caps P" for P
  by unfold_locales (auto simp: final_caps_def syscall_def Let_def quiet_rules split: if_splits)

interpretation hcaps: quiet_traced "handle_caps P" for P
proof
  fix tr0 tr :: trace and c :: child and x :: bool and tr' :: trace
  assume "quiet_ext tr0 tr" and "handle_caps P c tr = (x, tr')"
  moreover have "quiet_call Sys_prctl_ambient_clear_all" by (simp add: quiet_call_def)
  ultimately show "quiet_ext tr0 tr'"
    using raise.quiet_from [of tr0 _ P "(capabilities c, [])"]
    by (auto simp: handle_caps_def syscall_def Let_def split: prod.splits option.splits if_splits
        dest: chown.quiet_from switch.quiet_from)
      (blast intro: final.quiet_from [rotated] switch.quiet_from [rotated]
        chown.quiet_from [rotated] quiet_ext_Cons)+
qed

section \<open>What is checked\<close>

text \<open>The calls whose result the source tests, and what the test is.\<close>

definition passed :: "oscall \<Rightarrow> reply \<Rightarrow> bool" where
  "passed call r =
     (case call of
        Sys_chown p u g \<Rightarrow> ret r = 0
      | Sys_chmod p m \<Rightarrow> ret r = 0
      | Sys_cap_set_proc h \<Rightarrow> ret r = 0
      | Sys_setgid g \<Rightarrow> ret r \<noteq> -1
      | Sys_setuid u \<Rightarrow> ret r \<noteq> -1
      | Sys_prctl_ambient_raise cap \<Rightarrow> ret r \<noteq> -1
      | _ \<Rightarrow> True)"

definition all_passed :: "trace \<Rightarrow> trace \<Rightarrow> bool" where
  "all_passed tr0 tr \<longleftrightarrow> (\<exists>es. tr = es @ tr0 \<and> (\<forall>(call, r)\<in>set es. passed call r))"

lemma all_passed_refl [simp]: "all_passed tr tr"
  by (simp add: all_passed_def)

lemma all_passed_Cons: "all_passed tr0 tr \<Longrightarrow> passed call r \<Longrightarrow> all_passed tr0 ((call, r) # tr)"
  unfolding all_passed_def by (metis (mono_tags, lifting) append_Cons case_prodI set_ConsD)

lemma all_passed_suffix: "all_passed tr0 tr \<Longrightarrow> suffix tr0 tr"
  by (auto simp: all_passed_def suffix_def)

lemma all_passed_trans: "all_passed a b \<Longrightarrow> all_passed b c \<Longrightarrow> all_passed a c"
  unfolding all_passed_def by fastforce

lemmas passed_rules = all_passed_Cons passed_def

lemma chown_ptys_passed: "chown_ptys P c tr = (True, tr') \<Longrightarrow> all_passed tr tr'"
  by (auto simp: chown_ptys_def syscall_def Let_def passed_rules split: if_splits)

lemma switch_user_passed: "switch_user P c tr = (True, tr') \<Longrightarrow> all_passed tr tr'"
  by (auto simp: switch_user_def syscall_def Let_def passed_rules split: if_splits)

lemma raise_ambient_passed: "raise_ambient P caps s tr = (Some t, tr') \<Longrightarrow> all_passed tr tr'"
proof (induction P caps s tr rule: raise_ambient.induct)
  case (2 P capability rest s tr)
  let ?r1 = "os P tr (Sys_cap_from_name (c_string capability))"
  let ?tr1 = "(Sys_cap_from_name (c_string capability), ?r1) # tr"
  let ?call = "Sys_prctl_ambient_raise (if ret ?r1 \<noteq> 0 then 0 else out_num ?r1)"
  let ?tr2 = "(?call, os P ?tr1 ?call) # ?tr1"
  from "2.prems" have ok: "ret (os P ?tr1 ?call) \<noteq> -1"
    and rec: "raise_ambient P rest (s @ cap_clause capability) ?tr2 = (Some t, tr')"
    by (auto simp: syscall_def Let_def split: if_splits)
  have "all_passed ?tr2 tr'" using "2.IH" rec ok by (simp add: syscall_def Let_def)
  moreover have "all_passed tr ?tr2" using ok by (simp add: passed_rules)
  ultimately show ?case by (blast intro: all_passed_trans)
qed simp

lemma final_caps_passed: "final_caps P s tr = (True, tr') \<Longrightarrow> all_passed tr tr'"
  by (auto simp: final_caps_def syscall_def Let_def passed_rules split: if_splits)

lemma handle_caps_passed:
  assumes "handle_caps P c tr = (True, tr')"
  shows "all_passed tr tr'"
proof -
  from assms obtain tr1 tr2 tr3 s r where
    ch: "chown_ptys P c tr = (True, tr1)" and
    sw: "switch_user P c tr1 = (True, tr2)" and
    ra: "raise_ambient P (capabilities c) [] ((Sys_prctl_ambient_clear_all, r) # tr2) = (Some s, tr3)" and
    fin: "final_caps P s tr3 = (True, tr')"
    by (auto simp: handle_caps_def syscall_def Let_def split: prod.splits if_splits option.splits)
  have "all_passed tr1 ((Sys_prctl_ambient_clear_all, r) # tr2)"
    using switch_user_passed [OF sw] by (simp add: passed_rules)
  with chown_ptys_passed [OF ch] raise_ambient_passed [OF ra] final_caps_passed [OF fin] show ?thesis
    by (blast intro: all_passed_trans)
qed

section \<open>What success means\<close>

text \<open>
  Every call that the code checks has succeeded. The calls that matter, newest first: the last capability state set is the
  one parsed from the configured clauses, after the call that clears the ambient set (whose result the code does not look
  at), after the user and before it the group had been set.
\<close>

definition dropped_to :: "child \<Rightarrow> trace \<Rightarrow> trace \<Rightarrow> bool" where
  "dropped_to c tr0 tr \<longleftrightarrow> all_passed tr0 tr \<and>
     (\<exists>h. since tr0
        [\<lambda>call r. call = Sys_cap_set_proc h \<and> ret r = 0,
         \<lambda>call r. call = Sys_cap_from_text (c_string (concat (map cap_clause (capabilities c)))) \<and> ret r = h,
         \<lambda>call r. call = Sys_prctl_ambient_clear_all,
         \<lambda>call r. call = Sys_setuid (uid c) \<and> ret r \<noteq> -1,
         \<lambda>call r. call = Sys_setgid (gid c) \<and> ret r \<noteq> -1] tr)"

lemma dropped_to_since:
  assumes "dropped_to c tr1 tr" and ok: "all_passed tr0 tr1"
  shows "dropped_to c tr0 tr"
  using assms(1) all_passed_trans [OF ok] since_earlier [OF all_passed_suffix [OF ok]]
  unfolding dropped_to_def by blast

lemma switch_user_True:
  assumes "switch_user P c tr = (True, tr')"
  shows "since tr
    [\<lambda>call r. call = Sys_setuid (uid c) \<and> ret r \<noteq> -1,
     \<lambda>call r. call = Sys_setgid (gid c) \<and> ret r \<noteq> -1] tr'"
  using assms
  by (auto simp: switch_user_def syscall_def Let_def suffix_def since_skip since_hit since_start split: if_splits)

lemma raise_ambient_Some:
  "raise_ambient P caps s tr = (Some t, tr') \<Longrightarrow> t = s @ concat (map cap_clause caps)"
  by (induction P caps s tr rule: raise_ambient.induct)
     (auto simp: syscall_def Let_def split: if_splits)

lemma final_caps_True:
  assumes "final_caps P s tr = (True, tr')" and "since tr0 ps tr"
  shows "\<exists>h. since tr0
    ((\<lambda>call r. call = Sys_cap_set_proc h \<and> ret r = 0) #
     (\<lambda>call r. call = Sys_cap_from_text (c_string s) \<and> ret r = h) # ps) tr'"
  by (rule exI [of _ "ret (os P tr (Sys_cap_from_text (c_string s)))"])
    (use assms in \<open>auto simp: final_caps_def syscall_def Let_def since_skip since_hit split: if_splits\<close>)

lemma handle_caps_True:
  assumes "handle_caps P c tr = (True, tr')"
  shows "dropped_to c tr tr'"
proof -
  from assms obtain tr1 tr2 tr3 s r where
    ch: "chown_ptys P c tr = (True, tr1)" and
    sw: "switch_user P c tr1 = (True, tr2)" and
    ra: "raise_ambient P (capabilities c) [] ((Sys_prctl_ambient_clear_all, r) # tr2) = (Some s, tr3)" and
    fin: "final_caps P s tr3 = (True, tr')"
    by (auto simp: handle_caps_def syscall_def Let_def split: prod.splits if_splits option.splits)
  let ?ps = "[\<lambda>call r. call = Sys_setuid (uid c) \<and> ret r \<noteq> -1,
     \<lambda>call r. call = Sys_setgid (gid c) \<and> ret r \<noteq> -1]"
  have "suffix tr tr1" using chown.grows [of tr P c] ch by simp
  then have "since tr ?ps tr2" using switch_user_True [OF sw] by (rule since_earlier)
  then have "since tr ((\<lambda>call r. call = Sys_prctl_ambient_clear_all) # ?ps) ((Sys_prctl_ambient_clear_all, r) # tr2)"
    by (rule since_hit) simp
  then have "since tr ((\<lambda>call r. call = Sys_prctl_ambient_clear_all) # ?ps) tr3"
    using raise.grows [of "(Sys_prctl_ambient_clear_all, r) # tr2" P "(capabilities c, [])"] ra
    by (auto intro: since_suffix)
  from final_caps_True [OF fin this] raise_ambient_Some [OF ra] handle_caps_passed [OF assms] show ?thesis
    by (simp add: dropped_to_def)
qed

section \<open>Properties\<close>

text \<open>
  C16. If \<open>handle_caps\<close> reports success, every call it made whose result it tests has succeeded: changing the owner
  and mode of the terminals, setting group, user and capability sets, and raising ambient capabilities.
\<close>

theorem handle_caps_all_checked:
  assumes "handle_caps P c tr = (True, tr')"
  shows "\<exists>es. tr' = es @ tr \<and> (\<forall>(call, r)\<in>set es. passed call r)"
  using handle_caps_passed [OF assms] by (simp only: all_passed_def)

definition example_kernel :: platform where
  "example_kernel =
     \<lparr>os = \<lambda>tr c. ok_reply, environ = [], inja_render = \<lambda>t vs. Inr t, inja_render_with = \<lambda>ks lk t vs. Inr t\<rparr>"

theorem handle_caps_all_checked_witness:
  "\<exists>es. snd (handle_caps example_kernel ((example_child ''web'' 1)\<lparr>capabilities := [''CAP_NET_RAW'']\<rparr>) []) = es @ [] \<and>
     (\<forall>(call, r)\<in>set es. passed call r)"
proof (rule handle_caps_all_checked)
  have "fst (handle_caps example_kernel ((example_child ''web'' 1)\<lparr>capabilities := [''CAP_NET_RAW'']\<rparr>) [])"
    by code_simp
  then show "handle_caps example_kernel ((example_child ''web'' 1)\<lparr>capabilities := [''CAP_NET_RAW'']\<rparr>) [] =
      (True, snd (handle_caps example_kernel ((example_child ''web'' 1)\<lparr>capabilities := [''CAP_NET_RAW'']\<rparr>) []))"
    by (metis prod.collapse)
qed

text \<open>
  A capability name that cannot be decoded is not left out, as the warning says: the number 0, which is
  the capability \<open>CAP_CHOWN\<close>, is raised in the ambient set instead.
\<close>

theorem unknown_capability_raises_zero:
  assumes "ret (os P tr (Sys_cap_from_name (c_string nm))) \<noteq> 0"
  shows "since tr [\<lambda>call r. call = Sys_prctl_ambient_raise 0, \<lambda>call r. call = Sys_cap_from_name (c_string nm)]
    (snd (raise_ambient P (nm # rest) s tr))"
proof -
  let ?r = "os P tr (Sys_cap_from_name (c_string nm))"
  let ?tr1 = "(Sys_cap_from_name (c_string nm), ?r) # tr"
  let ?tr2 = "(Sys_prctl_ambient_raise 0, os P ?tr1 (Sys_prctl_ambient_raise 0)) # ?tr1"
  have "suffix ?tr2 (snd (raise_ambient P (nm # rest) s tr))"
    using raise.grows [of ?tr2 P "(rest, s @ cap_clause nm)"] assms
    by (simp add: syscall_def Let_def)
  moreover have "since tr [\<lambda>call r. call = Sys_prctl_ambient_raise 0, \<lambda>call r. call = Sys_cap_from_name (c_string nm)] ?tr2"
    by (simp add: since_hit since_start)
  ultimately show ?thesis by (rule since_suffix)
qed

theorem unknown_capability_raises_zero_witness:
  "since [] [\<lambda>call r. call = Sys_prctl_ambient_raise 0, \<lambda>call r. call = Sys_cap_from_name (c_string ''CAP_TYPO'')]
    (snd (raise_ambient (example_kernel\<lparr>os := \<lambda>tr c. ok_reply\<lparr>ret := -1\<rparr>\<rparr>) [''CAP_TYPO''] [] []))"
  by (rule unknown_capability_raises_zero) simp

end
