(* ===== verification/Child_Fork.thy ===== *)
theory Child_Fork
  imports Child_Env Child_Caps
begin

text \<open>
  \<open>ChildProcess::do_fork\<close> and \<open>register_with_epoll\<close>: open the channels to the child, compute its
  environment, fork, and in the child redirect the output, drop the privileges and execute the
  program. \<open>fork\<close> returns twice; the reply 0 selects the child's branch, which never returns.
\<close>

unbundle bit_operations_syntax

section \<open>Constants of the platform\<close>

definition FD_CLOEXEC :: int where "FD_CLOEXEC = 1"
definition EINTR :: int where "EINTR = 4"
definition ERANGE :: int where "ERANGE = 34"
definition EPOLLIN :: u32 where "EPOLLIN = 0x001"
definition EPOLLHUP :: u32 where "EPOLLHUP = 0x010"

definition raw_iflag :: u32 where \<comment> \<open>\<open>BRKINT | ICRNL | INPCK | ISTRIP | IXON\<close>\<close>
  "raw_iflag = 0x0002 OR 0x0100 OR 0x0010 OR 0x0020 OR 0x0400"
definition raw_oflag :: u32 where \<comment> \<open>\<open>OPOST\<close>\<close>
  "raw_oflag = 0x0001"
definition raw_lflag :: u32 where \<comment> \<open>\<open>ECHO | ICANON | IEXTEN | ISIG\<close>\<close>
  "raw_lflag = 0x0008 OR 0x0002 OR 0x8000 OR 0x0001"

section \<open>Opening the channels\<close>

definition fail :: "string \<Rightarrow> 's \<Rightarrow> 'a res \<times> 's" where
  "fail msg s = (Inl (Throw (ChildProcessException msg)), s)"

definition open_pipes :: "platform \<Rightarrow> child \<times> trace \<Rightarrow> unit res \<times> child \<times> trace" where
  "open_pipes P = (\<lambda>(c, tr).
     let (r, tr) = syscall P Sys_pipe tr in
     if ret r = -1 then fail ''Couldn't create stdout pipe!'' (c, tr) else
     let c = c\<lparr>stdout := fds r\<rparr>;
         (r, tr) = syscall P Sys_pipe tr in
     if ret r = -1 then fail ''Couldn't create stderr pipe!'' (c, tr) else
     let c = c\<lparr>stderr := fds r\<rparr>;
         (_, tr) = syscall P (Sys_fcntl (fst (stdout c)) FD_CLOEXEC) tr;
         (_, tr) = syscall P (Sys_fcntl (fst (stderr c)) FD_CLOEXEC) tr in
     (Inr (), (c, tr)))"

text \<open>The attributes of the terminal of scinit, or a fallback, in raw mode.\<close>

definition raw_mode :: "termios \<Rightarrow> termios" where
  "raw_mode t =
     t\<lparr>c_iflag := c_iflag t AND NOT raw_iflag,
       c_oflag := c_oflag t AND NOT raw_oflag,
       c_lflag := c_lflag t AND NOT raw_lflag\<rparr>"

definition tty_properties :: "platform \<Rightarrow> trace \<Rightarrow> (termios \<times> winsize) \<times> trace" where
  "tty_properties P tr =
     (let (r, tr) = syscall P (Sys_tcgetattr 0) tr;
          fake = zero_winsize\<lparr>ws_row := 24, ws_col := 80\<rparr> in
      if ret r < 0 then ((raw_mode zero_termios, fake), tr) else
      let attrs = out_termios r;
          (r, tr) = syscall P (Sys_ioctl_TIOCGWINSZ 0) tr in
      ((raw_mode attrs, if ret r < 0 then fake else out_winsize r), tr))"

text \<open>
  The vectors have size 0, so a reallocation does not keep the bytes that were written behind their end. Until the next
  call has written a name the contents are undetermined (here: empty), and nobody reads them.
\<close>

definition reserve :: "nat \<Rightarrow> char_vector \<Rightarrow> char_vector" where
  "reserve n v = (if capacity v < n then v\<lparr>c_str := [], capacity := n\<rparr> else v)"

text \<open>The loop around \<open>ttyname_r\<close>: grow the buffer while it is too small.\<close>

fun ttyname_loop :: "platform \<Rightarrow> nat \<Rightarrow> int \<Rightarrow> char_vector \<Rightarrow> trace \<Rightarrow> (int \<times> char_vector) res \<times> trace" where
  "ttyname_loop P 0 fd buf tr = (Inl No_fuel, tr)"
| "ttyname_loop P (Suc n) fd buf tr =
     (let (r, tr) = syscall P (Sys_ttyname_r fd (capacity buf)) tr in
      if ret r = ERANGE then ttyname_loop P n fd (reserve (capacity buf * 2 + 1) buf) tr
      else (Inr (ret r, if ret r = 0 then buf\<lparr>c_str := out_text r\<rparr> else buf), tr))"

definition open_ptys :: "platform \<Rightarrow> nat \<Rightarrow> child \<times> trace \<Rightarrow> unit res \<times> child \<times> trace" where
  "open_ptys P n = (\<lambda>(c, tr).
     let ((attrs, size), tr) = tty_properties P tr;
         (r, tr) = syscall P (Sys_openpty attrs size) tr in
     if ret r < 0 then fail ''Couldn't allocate stdout pty!'' (c, tr) else
     let c = c\<lparr>stdout := fds r\<rparr>;
         (r, tr) = syscall P (Sys_openpty attrs size) tr in
     if ret r < 0 then fail ''Couldn't allocate stderr pty!'' (c, tr) else
     let c = c\<lparr>stderr := fds r\<rparr>;
         c = c\<lparr>stdoutPTYName := reserve 64 (stdoutPTYName c),
               stderrPTYName := reserve 64 (stderrPTYName c)\<rparr> in
     case ttyname_loop P n (snd (stdout c)) (stdoutPTYName c) tr of
       (Inl e, tr) \<Rightarrow> (Inl e, (c, tr))
     | (Inr (rc, buf), tr) \<Rightarrow>
         let c = c\<lparr>stdoutPTYName := buf\<rparr> in
         if rc \<noteq> 0 then fail ''Couldn't load name of stdout pty!'' (c, tr) else
         (case ttyname_loop P n (snd (stdout c)) (stderrPTYName c) tr of
            (Inl e, tr) \<Rightarrow> (Inl e, (c, tr))
          | (Inr (rc, buf), tr) \<Rightarrow>
              let c = c\<lparr>stderrPTYName := buf\<rparr> in
              if rc \<noteq> 0 then fail ''Couldn't load name of stderr pty!'' (c, tr)
              else (Inr (), (c, tr))))"

definition open_channels :: "platform \<Rightarrow> nat \<Rightarrow> child \<times> trace \<Rightarrow> unit res \<times> child \<times> trace" where
  "open_channels P n ct = (if \<not> want_tty (fst ct) then open_pipes P ct else open_ptys P n ct)"

section \<open>The child's side of the fork\<close>

fun dup2_loop :: "platform \<Rightarrow> nat \<Rightarrow> int \<Rightarrow> int \<Rightarrow> trace \<Rightarrow> unit res \<times> trace" where
  "dup2_loop P 0 old new tr = (Inl No_fuel, tr)"
| "dup2_loop P (Suc n) old new tr =
     (let (r, tr) = syscall P (Sys_dup2 old new) tr in
      if ret r = -1 \<and> out_num r = EINTR then dup2_loop P n old new tr else (Inr (), tr))"

definition argv :: "child \<Rightarrow> string list" where
  "argv c = map c_string (path c # args c)"

definition exec_child :: "platform \<Rightarrow> nat \<Rightarrow> child \<Rightarrow> string list \<Rightarrow> trace \<Rightarrow> stop \<times> trace" where
  "exec_child P n c environment tr =
     (case dup2_loop P n (snd (stdout c)) 1 tr of
        (Inl e, tr) \<Rightarrow> (e, tr)
      | (Inr _, tr) \<Rightarrow>
     (case dup2_loop P n (snd (stderr c)) 2 tr of
        (Inl e, tr) \<Rightarrow> (e, tr)
      | (Inr _, tr) \<Rightarrow>
          let (_, tr) = syscall P (Sys_close (snd (stdout c))) tr;
              (_, tr) = syscall P (Sys_close (snd (stderr c))) tr;
              (ok, tr) = handle_caps P c tr in
          if \<not> ok then (Exit_process (-1), tr) else
          let (r, tr) = syscall P (Sys_execvpe (c_string (path c)) (argv c) (map c_string environment)) tr in
          if ret r = -1 then (Exit_process (-1), tr) else (Image_replaced, tr)))"

section \<open>The parent's side\<close>

definition do_fork ::
  "platform \<Rightarrow> nat \<Rightarrow> child \<times> (int, u32) omap \<times> trace \<Rightarrow> unit res \<times> child \<times> (int, u32) omap \<times> trace" where
  "do_fork P n = (\<lambda>(c, reg, tr).
     if state c \<noteq> READY then fail ''Process not ready, cannot fork now!'' (c, reg, tr) else
     case open_channels P n (c, tr) of
       (Inl e, (c, tr)) \<Rightarrow> (Inl e, (c, reg, tr))
     | (Inr _, (c, tr)) \<Rightarrow>
         (case handle_env P c of
            Inl e \<Rightarrow> (Inl (Throw e), (c, reg, tr))
          | Inr environment \<Rightarrow>
              let (r, tr) = syscall P Sys_fork tr;
                  c = c\<lparr>primaryPid := ret r\<rparr> in
              if primaryPid c = 0 then
                let (e, tr) = exec_child P n c environment tr in (Inl e, (c, reg, tr))
              else
                let (_, tr) = syscall P (Sys_close (snd (stdout c))) tr;
                    (_, tr) = syscall P (Sys_close (snd (stderr c))) tr;
                    c = c\<lparr>state := RUNNING\<rparr>;
                    reg = omap_insert (primaryPid c) (graph_id c) reg in
                (Inr (), (c, reg, tr))))"

definition register_with_epoll ::
  "platform \<Rightarrow> int \<Rightarrow> child \<Rightarrow> (int, u32) omap \<times> (int, FDType) omap \<times> trace \<Rightarrow>
   unit res \<times> (int, u32) omap \<times> (int, FDType) omap \<times> trace" where
  "register_with_epoll P epfd c = (\<lambda>(m, types, tr).
     let (r, tr) = syscall P (Sys_epoll_ctl_add epfd (fst (stdout c)) EPOLLIN) tr in
     if ret r = -1 then fail ''Couldn't bind stdout pipe to epoll socket!'' (m, types, tr) else
     let (r, tr) = syscall P (Sys_epoll_ctl_add epfd (fst (stderr c)) EPOLLIN) tr in
     if ret r = -1 then fail ''Couldn't bind stderr pipe to epoll socket!'' (m, types, tr) else
     let m = omap_insert (fst (stdout c)) (graph_id c) m;
         m = omap_insert (fst (stderr c)) (graph_id c) m;
         types = omap_insert (fst (stdout c)) STDOUT types;
         types = omap_insert (fst (stderr c)) STDERR types in
     (Inr (), (m, types, tr)))"

section \<open>The channels\<close>

text \<open>Opening the channels changes the descriptors and the names of the terminals only.\<close>

definition same_but_channels :: "child \<Rightarrow> child \<Rightarrow> bool" where
  "same_but_channels c c' \<longleftrightarrow>
     c' = c\<lparr>stdout := stdout c', stderr := stderr c',
            stdoutPTYName := stdoutPTYName c', stderrPTYName := stderrPTYName c'\<rparr>"

lemma same_but_channels_refl [simp]: "same_but_channels c c"
  by (simp add: same_but_channels_def)

lemma same_but_channels_fields:
  assumes "same_but_channels c c'"
  shows "name c' = name c" "path c' = path c" "args c' = args c" "capabilities c' = capabilities c"
    "uid c' = uid c" "gid c' = gid c" "graph_id c' = graph_id c" "conditions c' = conditions c"
    "primaryPid c' = primaryPid c" "state c' = state c" "ptype c' = ptype c" "username c' = username c"
    "allowed_env_vars c' = allowed_env_vars c" "env_extra_vars c' = env_extra_vars c"
    "want_default_env c' = want_default_env c" "want_tty c' = want_tty c" "before c' = before c" "after c' = after c"
    "settings c' = settings c"
  by (subst assms [unfolded same_but_channels_def], simp add: settings_def)+

lemma ttyname_loop_quiet:
  "quiet_ext tr0 tr \<Longrightarrow> quiet_ext tr0 (snd (ttyname_loop P n fd buf tr))"
  by (induction P n fd buf tr rule: ttyname_loop.induct)
     (auto simp: syscall_def Let_def quiet_rules)

interpretation ttyname: quiet_traced "\<lambda>(n, fd, buf). ttyname_loop P n fd buf" for P
  using ttyname_loop_quiet by unfold_locales (fastforce dest: arg_cong [where f = snd])

lemma ttyname_from:
  "ttyname_loop P n fd buf tr = (x, tr') \<Longrightarrow> quiet_ext tr0 tr \<Longrightarrow> quiet_ext tr0 tr'"
  using ttyname.quiet_from [of tr0 tr P "(n, fd, buf)"] by simp

lemma dup2_loop_quiet:
  "quiet_ext tr0 tr \<Longrightarrow> quiet_ext tr0 (snd (dup2_loop P n old new tr))"
  by (induction P n old new tr rule: dup2_loop.induct)
     (auto simp: syscall_def Let_def quiet_rules)

lemma dup2_loop_passed:
  "all_passed tr0 tr \<Longrightarrow> all_passed tr0 (snd (dup2_loop P n old new tr))"
  by (induction P n old new tr rule: dup2_loop.induct)
     (auto simp: syscall_def Let_def passed_rules)

lemma ttyname_loop_stop: "ttyname_loop P n fd buf tr = (Inl e, tr') \<Longrightarrow> e = No_fuel"
  by (induction P n fd buf tr rule: ttyname_loop.induct)
     (auto simp: syscall_def Let_def split: if_splits)

lemma dup2_loop_stop: "dup2_loop P n old new tr = (Inl e, tr') \<Longrightarrow> e = No_fuel"
  by (induction P n old new tr rule: dup2_loop.induct)
     (auto simp: syscall_def Let_def split: if_splits)

lemma tty_properties_quiet: "quiet_ext tr0 tr \<Longrightarrow> quiet_ext tr0 (snd (tty_properties P tr))"
  by (simp add: tty_properties_def syscall_def Let_def quiet_rules)

lemma open_pipes_outcome:
  assumes "open_pipes P (c, tr) = (res, (c', tr'))"
  shows "same_but_channels c c' \<and> quiet_ext tr tr' \<and> (\<forall>e. res = Inl e \<longrightarrow> (\<exists>msg. e = Throw (ChildProcessException msg)))"
  using assms
  by (auto simp: open_pipes_def syscall_def Let_def fail_def same_but_channels_def quiet_rules split: if_splits)

lemma open_ptys_outcome:
  assumes "open_ptys P n (c, tr) = (res, (c', tr'))"
  shows "same_but_channels c c' \<and> quiet_ext tr tr' \<and>
    (\<forall>e. res = Inl e \<longrightarrow> e = No_fuel \<or> (\<exists>msg. e = Throw (ChildProcessException msg)))"
proof -
  obtain attrs size tr1 where tty: "tty_properties P tr = ((attrs, size), tr1)"
    by (metis prod.exhaust)
  define r1 where "r1 = os P tr1 (Sys_openpty attrs size)"
  define tr2 where "tr2 = (Sys_openpty attrs size, r1) # tr1"
  define r2 where "r2 = os P tr2 (Sys_openpty attrs size)"
  define tr3 where "tr3 = (Sys_openpty attrs size, r2) # tr2"
  obtain res1 tr4 where tn1: "ttyname_loop P n (snd (fds r1)) (reserve 64 (stdoutPTYName c)) tr3 = (res1, tr4)"
    by (metis prod.exhaust)
  obtain res2 tr5 where tn2: "ttyname_loop P n (snd (fds r1)) (reserve 64 (stderrPTYName c)) tr4 = (res2, tr5)"
    by (metis prod.exhaust)
  have q1: "quiet_ext tr tr1"
    using tty_properties_quiet [of tr tr P] tty by simp
  have q2: "quiet_ext tr tr2" and q3: "quiet_ext tr tr3"
    using q1 by (simp_all add: tr2_def tr3_def quiet_rules)
  have q4: "quiet_ext tr tr4" by (rule ttyname_from [OF tn1 q3])
  have q5: "quiet_ext tr tr5" by (rule ttyname_from [OF tn2 q4])
  have "open_ptys P n (c, tr) =
    (if ret r1 < 0 then fail ''Couldn't allocate stdout pty!'' (c, tr2) else
     let c = c\<lparr>stdout := fds r1\<rparr> in
     if ret r2 < 0 then fail ''Couldn't allocate stderr pty!'' (c, tr3) else
     let c = c\<lparr>stderr := fds r2, stdoutPTYName := reserve 64 (stdoutPTYName c),
               stderrPTYName := reserve 64 (stderrPTYName c)\<rparr> in
     case res1 of Inl e \<Rightarrow> (Inl e, (c, tr4)) | Inr (rc, buf) \<Rightarrow>
       if rc \<noteq> 0 then fail ''Couldn't load name of stdout pty!'' (c\<lparr>stdoutPTYName := buf\<rparr>, tr4) else
       (case res2 of Inl e \<Rightarrow> (Inl e, (c\<lparr>stdoutPTYName := buf\<rparr>, tr5)) | Inr (rc, buf2) \<Rightarrow>
          if rc \<noteq> 0 then fail ''Couldn't load name of stderr pty!'' (c\<lparr>stdoutPTYName := buf, stderrPTYName := buf2\<rparr>, tr5)
          else (Inr (), (c\<lparr>stdoutPTYName := buf, stderrPTYName := buf2\<rparr>, tr5))))"
    unfolding open_ptys_def prod.case tty Let_def syscall_def
    by (simp add: tn1 tn2 flip: r1_def tr2_def r2_def tr3_def split: sum.splits prod.splits)
  with assms tn1 tn2 q2 q3 q4 q5 show ?thesis
    by (auto simp: fail_def same_but_channels_def Let_def
        split: if_splits sum.splits dest!: ttyname_loop_stop)
qed

section \<open>Outcomes of a fork\<close>

lemma exec_child_not_Throw: "exec_child P n c env tr = (e, tr') \<Longrightarrow> e \<noteq> Throw x"
  by (auto simp: exec_child_def Let_def split: prod.splits sum.splits if_splits dest!: dup2_loop_stop)

lemma open_channels_outcome:
  assumes "open_channels P n (c, tr) = (res, (c', tr'))"
  shows "same_but_channels c c' \<and> quiet_ext tr tr' \<and>
    (\<forall>e. res = Inl e \<longrightarrow> e = No_fuel \<or> (\<exists>msg. e = Throw (ChildProcessException msg)))"
  using assms open_pipes_outcome [of P c tr res c' tr'] open_ptys_outcome [of P n c tr res c' tr']
  by (cases "want_tty c") (auto simp: open_channels_def)

lemma handle_env_cong:
  assumes "username c' = username c" and "allowed_env_vars c' = allowed_env_vars c"
    and "env_extra_vars c' = env_extra_vars c" and "want_default_env c' = want_default_env c"
  shows "handle_env P c' = handle_env P c"
  unfolding handle_env_def env_vars_def assms ..

text \<open>
  The parent's side succeeded: the process was ready, the channels were opened, the environment
  could be computed, and the reply of the kernel is recorded as the process id.
\<close>

lemma do_fork_Inr:
  assumes "do_fork P n (c, reg, tr) = (Inr (), (c', reg', tr'))"
  obtains c1 tr1 environment r where
    "state c = READY" and "open_channels P n (c, tr) = (Inr (), (c1, tr1))"
    and "handle_env P c = Inr environment" and "r = os P tr1 Sys_fork" and "ret r \<noteq> 0"
    and "c' = c1\<lparr>primaryPid := ret r, state := RUNNING\<rparr>"
    and "reg' = omap_insert (ret r) (graph_id c) reg"
    and "quiet_ext ((Sys_fork, r) # tr1) tr'"
proof -
  from assms obtain c1 tr1 where op: "open_channels P n (c, tr) = (Inr (), (c1, tr1))" and rd: "state c = READY"
    by (auto simp: do_fork_def fail_def split: if_splits prod.splits sum.splits)
  have ch: "same_but_channels c c1" using open_channels_outcome [OF op] by simp
  have env: "handle_env P c1 = handle_env P c"
    by (rule handle_env_cong) (simp_all add: same_but_channels_fields [OF ch])
  from assms op rd obtain environment where e1: "handle_env P c1 = Inr environment"
    by (auto simp: do_fork_def split: sum.splits)
  have step: "c' = c1\<lparr>primaryPid := ret (os P tr1 Sys_fork), state := RUNNING\<rparr> \<and>
      reg' = omap_insert (ret (os P tr1 Sys_fork)) (graph_id c1) reg \<and>
      quiet_ext ((Sys_fork, os P tr1 Sys_fork) # tr1) tr' \<and> ret (os P tr1 Sys_fork) \<noteq> 0"
    using assms rd
    by (auto simp: do_fork_def op e1 Let_def syscall_def quiet_rules split: if_splits prod.splits)
  show thesis
    using step e1 env same_but_channels_fields(7) [OF ch] by (intro that [OF rd op]) auto
qed

text \<open>
  An exception leaves the registry alone and the process ready, with at most its channels opened;
  in particular no process has been forked.
\<close>

lemma do_fork_Throw:
  assumes "do_fork P n (c, reg, tr) = (Inl (Throw e), (c', reg', tr'))"
  shows "reg' = reg \<and> same_but_channels c c' \<and> quiet_ext tr tr'"
proof (cases "state c = READY")
  case False
  with assms show ?thesis by (auto simp: do_fork_def fail_def)
next
  case True
  obtain res c1 tr1 where op: "open_channels P n (c, tr) = (res, (c1, tr1))"
    by (metis prod.exhaust)
  from open_channels_outcome [OF op] assms True op show ?thesis
    by (auto simp: do_fork_def Let_def syscall_def split: sum.splits if_splits prod.splits
        dest: exec_child_not_Throw)
qed

lemma register_with_epoll_outcome:
  assumes "register_with_epoll P epfd c (m, types, tr) = (res, (m', types', tr'))"
  shows "quiet_ext tr tr' \<and> (\<forall>e. res = Inl e \<longrightarrow> (\<exists>msg. e = Throw (ChildProcessException msg)))"
  using assms
  by (auto simp: register_with_epoll_def syscall_def Let_def fail_def quiet_rules split: if_splits)

section \<open>Executing the program\<close>

lemma quiet_no_exec: "quiet_ext tr (es @ tr) \<Longrightarrow> (Sys_execvpe p av env, r) \<notin> set es"
  by (auto simp: quiet_ext_def quiet_call_def)

lemma exec_child_outcome:
  assumes "exec_child P n c env tr = (e, tr')"
  shows "quiet_ext tr tr' \<or>
    (\<exists>tr1 r. tr' = (Sys_execvpe (c_string (path c)) (argv c) (map c_string env), r) # tr1 \<and> quiet_ext tr tr1 \<and> dropped_to c tr tr1)"
proof -
  obtain r1 tr1 where d1: "dup2_loop P n (snd (stdout c)) 1 tr = (r1, tr1)" by fastforce
  obtain r2 tr2 where d2: "dup2_loop P n (snd (stderr c)) 2 tr1 = (r2, tr2)" by fastforce
  define tr3 where "tr3 = snd (syscall P (Sys_close (snd (stderr c))) (snd (syscall P (Sys_close (snd (stdout c))) tr2)))"
  obtain ok tr4 where hc: "handle_caps P c tr3 = (ok, tr4)" by fastforce
  have q1: "quiet_ext tr tr1" using dup2_loop_quiet [of tr tr P n "snd (stdout c)" 1] d1 by simp
  have q2: "quiet_ext tr tr2" using dup2_loop_quiet [OF q1, of P n "snd (stderr c)" 2] d2 by simp
  have q3: "quiet_ext tr tr3" using q2 by (simp add: tr3_def quiet_rules)
  have q4: "quiet_ext tr tr4" by (rule hcaps.quiet_from [OF q3 hc])
  have "all_passed tr tr1" using dup2_loop_passed [of tr tr P n "snd (stdout c)" 1] d1 by simp
  then have "all_passed tr tr2" using dup2_loop_passed [of tr tr1 P n "snd (stderr c)" 2] d2 by simp
  then have p3: "all_passed tr tr3" by (simp add: tr3_def passed_rules)
  have drop: "dropped_to c tr tr4" if ok
    using dropped_to_since [OF handle_caps_True [of P c tr3 tr4] p3] that hc by simp
  show ?thesis
    using assms d1 d2 q1 q2 q4 hc drop
    by (auto simp: exec_child_def Let_def syscall_def tr3_def split: sum.splits if_splits)
qed

lemma dropped_to_cong:
  "capabilities c' = capabilities c \<Longrightarrow> uid c' = uid c \<Longrightarrow> gid c' = gid c \<Longrightarrow> dropped_to c' = dropped_to c"
  by (simp add: dropped_to_def fun_eq_iff)

lemma do_fork_exec:
  assumes "do_fork P n (c, reg, tr) = (res, (c', reg', tr'))"
  shows "quiet_ext tr tr' \<or> (\<exists>tr1 r environment. handle_env P c = Inr environment \<and> quiet_ext tr tr1 \<and>
     (quiet_ext ((Sys_fork, r) # tr1) tr' \<or>
      (ret r = 0 \<and> (\<exists>tr2 r2. tr' = (Sys_execvpe (c_string (path c)) (argv c) (map c_string environment), r2) # tr2 \<and>
         quiet_ext ((Sys_fork, r) # tr1) tr2 \<and> dropped_to c ((Sys_fork, r) # tr1) tr2))))"
proof (cases "state c = READY")
  case False
  with assms show ?thesis by (auto simp: do_fork_def fail_def)
next
  case rd: True
  obtain res1 c1 tr1 where op: "open_channels P n (c, tr) = (res1, (c1, tr1))"
    by (metis prod.exhaust)
  have ch: "same_but_channels c c1" and q1: "quiet_ext tr tr1" using open_channels_outcome [OF op] by simp_all
  have env: "handle_env P c1 = handle_env P c"
    by (rule handle_env_cong) (simp_all add: same_but_channels_fields [OF ch])
  show ?thesis
  proof (cases "\<exists>environment. res1 = Inr () \<and> handle_env P c = Inr environment")
    case False
    then have "tr' = tr1" using assms rd op env
      by (auto simp: do_fork_def split: sum.splits)
    with q1 show ?thesis by simp
  next
    case True
    then obtain environment where e: "res1 = Inr ()" "handle_env P c = Inr environment" by blast
    let ?r = "os P tr1 Sys_fork" and ?tr1 = "(Sys_fork, os P tr1 Sys_fork) # tr1"
    let ?c = "c1\<lparr>primaryPid := ret ?r\<rparr>"
    show ?thesis
    proof (cases "ret ?r = 0")
      case False
      then have "quiet_ext ?tr1 tr'" using assms rd op e env
        by (auto simp: do_fork_def Let_def syscall_def quiet_rules)
      with e(2) q1 show ?thesis by blast
    next
      case True
      obtain st tr2 where ex: "exec_child P n ?c environment ?tr1 = (st, tr2)" by fastforce
      have "tr' = tr2" using assms rd op e env True ex
        by (auto simp: do_fork_def Let_def syscall_def)
      moreover have "dropped_to ?c tr0 = dropped_to c tr0" "path ?c = path c" "argv ?c = argv c" for tr0
        using dropped_to_cong [of ?c c] by (simp_all add: argv_def same_but_channels_fields [OF ch])
      ultimately show ?thesis using exec_child_outcome [OF ex] e(2) q1 True by metis
    qed
  qed
qed

lemma ttyname_loop_calls:
  "ttyname_loop P n fd buf tr = (res, tr') \<Longrightarrow> \<exists>es. tr' = es @ tr \<and> (\<forall>(call, r)\<in>set es. \<exists>k. call = Sys_ttyname_r fd k)"
proof (induction P n fd buf tr rule: ttyname_loop.induct)
  case (2 P n fd buf tr)
  let ?e = "(Sys_ttyname_r fd (capacity buf), os P tr (Sys_ttyname_r fd (capacity buf)))"
  show ?case
  proof (cases "ret (snd ?e) = ERANGE")
    case True
    with "2.prems" have "ttyname_loop P n fd (reserve (capacity buf * 2 + 1) buf) (?e # tr) = (res, tr')"
      by (simp add: syscall_def Let_def)
    with "2.IH" True have "\<exists>es. tr' = es @ ?e # tr \<and> (\<forall>(call, r)\<in>set es. \<exists>k. call = Sys_ttyname_r fd k)"
      by (simp add: syscall_def)
    then obtain es where "tr' = es @ ?e # tr" "\<forall>(call, r)\<in>set es. \<exists>k. call = Sys_ttyname_r fd k" by blast
    then show ?thesis by (intro exI [of _ "es @ [?e]"]) auto
  next
    case False
    with "2.prems" have "tr' = [?e] @ tr" by (simp add: syscall_def Let_def)
    then show ?thesis by (intro exI [of _ "[?e]"]) auto
  qed
qed simp

lemma open_ptys_Inr:
  assumes "open_ptys P n (c, tr) = (Inr (), (c', tr'))"
  obtains tr1 tr2 buf buf2 v v2 where "tty_properties P tr = (fst (tty_properties P tr), tr1)"
    and "ttyname_loop P n (snd (stdout c')) v2 tr2 = (Inr (0, buf2), tr')"
    and "ttyname_loop P n (snd (stdout c')) v (snd (syscall P (Sys_openpty (fst (fst (tty_properties P tr))) (snd (fst (tty_properties P tr))))
      (snd (syscall P (Sys_openpty (fst (fst (tty_properties P tr))) (snd (fst (tty_properties P tr)))) tr1)))) = (Inr (0, buf), tr2)"
    and "c_str (stdoutPTYName c') = c_str buf" and "c_str (stderrPTYName c') = c_str buf2"
  using assms
  by (auto simp: open_ptys_def Let_def syscall_def fail_def split: prod.splits sum.splits if_splits)

lemma ttyname_loop_fuel:
  assumes big: "\<And>tr k. N \<le> k \<Longrightarrow> ret (os P tr (Sys_ttyname_r fd k)) \<noteq> ERANGE"
  shows "N < (capacity buf + 1) * 2 ^ n \<Longrightarrow> \<exists>rc buf' tr'. ttyname_loop P (Suc n) fd buf tr = (Inr (rc, buf'), tr')"
proof (induction n arbitrary: buf tr)
  case 0
  then have "ret (os P tr (Sys_ttyname_r fd (capacity buf))) \<noteq> ERANGE" by (intro big) simp
  then show ?case by (simp add: syscall_def Let_def)
next
  case (Suc n)
  show ?case
  proof (cases "ret (os P tr (Sys_ttyname_r fd (capacity buf))) = ERANGE")
    case True
    let ?buf = "reserve (capacity buf * 2 + 1) buf"
    have "N < (capacity ?buf + 1) * 2 ^ n" using Suc.prems by (simp add: reserve_def algebra_simps)
    from Suc.IH [OF this] True show ?thesis
      by (subst ttyname_loop.simps) (simp add: syscall_def Let_def del: ttyname_loop.simps)
  next
    case False
    then show ?thesis by (subst ttyname_loop.simps) (simp add: syscall_def Let_def del: ttyname_loop.simps)
  qed
qed

text \<open>Where in the trace of \<open>do_fork\<close> an execution stands.\<close>

lemma do_fork_exec_last:
  assumes "do_fork P n (c, reg, tr) = (res, (c', reg', newer @ (Sys_execvpe program av envp, r) # older @ tr))"
  obtains environment after_fork rf before_fork where "newer = []" and "program = c_string (path c)" and "av = argv c"
    and "handle_env P c = Inr environment" and "envp = map c_string environment"
    and "older = after_fork @ (Sys_fork, rf) # before_fork" and "ret rf = 0"
    and "dropped_to c ((Sys_fork, rf) # before_fork @ tr) (older @ tr)"
proof -
  let ?x = "(Sys_execvpe program av envp, r)"
  let ?es = "newer @ ?x # older"
  have quiet: "quiet_ext t (fs @ t) \<Longrightarrow> ?x \<notin> set fs" for t fs by (rule quiet_no_exec)
  from do_fork_exec [OF assms] consider
      "quiet_ext tr (?es @ tr)"
    | (parent) tr1 rf where "quiet_ext tr tr1" "quiet_ext ((Sys_fork, rf) # tr1) (?es @ tr)"
    | (child) tr1 rf environment tr2 r2 where "quiet_ext tr tr1" "ret rf = 0" "handle_env P c = Inr environment"
        "?es @ tr = (Sys_execvpe (c_string (path c)) (argv c) (map c_string environment), r2) # tr2"
        "quiet_ext ((Sys_fork, rf) # tr1) tr2" "dropped_to c ((Sys_fork, rf) # tr1) tr2"
    by auto
  then show thesis
  proof cases
    case 1
    then show thesis using quiet [of tr ?es] by simp
  next
    case parent
    then obtain e1 e2 where e1: "tr1 = e1 @ tr" and e2: "?es @ tr = e2 @ (Sys_fork, rf) # tr1"
      by (auto simp: quiet_ext_def)
    then have "?es = e2 @ (Sys_fork, rf) # e1" by simp
    moreover have "?x \<notin> set e1" "?x \<notin> set e2" using quiet parent e1 e2 by metis+
    moreover have "?x \<in> set ?es" by simp
    ultimately show thesis by auto
  next
    case child
    then obtain e1 e2 where e1: "tr1 = e1 @ tr" and e2: "tr2 = e2 @ (Sys_fork, rf) # tr1"
      by (auto simp: quiet_ext_def)
    then have es: "?es = (Sys_execvpe (c_string (path c)) (argv c) (map c_string environment), r2) # e2 @ (Sys_fork, rf) # e1"
      using child(4) by simp
    have no: "?x \<notin> set e1" "?x \<notin> set e2" using quiet child(1,5) e1 e2 by metis+
    have "newer = []"
    proof (rule ccontr)
      assume "newer \<noteq> []"
      with es obtain rest where "rest @ ?x # older = e2 @ (Sys_fork, rf) # e1" by (cases newer) auto
      then have "?x \<in> set (e2 @ (Sys_fork, rf) # e1)" by (metis in_set_conv_decomp)
      with no show False by auto
    qed
    with es have "program = c_string (path c)" "av = argv c" "envp = map c_string environment"
        "older = e2 @ (Sys_fork, rf) # e1" by auto
    with child e1 e2 \<open>newer = []\<close> show thesis by (intro that [of environment e2 rf e1]) simp_all
  qed
qed

section \<open>Properties\<close>

text \<open>For the examples: descriptors 3 to 6, and replies that are a function of the call alone.\<close>

definition plain_kernel :: "int \<Rightarrow> oscall \<Rightarrow> reply" where
  "plain_kernel pid call =
     (case call of
        Sys_fork \<Rightarrow> ok_reply\<lparr>ret := pid\<rparr>
      | Sys_pipe \<Rightarrow> ok_reply\<lparr>fds := (3, 4)\<rparr>
      | Sys_openpty a w \<Rightarrow> ok_reply\<lparr>fds := (3, 4)\<rparr>
      | Sys_ttyname_r fd k \<Rightarrow> ok_reply\<lparr>out_text := ''/dev/pts/4''\<rparr>
      | Log_get nm \<Rightarrow> ok_reply\<lparr>ret := 1\<rparr>
      | _ \<Rightarrow> ok_reply)"

definition plain_platform :: "int \<Rightarrow> platform" where
  "plain_platform pid = example_platform (\<lambda>tr. plain_kernel pid) [''TERM=vt100'']"

definition ready_child :: child where
  "ready_child = (example_child ''web'' 1)\<lparr>state := READY\<rparr>"

text \<open>
  C5. Whatever happens in \<open>do_fork\<close>, and whatever the kernel replies: if a program is executed, this is the last call; it is
  the configured path with the configured arguments and the computed environment (each read up to its first zero byte),
  in a process in which \<open>fork\<close> returned 0. Since that \<open>fork\<close> all calls that the code checks have succeeded, and in this order
  the group was set, the user was set, the clearing of the ambient set was requested (the code does not look at the
  reply), and the capability sets were set to the configured ones.
\<close>

theorem exec_only_after_drop:
  assumes "do_fork P n (c, reg, tr) = (res, (c', reg', newer @ (Sys_execvpe program av envp, r) # older @ tr))"
  shows "newer = [] \<and> program = c_string (path c) \<and> av = map c_string (path c # args c) \<and>
    (\<exists>environment. handle_env P c = Inr environment \<and> envp = map c_string environment) \<and>
    (\<exists>rf before_fork after_fork. older = after_fork @ (Sys_fork, rf) # before_fork \<and> ret rf = 0 \<and>
      (\<forall>(call, r)\<in>set after_fork. passed call r) \<and>
      (\<exists>h. since ((Sys_fork, rf) # before_fork @ tr)
        [\<lambda>call r. call = Sys_cap_set_proc h \<and> ret r = 0,
         \<lambda>call r. call = Sys_cap_from_text (c_string (concat (map cap_clause (capabilities c)))) \<and> ret r = h,
         \<lambda>call r. call = Sys_prctl_ambient_clear_all,
         \<lambda>call r. call = Sys_setuid (uid c) \<and> ret r \<noteq> -1,
         \<lambda>call r. call = Sys_setgid (gid c) \<and> ret r \<noteq> -1] (older @ tr)))"
proof -
  from assms obtain environment e2 rf e1 where x: "newer = []" "program = c_string (path c)" "av = argv c"
      "handle_env P c = Inr environment" "envp = map c_string environment" "older = e2 @ (Sys_fork, rf) # e1" "ret rf = 0"
    and d: "dropped_to c ((Sys_fork, rf) # e1 @ tr) (older @ tr)" by (rule do_fork_exec_last)
  from d have "\<forall>(call, r)\<in>set e2. passed call r" by (auto simp: dropped_to_def all_passed_def x(6))
  with x d show ?thesis
    unfolding dropped_to_def argv_def
    by (intro conjI exI [of _ rf] exI [of _ e1] exI [of _ e2] exI [of _ environment]) simp_all
qed

definition example_fork :: "unit res \<times> child \<times> (int, u32) omap \<times> trace" where
  "example_fork = do_fork (plain_platform 0) 1 (ready_child, [], [])"

theorem exec_only_after_drop_witness:
  "\<exists>rf before_fork after_fork. tl (snd (snd (snd example_fork))) = after_fork @ (Sys_fork, rf) # before_fork \<and> ret rf = 0"
proof -
  let ?tr = "snd (snd (snd example_fork))"
  have "hd ?tr = (Sys_execvpe ''/bin/x'' [''/bin/x'', ''-v''] [''TERM=vt100'', ''USER=app''], ok_reply)"
    and "?tr \<noteq> []" by code_simp+
  then have "?tr = [] @ (Sys_execvpe ''/bin/x'' [''/bin/x'', ''-v''] [''TERM=vt100'', ''USER=app''], ok_reply) # tl ?tr @ []"
    by (metis append_Nil append_Nil2 list.collapse)
  then have "do_fork (plain_platform 0) 1 (ready_child, [], []) =
    (fst example_fork, fst (snd example_fork), fst (snd (snd example_fork)),
     [] @ (Sys_execvpe ''/bin/x'' [''/bin/x'', ''-v''] [''TERM=vt100'', ''USER=app''], ok_reply) # tl ?tr @ [])"
    by (metis example_fork_def prod.collapse)
  from exec_only_after_drop [OF this] show ?thesis by blast
qed

text \<open>
  C17. If \<open>do_fork\<close> throws, no process was forked, the table of process ids is unchanged and the object is in
  the state it was in, so it can be started again.
\<close>

theorem do_fork_exception_safe:
  assumes "do_fork P n (c, reg, tr) = (Inl (Throw e), (c', reg', tr'))"
  shows "state c' = state c \<and> reg' = reg \<and> (\<exists>es. tr' = es @ tr \<and> Sys_fork \<notin> fst ` set es)"
  using do_fork_Throw [OF assms] same_but_channels_fields(10) [of c c']
  by (force simp: quiet_ext_def quiet_call_def)

definition broken_platform :: platform where
  "broken_platform = (plain_platform 1)\<lparr>os := \<lambda>tr call. ok_reply\<lparr>ret := -1\<rparr>\<rparr>"

theorem do_fork_exception_safe_witness:
  "\<exists>e c' reg' tr'. do_fork broken_platform 0 (ready_child, [(7, 3)], []) = (Inl (Throw e), (c', reg', tr')) \<and>
     state c' = READY \<and> reg' = [(7, 3)] \<and> Sys_fork \<notin> fst ` set tr'"
proof -
  have run: "do_fork broken_platform 0 (ready_child, [(7, 3)], []) =
    (Inl (Throw (ChildProcessException ''Couldn't create stdout pipe!'')), (ready_child, [(7, 3)], [(Sys_pipe, ok_reply\<lparr>ret := -1\<rparr>)]))"
    by (simp add: do_fork_def open_channels_def open_pipes_def ready_child_def example_child_def syscall_def fail_def
        broken_platform_def)
  from do_fork_exception_safe [OF this] run show ?thesis by (auto simp: ready_child_def)
qed

text \<open>
  The result of \<open>fork\<close> is not checked: when it fails, the object counts as running with the process id -1,
  and -1 is entered in the table of process ids.
\<close>

theorem failed_fork_counts_as_running:
  assumes "state c = READY" and "open_channels P n (c, tr) = (Inr (), (c1, tr1))"
    and "handle_env P c = Inr environment" and "ret (os P tr1 Sys_fork) = -1"
  shows "\<exists>c' tr'. do_fork P n (c, reg, tr) = (Inr (), (c', omap_insert (-1) (graph_id c) reg, tr')) \<and>
    state c' = RUNNING \<and> primaryPid c' = -1"
proof -
  have ch: "same_but_channels c c1" using open_channels_outcome [OF assms(2)] by simp
  have "handle_env P c1 = handle_env P c"
    by (rule handle_env_cong) (simp_all add: same_but_channels_fields [OF ch])
  with assms show ?thesis
    by (simp add: do_fork_def Let_def syscall_def same_but_channels_fields [OF ch])
qed

theorem failed_fork_counts_as_running_witness:
  "\<exists>c' tr'. do_fork (plain_platform (-1)) 0 (ready_child, [], []) = (Inr (), (c', omap_insert (-1) (graph_id ready_child) [], tr')) \<and>
    state c' = RUNNING \<and> primaryPid c' = -1"
proof (rule failed_fork_counts_as_running)
  show "state ready_child = READY" by (simp add: ready_child_def)
  show "open_channels (plain_platform (-1)) 0 (ready_child, []) =
      (Inr (), (ready_child\<lparr>stdout := (3, 4), stderr := (3, 4)\<rparr>, snd (snd (open_channels (plain_platform (-1)) 0 (ready_child, [])))))"
    by (simp add: open_channels_def open_pipes_def ready_child_def example_child_def syscall_def Let_def
        plain_platform_def plain_kernel_def ok_reply_def)
  show "handle_env (plain_platform (-1)) ready_child = Inr [''TERM=vt100'', ''USER=app'']"
    by code_simp
qed (simp add: plain_platform_def plain_kernel_def)

text \<open>
  C30. The loop around \<open>ttyname_r\<close> ends: the buffer doubles, so if a buffer of \<open>N\<close> bytes is large enough for the
  name, about \<open>log\<^sub>2 (N / capacity)\<close> retries suffice.
\<close>

theorem ttyname_loop_terminates:
  assumes "\<And>tr k. N \<le> k \<Longrightarrow> ret (os P tr (Sys_ttyname_r fd k)) \<noteq> ERANGE"
    and "N < (capacity buf + 1) * 2 ^ n"
  shows "\<exists>rc buf' tr'. ttyname_loop P (Suc n) fd buf tr = (Inr (rc, buf'), tr')"
  using assms by (rule ttyname_loop_fuel)

theorem ttyname_loop_terminates_witness:
  "\<exists>rc buf' tr'. ttyname_loop ((plain_platform 1)\<lparr>os := \<lambda>tr call. case call of
       Sys_ttyname_r fd k \<Rightarrow> if k < 200 then ok_reply\<lparr>ret := ERANGE\<rparr> else ok_reply | _ \<Rightarrow> ok_reply\<rparr>)
     (Suc 2) 4 \<lparr>c_str = [], capacity = 64\<rparr> [] = (Inr (rc, buf'), tr')"
  by (rule ttyname_loop_terminates [where N = 200]) (simp_all add: ok_reply_def ERANGE_def)

text \<open>
  The attributes of a child's terminal are those of the terminal of scinit with exactly the flags of
  \<open>BRKINT\<close>, \<open>ISTRIP\<close>, \<open>INPCK\<close>, \<open>ICRNL\<close>, \<open>IXON\<close>; \<open>OPOST\<close>; \<open>ISIG\<close>, \<open>ICANON\<close>, \<open>ECHO\<close> and \<open>IEXTEN\<close> cleared.
\<close>

theorem raw_mode_bits:
  "(bit (c_iflag (raw_mode t)) k \<longleftrightarrow> bit (c_iflag t) k \<and> k \<notin> {1, 4, 5, 8, 10}) \<and>
   (bit (c_oflag (raw_mode t)) k \<longleftrightarrow> bit (c_oflag t) k \<and> k \<noteq> 0) \<and>
   (bit (c_lflag (raw_mode t)) k \<longleftrightarrow> bit (c_lflag t) k \<and> k \<notin> {0, 1, 3, 15})"
proof -
  have i: "raw_iflag = push_bit 1 1 OR push_bit 8 1 OR push_bit 4 1 OR push_bit 5 1 OR push_bit 10 1"
    and l: "raw_lflag = push_bit 3 1 OR push_bit 1 1 OR push_bit 15 1 OR 1"
    by (simp_all add: raw_iflag_def raw_lflag_def push_bit_eq_mult)
  have small: "bit w k \<Longrightarrow> k < 32" for w :: u32
    using bit_imp_le_length [of w k] by simp
  have bi: "k < 32 \<Longrightarrow> bit raw_iflag k \<longleftrightarrow> k \<in> {1, 4, 5, 8, 10}"
    by (simp only: i bit_or_iff bit_push_bit_iff bit_1_iff) auto
  have bl: "k < 32 \<Longrightarrow> bit raw_lflag k \<longleftrightarrow> k \<in> {0, 1, 3, 15}"
    by (simp only: l bit_or_iff bit_push_bit_iff bit_1_iff) auto
  have bo: "bit raw_oflag k \<longleftrightarrow> k = 0"
    by (auto simp: raw_oflag_def bit_1_iff)
  show ?thesis
    using small [of "c_iflag t"] small [of "c_oflag t"] small [of "c_lflag t"] bi bl bo
    by (auto simp: raw_mode_def bit_and_iff bit_not_iff)
qed

text \<open>
  When a terminal is wanted, both names are asked for with the descriptor of the terminal for the standard
  output: the name kept for the standard error is the name of the terminal for the standard output.
\<close>

theorem stderr_name_is_stdout_terminal:
  assumes "open_ptys P n (c, tr) = (Inr (), (c', es @ tr))" and "(Sys_ttyname_r fd k, r) \<in> set es"
  shows "fd = snd (stdout c')"
proof -
  let ?open = "Sys_openpty (fst (fst (tty_properties P tr))) (snd (fst (tty_properties P tr)))"
  from open_ptys_Inr [OF assms(1)] obtain tr1 tr2 buf buf2 v v2 where
    t1: "tty_properties P tr = (fst (tty_properties P tr), tr1)" and
    t2: "ttyname_loop P n (snd (stdout c')) v2 tr2 = (Inr (0, buf2), es @ tr)" and
    t3: "ttyname_loop P n (snd (stdout c')) v (snd (syscall P ?open (snd (syscall P ?open tr1)))) = (Inr (0, buf), tr2)"
    by metis
  from ttyname_loop_calls [OF t2] obtain e2 where
    e2: "es @ tr = e2 @ tr2" "\<forall>(call, r)\<in>set e2. \<exists>k. call = Sys_ttyname_r (snd (stdout c')) k" by blast
  from ttyname_loop_calls [OF t3] obtain e1 r1 r2 where
    e1: "tr2 = e1 @ (?open, r2) # (?open, r1) # tr1" "\<forall>(call, r)\<in>set e1. \<exists>k. call = Sys_ttyname_r (snd (stdout c')) k"
    by (auto simp: syscall_def)
  from t1 obtain e0 where e0: "tr1 = e0 @ tr" "\<forall>(call, r)\<in>set e0. \<forall>fd k. call \<noteq> Sys_ttyname_r fd k"
    by (auto simp: tty_properties_def syscall_def Let_def split: if_splits)
  have "es = e2 @ e1 @ (?open, r2) # (?open, r1) # e0" using e2(1) e1(1) e0(1) by simp
  with e0(2) e1(2) e2(2) assms(2) show ?thesis by auto
qed

definition example_ptys :: "unit res \<times> child \<times> trace" where
  "example_ptys = open_ptys (plain_platform 1) 1 (ready_child, [])"

theorem stderr_name_is_stdout_terminal_witness: "snd (stdout (fst (snd example_ptys))) = 4"
proof -
  have "hd (snd (snd example_ptys)) = (Sys_ttyname_r 4 64, ok_reply\<lparr>out_text := ''/dev/pts/4''\<rparr>)"
    and "snd (snd example_ptys) \<noteq> []" and "isl (fst example_ptys) = False" by code_simp+
  then have "(Sys_ttyname_r 4 64, ok_reply\<lparr>out_text := ''/dev/pts/4''\<rparr>) \<in> set (snd (snd example_ptys))"
    and "fst example_ptys = Inr ()"
    by (metis hd_in_set, cases "fst example_ptys") auto
  moreover from this(2) have "open_ptys (plain_platform 1) 1 (ready_child, []) =
      (Inr (), (fst (snd example_ptys), snd (snd example_ptys) @ []))"
    by (metis append_Nil2 example_ptys_def prod.collapse)
  ultimately show ?thesis using stderr_name_is_stdout_terminal by metis
qed

text \<open>
  On success of \<open>register_with_epoll\<close> both descriptors lead to the object and have their type, and all other
  entries of both tables are as before; on failure both tables are as before.
\<close>

theorem register_with_epoll_tables:
  assumes "register_with_epoll P epfd c (m, types, tr) = (res, (m', types', tr'))"
  shows "case res of
      Inr _ \<Rightarrow>
        omap_find m' fd = (if fd = fst (stdout c) \<or> fd = fst (stderr c) then Some (graph_id c) else omap_find m fd) \<and>
        omap_find types' fd = (if fd = fst (stderr c) then Some STDERR
          else if fd = fst (stdout c) then Some STDOUT else omap_find types fd)
    | Inl e \<Rightarrow> m' = m \<and> types' = types"
  using assms by (auto simp: register_with_epoll_def syscall_def Let_def fail_def split: if_splits)

theorem register_with_epoll_tables_witness:
  "omap_find [(3 :: int, 1 :: u32), (5, 1)] 5 = Some 1"
  using register_with_epoll_tables [of "plain_platform 1" 9 "ready_child\<lparr>stdout := (3, 4), stderr := (5, 6)\<rparr>" "[]" "[]" "[]"
     "Inr ()" "[(3, 1), (5, 1)]" "[(3, STDOUT), (5, STDERR)]"
     "snd (snd (snd (register_with_epoll (plain_platform 1) 9 (ready_child\<lparr>stdout := (3, 4), stderr := (5, 6)\<rparr>) ([], [], []))))" 5]
  by (simp add: register_with_epoll_def plain_platform_def plain_kernel_def syscall_def Let_def ready_child_def example_child_def
      ok_reply_def)

end
