(* ===== verification/Process_Handler.thy ===== *)
theory Process_Handler
  imports Child_Fork
begin

text \<open>
  \<open>ProcessHandler\<close>: the tables that connect process ids, file descriptors and object ids, the
  registration of objects and event handlers, the reaction to signals, to the exit of children
  and to their output, and the start of processes that are ready.

  The state holds the members of the handler, the store of objects (with the next unused
  address), and the trace of calls. The only event handlers that the program connects are bound
  member functions \<open>ChildProcess::handle_process_event\<close>, so a slot is the address of its object.
\<close>

section \<open>State\<close>

record sys =
  sig_for_id :: "(int, ref list) omap"
  obj_for_id :: "(u32, weak) omap"
  id_for_pid :: "(int, u32) omap"
  id_for_fd :: "(int, u32) omap"
  num_fd_for_id :: "(u32, u32) omap"
  fd_type :: "(int, FDType) omap"
  all_objs :: "weak list"
  epoll_fd :: int
  signal_fd :: int
  number_of_running_procs :: int
  should_quit :: bool
  objects :: store
  next_ref :: ref
  calls :: trace

definition ProcessHandler :: sys where
  "ProcessHandler =
     \<lparr>sig_for_id = [], obj_for_id = [], id_for_pid = [], id_for_fd = [], num_fd_for_id = [],
      fd_type = [], all_objs = [], epoll_fd = -1, signal_fd = -1, number_of_running_procs = 0,
      should_quit = False, objects = Map.empty, next_ref = 0, calls = []\<rparr>"

definition sys_call :: "platform \<Rightarrow> oscall \<Rightarrow> sys \<Rightarrow> reply \<times> sys" where
  "sys_call P c s = (os P (calls s) c, s\<lparr>calls := (c, os P (calls s) c) # calls s\<rparr>)"

definition throw_handler :: "sys \<Rightarrow> 'a res \<times> sys" where \<comment> \<open>\<open>throw ProcessHandlerException()\<close>\<close>
  "throw_handler s = (Inl (Throw (ProcessHandlerException [])), s)"

definition SIGINT :: u32 where "SIGINT = 2"
definition SIGQUIT :: u32 where "SIGQUIT = 3"
definition SIGTERM :: u32 where "SIGTERM = 15"
definition SIGCHLD :: u32 where "SIGCHLD = 17"

section \<open>Registration\<close>

definition register_for_process_state :: "int \<Rightarrow> ref \<Rightarrow> sys \<Rightarrow> sys" where
  "register_for_process_state i handler s =
     (let sigs = (if omap_find (sig_for_id s) i = None then omap_insert i [] (sig_for_id s) else sig_for_id s);
          slots = (case omap_find sigs i of Some sl \<Rightarrow> sl | None \<Rightarrow> [])
      in s\<lparr>sig_for_id := omap_insert i (slots @ [handler]) sigs\<rparr>)"

definition register_obj_id :: "int \<Rightarrow> weak \<Rightarrow> sys \<Rightarrow> sys" where
  "register_obj_id i obj s = s\<lparr>obj_for_id := omap_insert (word_of_int i) obj (obj_for_id s)\<rparr>"

text \<open>\<open>std::make_shared<ChildProcess>(...)\<close>: a new object, whose constructor registers it.\<close>

definition make_child :: "(trace \<Rightarrow> child \<times> trace) \<Rightarrow> sys \<Rightarrow> ref \<times> sys" where
  "make_child construct s =
     (let r = next_ref s;
          (c, tr) = construct (calls s);
          s = register_for_process_state (sint (graph_id c)) r s
      in (r, s\<lparr>objects := (objects s)(r \<mapsto> c), next_ref := Suc r, calls := tr\<rparr>))"

definition register_one :: "weak list \<Rightarrow> weak \<Rightarrow> store \<Rightarrow> store" where
  "register_one refs child h =
     (case lock h child of
        Some (r, c) \<Rightarrow> propagate_dependencies r refs h
      | None \<Rightarrow> h)"

definition register_processes :: "weak list \<Rightarrow> sys \<Rightarrow> sys" where
  "register_processes refs s =
     (let s = s\<lparr>all_objs := refs\<rparr> in s\<lparr>objects := fold (register_one refs) (all_objs s) (objects s)\<rparr>)"

section \<open>Signals\<close>

fun forward_signal :: "platform \<Rightarrow> u32 \<Rightarrow> (int, u32) omap \<Rightarrow> sys \<Rightarrow> sys" where
  "forward_signal P sig [] s = s"
| "forward_signal P sig (pair # rest) s =
     (let (_, s) = sys_call P (Sys_kill (fst pair) sig) s in forward_signal P sig rest s)"

definition signal_received :: "platform \<Rightarrow> u32 \<Rightarrow> sys \<Rightarrow> sys" where
  "signal_received P sig s =
     (if sig = SIGCHLD then s
      else
        let sig = (if sig = SIGINT then SIGTERM else sig);
            s = forward_signal P sig (id_for_pid s) s in
        if sig AND SIGTERM \<noteq> 0 \<or> sig AND SIGQUIT \<noteq> 0 then s\<lparr>should_quit := True\<rparr> else s)"

section \<open>Output of the children\<close>

definition handle_child_output :: "platform \<Rightarrow> int \<Rightarrow> string \<Rightarrow> sys \<Rightarrow> unit res \<times> sys" where
  "handle_child_output P fd str s =
     (case omap_find (id_for_fd s) fd of
        None \<Rightarrow> (Inl (Throw (Std_exception ''map::at'')), s)
      | Some i \<Rightarrow>
     (case omap_find (obj_for_id s) i of
        None \<Rightarrow> (Inl (Throw (Std_exception ''map::at'')), s)
      | Some w \<Rightarrow>
     (case lock (objects s) w of
        None \<Rightarrow> (Inr (), s)
      | Some (r, c) \<Rightarrow>
     (case omap_find (fd_type s) fd of
        None \<Rightarrow> (Inr (), s)
      | Some t \<Rightarrow>
          let (lg, s) = sys_call P (Log_get (get_name c)) s in
          if ret lg = 0 then (Inl (Undefined_behaviour ''null logger''), s) else
          (case t of
             STDOUT \<Rightarrow> (Inr (), snd (sys_call P (Log_info (get_name c) str) s))
           | STDERR \<Rightarrow> (Inr (), snd (sys_call P (Log_warn (get_name c) str) s)))))))"

text \<open>
  The buffer holds the bytes read, followed by zeros; it is given here by the bytes read. The two
  loops look for the first and for the last byte that is not a newline.
\<close>

definition BUF_SIZE :: nat where "BUF_SIZE = 4096"

function find_begin :: "string \<Rightarrow> nat \<Rightarrow> nat" where
  "find_begin buf i = (if i < length buf \<and> buf ! i = newline then find_begin buf (Suc i) else i)"
  by pat_completeness auto
termination by (relation "measure (\<lambda>(buf, i). length buf - i)") auto

function find_end :: "string \<Rightarrow> int \<Rightarrow> int \<Rightarrow> int" where
  "find_end buf b e = (if e > b \<and> buf ! nat e = newline then find_end buf b (e - 1) else e)"
  by pat_completeness auto
termination by (relation "measure (\<lambda>(buf, b, e). nat (e - b))") auto

declare find_begin.simps [simp del] find_end.simps [simp del]

definition substr_from :: "nat \<Rightarrow> string \<Rightarrow> exn + string" where
  "substr_from pos s = (if length s < pos then Inl (Std_exception ''basic_string::substr'') else Inr (drop pos s))"

definition strip_newlines :: "string \<Rightarrow> int \<Rightarrow> exn + string" where
  "strip_newlines buf nchars =
     (let str = takeWhile (\<lambda>c. c \<noteq> CHR 0x00) buf;
          begin = int (find_begin buf 0);
          e = find_end buf begin (nchars - 1)
      in case (if begin > 0 then substr_from (nat begin) str else Inr str) of
           Inl ex \<Rightarrow> Inl ex
         | Inr str \<Rightarrow>
             Inr (if e < nchars - 1 \<and> e \<ge> begin \<and> begin \<ge> 0 then take (nat (e - begin + 1)) str else str))"

section \<open>Events on file descriptors\<close>

definition sizeof_signalfd_siginfo :: nat where "sizeof_signalfd_siginfo = 128"

definition read_signal :: "platform \<Rightarrow> sys \<Rightarrow> unit res \<times> sys" where
  "read_signal P s =
     (let (r, s) = sys_call P (Sys_read (signal_fd s) sizeof_signalfd_siginfo) s in
      if ret r \<noteq> int sizeof_signalfd_siginfo then throw_handler s
      else (Inr (), signal_received P (word_of_int (out_num r)) s))"

definition read_output :: "platform \<Rightarrow> int \<Rightarrow> sys \<Rightarrow> unit res \<times> sys" where
  "read_output P fd s =
     (let (r, s) = sys_call P (Sys_read fd BUF_SIZE) s;
          nchars = ret r;
          buf = take (nat nchars) (out_text r @ replicate (nat nchars) (CHR 0x00)) in
      case strip_newlines buf nchars of
        Inl ex \<Rightarrow> (Inl (Throw ex), s)
      | Inr str \<Rightarrow> if str \<noteq> [] then handle_child_output P fd str s else (Inr (), s))"

definition hang_up :: "platform \<Rightarrow> int \<Rightarrow> sys \<Rightarrow> unit res \<times> sys" where
  "hang_up P fd s =
     (let (r, s) = sys_call P (Sys_epoll_ctl_del (epoll_fd s) fd) s in
      if ret r = -1 then throw_handler s else
      let (i, m) = omap_index 0 fd (id_for_fd s);
          s = s\<lparr>id_for_fd := omap_erase fd m, fd_type := omap_erase fd (fd_type s)\<rparr>;
          (n, nums) = omap_index 0 i (num_fd_for_id s);
          s = s\<lparr>num_fd_for_id := omap_insert i (n - 1) nums\<rparr> in
      if n - 1 = 0 then
        let (w, objs) = omap_index None i (obj_for_id s);
            s = s\<lparr>obj_for_id := objs\<rparr> in
        (case lock (objects s) w of Some _ \<Rightarrow> (Inr (), s) | None \<Rightarrow> throw_handler s)
      else (Inr (), s))"

definition event_received :: "platform \<Rightarrow> int \<Rightarrow> u32 \<Rightarrow> sys \<Rightarrow> unit res \<times> sys" where
  "event_received P fd event s =
     (if event AND EPOLLIN \<noteq> 0 then
        if fd = signal_fd s then read_signal P s else read_output P fd s
      else if event AND EPOLLHUP \<noteq> 0 then hang_up P fd s
      else throw_handler s)"

section \<open>Exit of a child\<close>

definition emit_to :: "ProcessEvent \<Rightarrow> int \<Rightarrow> ref \<Rightarrow> sys \<Rightarrow> unit res \<times> sys" where
  "emit_to e data r s =
     (case objects s r of
        None \<Rightarrow> (Inl (Undefined_behaviour ''event handler of a destroyed object''), s)
      | Some c \<Rightarrow> (Inr (), s\<lparr>objects := (objects s)(r \<mapsto> handle_process_event e data c)\<rparr>))"

definition sigchld_received :: "int \<Rightarrow> int \<Rightarrow> sys \<Rightarrow> unit res \<times> sys" where
  "sigchld_received pid rc s =
     (case omap_find (id_for_pid s) pid of
        None \<Rightarrow> (Inr (), s)
      | Some i \<Rightarrow>
          let s = s\<lparr>obj_for_id := snd (omap_index None i (obj_for_id s))\<rparr>;
              s = s\<lparr>number_of_running_procs := number_of_running_procs s - 1\<rparr> in
          (case omap_find (sig_for_id s) (sint i) of
             None \<Rightarrow> (Inl (Undefined_behaviour ''null signal''), s)
           | Some slots \<Rightarrow>
               andThen (for_each (emit_to EXIT rc) slots s) (\<lambda>_ s.
                 (Inr (), s\<lparr>id_for_pid := omap_erase pid (id_for_pid s)\<rparr>))))"

section \<open>Starting programs\<close>

definition notify_one :: "weak \<Rightarrow> sys \<Rightarrow> sys" where
  "notify_one child s =
     (case lock (objects s) child of
        Some (r, c) \<Rightarrow>
          s\<lparr>objects := (objects s)(r \<mapsto> notify_of_state (obj_for_id s) (objects s) c)\<rparr>
      | None \<Rightarrow> s)"

text \<open>The body of the \<open>try\<close> block.\<close>

definition try_start :: "platform \<Rightarrow> nat \<Rightarrow> ref \<Rightarrow> child \<Rightarrow> sys \<Rightarrow> unit res \<times> sys" where
  "try_start P n r c s =
     (let (lg, s) = sys_call P (Log_create (get_name c)) s in
      if ret lg \<noteq> 0 then (Inl (Throw (Std_exception (out_text lg))), s) else
      case do_fork P n (c, id_for_pid s, calls s) of (res, c, reg, tr) \<Rightarrow>
      let s = s\<lparr>objects := (objects s)(r \<mapsto> c), id_for_pid := reg, calls := tr\<rparr> in
      case res of Inl e \<Rightarrow> (Inl e, s) | Inr _ \<Rightarrow>
      case register_with_epoll P (epoll_fd s) c (id_for_fd s, fd_type s, calls s) of (res, m, types, tr) \<Rightarrow>
      let s = s\<lparr>id_for_fd := m, fd_type := types, calls := tr\<rparr> in
      case res of Inl e \<Rightarrow> (Inl e, s) | Inr _ \<Rightarrow>
      (Inr (), s\<lparr>num_fd_for_id := omap_insert (get_id c) 2 (num_fd_for_id s),
                 number_of_running_procs := number_of_running_procs s + 1\<rparr>))"

definition catch_std :: "unit res \<times> sys \<Rightarrow> unit res \<times> sys" where
  "catch_std m =
     (case m of
        (Inl (Throw e), s) \<Rightarrow> if caught_as_std_exception e then (Inr (), s) else m
      | _ \<Rightarrow> m)"

definition start_program :: "platform \<Rightarrow> nat \<Rightarrow> weak \<Rightarrow> sys \<Rightarrow> unit res \<times> sys" where
  "start_program P n weak_program s =
     (case lock (objects s) weak_program of
        Some (r, c) \<Rightarrow> if \<not> can_start_now c then (Inr (), s) else catch_std (try_start P n r c s)
      | None \<Rightarrow> (Inr (), s))"

definition start_programs :: "platform \<Rightarrow> nat \<Rightarrow> sys \<Rightarrow> unit res \<times> sys" where
  "start_programs P n s =
     (let s = fold notify_one (all_objs s) s in for_each (start_program P n) (all_objs s) s)"

section \<open>Stripping newlines\<close>

definition trim_newlines :: "string \<Rightarrow> string" where
  "trim_newlines s = rev (dropWhile (\<lambda>c. c = newline) (rev (dropWhile (\<lambda>c. c = newline) s)))"

lemma find_begin_spec: "i \<le> length buf \<Longrightarrow> find_begin buf i = i + length (takeWhile (\<lambda>c. c = newline) (drop i buf))"
proof (induction buf i rule: find_begin.induct)
  case (1 buf i)
  show ?case
  proof (cases "i < length buf \<and> buf ! i = newline")
    case True
    then have "drop i buf = newline # drop (Suc i) buf" by (metis Cons_nth_drop_Suc)
    with True 1 show ?thesis by (simp add: find_begin.simps [of buf i])
  next
    case False
    then show ?thesis
      by (cases "drop i buf") (auto simp: find_begin.simps [of buf i] hd_drop_conv_nth [symmetric] dest: drop_eq_Nil [THEN iffD2])
  qed
qed

lemma find_end_skip:
  "(\<And>j. m < j \<Longrightarrow> j \<le> m + k \<Longrightarrow> buf ! j = newline) \<Longrightarrow> b \<le> m \<Longrightarrow> b = m \<or> buf ! m \<noteq> newline \<Longrightarrow>
   find_end buf (int b) (int (m + k)) = int m"
proof (induction k)
  case 0
  then show ?case by (auto simp: find_end.simps [of buf "int b" "int m"])
next
  case (Suc k)
  have "buf ! (m + Suc k) = newline" using Suc.prems(1) [of "m + Suc k"] by simp
  moreover have "find_end buf (int b) (int (m + k)) = int m" using Suc by simp
  ultimately show ?case
    using \<open>b \<le> m\<close> by (subst find_end.simps) (simp add: nat_add_distrib nat_int_add)
qed

lemma leading_newlines: "\<exists>b rest. s = replicate b newline @ rest \<and> (rest = [] \<or> hd rest \<noteq> newline)"
proof (induction s)
  case (Cons c s)
  then obtain b rest where "s = replicate b newline @ rest" "rest = [] \<or> hd rest \<noteq> newline" by blast
  then show ?case
    by (cases "c = newline") (auto intro: exI [of _ "Suc b"] exI [of _ 0])
qed simp

lemma trim_split:
  obtains (blank) "buf = replicate (length buf) newline"
    | (inner) b core k where "buf = replicate b newline @ core @ replicate k newline"
        and "core \<noteq> []" and "hd core \<noteq> newline" and "last core \<noteq> newline"
proof -
  obtain b rest where b: "buf = replicate b newline @ rest" "rest = [] \<or> hd rest \<noteq> newline"
    using leading_newlines by blast
  obtain k bk where k: "rev rest = replicate k newline @ bk" "bk = [] \<or> hd bk \<noteq> newline"
    using leading_newlines by blast
  from k(1) have r: "rest = rev bk @ replicate k newline"
    by (metis rev_append rev_replicate rev_rev_ident)
  show thesis
  proof (cases "bk = []")
    case True
    then have "rest = replicate k newline" using r by simp
    with b have "rest = []" by (cases k) auto
    with b(1) show thesis by (intro blank) simp
  next
    case False
    have "hd (rev bk) \<noteq> newline" using b(2) r False by (simp add: hd_append)
    then show thesis using b(1) r False k(2) by (intro inner [of b "rev bk" k]) (simp_all add: last_rev)
  qed
qed

lemma trim_replicate:
  assumes "core \<noteq> []" and "hd core \<noteq> newline" and "last core \<noteq> newline"
  shows "trim_newlines (replicate b newline @ core @ replicate k newline) = core"
proof -
  have skip: "dropWhile (\<lambda>c. c = newline) (replicate n newline @ xs) = dropWhile (\<lambda>c. c = newline) xs" for n xs
    by (induction n) auto
  have keep: "dropWhile (\<lambda>c. c = newline) xs = xs" if "xs \<noteq> []" "hd xs \<noteq> newline" for xs
    using that by (cases xs) auto
  have "dropWhile (\<lambda>c. c = newline) (replicate b newline @ core @ replicate k newline) = core @ replicate k newline"
    using assms by (simp add: skip keep)
  moreover have "dropWhile (\<lambda>c. c = newline) (rev core) = rev core"
    using assms by (intro keep) (simp_all add: hd_rev)
  ultimately show ?thesis by (simp add: trim_newlines_def skip)
qed

lemma strip_newlines_spec:
  assumes "CHR 0x00 \<notin> set buf"
  shows "strip_newlines buf (int (length buf)) = Inr (trim_newlines buf)"
proof -
  have str: "takeWhile (\<lambda>c. c \<noteq> CHR 0x00) buf = buf" using assms by (auto intro: takeWhile_all)
  show ?thesis
  proof (cases buf rule: trim_split)
    case blank
    define n where "n = length buf"
    have buf: "buf = replicate n newline" using blank by (simp add: n_def)
    have "find_begin buf 0 = n" by (simp add: find_begin_spec buf)
    moreover have "find_end buf (int n) (int n - 1) = int n - 1" by (simp add: find_end.simps)
    moreover have "trim_newlines buf = []" by (simp add: trim_newlines_def buf)
    ultimately show ?thesis using str by (simp add: strip_newlines_def Let_def substr_from_def buf)
  next
    case (inner b core k)
    have "takeWhile (\<lambda>c. c = newline) buf = replicate b newline"
      using inner by (subst inner(1)) (cases core, auto simp: takeWhile_append)
    then have fb: "find_begin buf 0 = b" by (simp add: find_begin_spec)
    have len: "length buf = b + length core + k" by (subst inner(1)) simp
    let ?m = "b + length core - 1"
    have m: "?m + k = length buf - 1" "length buf > 0" using inner(2) by (cases core; simp add: len)+
    have "find_end buf (int b) (int (?m + k)) = int ?m"
    proof (rule find_end_skip)
      fix j
      assume "?m < j" "j \<le> ?m + k"
      then have "b + length core \<le> j" "j < b + length core + k" using inner(2) by (cases core; simp)+
      then have "\<not> j < b" "\<not> j - b < length core" "j - b - length core < k" by auto
      then show "buf ! j = newline" by (subst inner(1)) (simp add: nth_append)
    next
      show "b \<le> ?m" using inner(2) by (cases core) auto
      have "\<not> ?m < b" "?m - b = length core - 1" using inner(2) by (cases core; simp)+
      then have "buf ! ?m = last core"
        using inner(2) by (subst inner(1)) (simp add: nth_append last_conv_nth)
      then show "b = ?m \<or> buf ! ?m \<noteq> newline" using inner(4) by simp
    qed
    moreover have "int (?m + k) = int (length buf) - 1" using m by linarith
    ultimately have fe: "find_end buf (int b) (int (length buf) - 1) = int ?m" by simp
    have trim: "trim_newlines buf = core" using trim_replicate [OF inner(2-4)] inner(1) by metis
    have d: "drop b buf = core @ replicate k newline" by (subst inner(1)) simp
    have after: "int ?m < int (length buf) - 1 \<longleftrightarrow> k > 0" using m by linarith
    have width: "nat (int ?m - int b + 1) = length core" "int b \<le> int ?m" using inner(2) by (cases core; simp)+
    have head: "(if int b > 0 then substr_from (nat (int b)) buf else Inr buf) = Inr (core @ replicate k newline)"
      using len by (auto simp: substr_from_def simp flip: d)
    have "strip_newlines buf (int (length buf)) =
        Inr (if int ?m < int (length buf) - 1 \<and> int b \<le> int ?m \<and> 0 \<le> int b
             then take (nat (int ?m - int b + 1)) (core @ replicate k newline) else core @ replicate k newline)"
      unfolding strip_newlines_def Let_def str fb fe head by simp
    also have "\<dots> = Inr core" unfolding after width(1) using width(2) by (cases k) simp_all
    finally show ?thesis by (simp only: trim)
  qed
qed

text \<open>
  With a zero byte in the buffer the string ends there, while the search for the last byte that is not a newline starts
  at the end of the buffer, behind it: nothing is cut off at the end.
\<close>

definition logged_text :: "string \<Rightarrow> string" where
  "logged_text buf =
     (if CHR 0x00 \<in> set buf then dropWhile (\<lambda>c. c = newline) (takeWhile (\<lambda>c. c \<noteq> CHR 0x00) buf) else trim_newlines buf)"

lemma find_end_ge: "b \<le> z \<Longrightarrow> z \<le> e \<Longrightarrow> buf ! nat z \<noteq> newline \<Longrightarrow> z \<le> find_end buf b e"
proof (induction buf b e rule: find_end.induct)
  case (1 buf b e)
  show ?case
  proof (cases "e > b \<and> buf ! nat e = newline")
    case True
    with "1.prems" have "z \<noteq> e" by auto
    with True "1.prems" "1.IH" show ?thesis by (subst find_end.simps) simp
  next
    case False
    then have "find_end buf b e = e" by (subst find_end.simps) (simp only: if_False)
    with "1.prems" show ?thesis by simp
  qed
qed

lemma strip_newlines_text: "strip_newlines buf (int (length buf)) = Inr (logged_text buf)"
proof (cases "CHR 0x00 \<in> set buf")
  case False
  then show ?thesis by (simp add: strip_newlines_spec logged_text_def)
next
  case True
  let ?str = "takeWhile (\<lambda>c. c \<noteq> CHR 0x00) buf"
  define z where "z = length ?str"
  from True have z: "z < length buf" unfolding z_def by (induction buf) auto
  then have zero: "buf ! z = CHR 0x00" using nth_length_takeWhile [of "\<lambda>c. c \<noteq> CHR 0x00" buf] by (simp add: z_def)
  define b where "b = length (takeWhile (\<lambda>c. c = newline) buf)"
  have tw: "takeWhile (\<lambda>c. c = newline) ?str = takeWhile (\<lambda>c. c = newline) buf"
    by (induction buf) (auto simp: newline_def)
  then have bz: "b \<le> z" unfolding b_def z_def by (metis length_takeWhile_le)
  have fb: "find_begin buf 0 = b" by (simp add: find_begin_spec b_def)
  have fe: "int z \<le> find_end buf (int b) (int (length buf) - 1)"
    using bz z zero by (intro find_end_ge) (simp_all add: newline_def)
  have rest: "drop b ?str = dropWhile (\<lambda>c. c = newline) ?str"
    by (simp add: dropWhile_eq_drop tw b_def)
  have "length (drop b ?str) \<le> nat (find_end buf (int b) (int (length buf) - 1) - int b + 1)"
    using fe bz by (simp add: z_def)
  then have "take (nat (find_end buf (int b) (int (length buf) - 1) - int b + 1)) (drop b ?str) = drop b ?str" by simp
  moreover have "(if int b > 0 then substr_from (nat (int b)) ?str else Inr ?str) = Inr (drop b ?str)"
    using bz by (simp add: substr_from_def z_def)
  ultimately have "strip_newlines buf (int (length buf)) = Inr (drop b ?str)"
    unfolding strip_newlines_def Let_def fb by simp
  then show ?thesis using True by (simp add: logged_text_def rest)
qed

lemma forward_signal_calls:
  "map fst (calls (forward_signal P sig m s)) = rev (map (\<lambda>(pid, i). Sys_kill pid sig) m) @ map fst (calls s)"
  "should_quit (forward_signal P sig m s) = should_quit s"
  by (induction P sig m s rule: forward_signal.induct) (auto simp: sys_call_def Let_def)

lemma forward_signal_frame: "\<exists>tr. forward_signal P sig m s = s\<lparr>calls := tr\<rparr>"
proof (induction P sig m s rule: forward_signal.induct)
  case (1 P sig s)
  show ?case by (intro exI [of _ "calls s"]) simp
next
  case (2 P sig pair rest s)
  obtain r u where u: "sys_call P (Sys_kill (fst pair) sig) s = (r, u)" by fastforce
  then have "\<exists>tr. forward_signal P sig rest u = u\<lparr>calls := tr\<rparr>" using "2.IH" [OF u [symmetric] refl] by simp
  then obtain tr where "forward_signal P sig rest u = u\<lparr>calls := tr\<rparr>" ..
  with u show ?case by (intro exI [of _ tr]) (auto simp: sys_call_def)
qed

lemma low_bits:
  fixes w :: u32
  shows "w AND SIGTERM \<noteq> 0 \<or> w AND SIGQUIT \<noteq> 0 \<longleftrightarrow> unat w mod 16 \<noteq> 0"
proof -
  have "w AND SIGTERM = take_bit 4 w" by (simp add: SIGTERM_def take_bit_eq_mask mask_eq_exp_minus_1)
  then have 1: "w AND SIGTERM = 0 \<longleftrightarrow> unat w mod 16 = 0"
    by (simp add: unat_eq_0 [symmetric] take_bit_eq_mod unat_mod)
  have "w AND SIGQUIT = (w AND SIGTERM) AND SIGQUIT" by (simp add: SIGTERM_def SIGQUIT_def and.assoc)
  with 1 show ?thesis by auto
qed

lemma signal_received_calls:
  "map fst (calls (signal_received P sig s)) =
     (if sig = SIGCHLD then []
      else rev (map (\<lambda>(pid, i). Sys_kill pid (if sig = SIGINT then SIGTERM else sig)) (id_for_pid s))) @
     map fst (calls s)"
  by (simp add: signal_received_def Let_def forward_signal_calls)

section \<open>Properties\<close>

text \<open>
  C39. The whole effect of a signal: any signal but \<open>SIGCHLD\<close> is sent to every registered process exactly once, in the order
  of the table of process ids, \<open>SIGINT\<close> as \<open>SIGTERM\<close>, and nothing but the flag to quit changes. The test \<open>signal & SIGTERM\<close>
  is on bits: the flag is set by every signal but \<open>SIGCHLD\<close> whose number is not a multiple of 16, for example
  by \<open>SIGHUP\<close>.
\<close>

theorem signal_received_exact:
  "(let t = signal_received P sig s in
     map fst (calls t) =
       (if sig = SIGCHLD then []
        else rev (map (\<lambda>(pid, i). Sys_kill pid (if sig = SIGINT then SIGTERM else sig)) (id_for_pid s))) @ map fst (calls s) \<and>
     t = s\<lparr>calls := calls t, should_quit := should_quit s \<or> (sig \<noteq> SIGCHLD \<and> unat sig mod 16 \<noteq> 0)\<rparr>)"
proof -
  have sg: "unat SIGINT mod 16 \<noteq> 0" "unat SIGTERM mod 16 \<noteq> 0" by (simp_all add: SIGINT_def SIGTERM_def)
  obtain tr where tr: "forward_signal P (if sig = SIGINT then SIGTERM else sig) (id_for_pid s) s = s\<lparr>calls := tr\<rparr>"
    using forward_signal_frame by blast
  have "signal_received P sig s = s\<lparr>calls := calls (signal_received P sig s),
      should_quit := should_quit s \<or> (sig \<noteq> SIGCHLD \<and> unat sig mod 16 \<noteq> 0)\<rparr>"
    unfolding signal_received_def Let_def tr low_bits using sg by auto
  then show ?thesis by (simp add: signal_received_calls Let_def)
qed

text \<open>
  C23. For output without a zero byte the two index loops and the two calls of \<open>substr\<close> compute the text without
  its leading and trailing newlines.
\<close>

theorem strip_newlines_correct:
  assumes "CHR 0x00 \<notin> set buf"
  shows "strip_newlines buf (int (length buf)) = Inr (trim_newlines buf)"
  using assms by (rule strip_newlines_spec)

theorem strip_newlines_correct_witness:
  "strip_newlines (newline # ''up'' @ newline # ''ok'' @ [newline, newline]) 8 = Inr (''up'' @ newline # ''ok'')"
  using strip_newlines_correct [of "newline # ''up'' @ newline # ''ok'' @ [newline, newline]"]
  by (simp add: newline_def trim_newlines_def)

text \<open>
  For any output, zero bytes and all, \<open>substr\<close> is never called with a position past the end: the leading
  newlines that are counted all precede the first zero byte.
\<close>

theorem strip_newlines_total: "\<exists>str. strip_newlines buf nchars = Inr str"
proof -
  let ?str = "takeWhile (\<lambda>c. c \<noteq> CHR 0x00) buf"
  have "takeWhile (\<lambda>c. c = newline) ?str = takeWhile (\<lambda>c. c = newline) buf"
    by (induction buf) (auto simp: newline_def)
  then have "find_begin buf 0 \<le> length ?str"
    by (metis add_0 bot_nat_0.extremum drop0 find_begin_spec length_takeWhile_le)
  then show ?thesis by (simp add: strip_newlines_def Let_def substr_from_def split: sum.split)
qed

text \<open>For the examples: one running process, with output on descriptor 3.\<close>

definition example_sys :: sys where
  "example_sys = ProcessHandler
     \<lparr>objects := [0 \<mapsto> ready_child], obj_for_id := [(1, Some 0)], id_for_fd := [(3, 1), (5, 1)],
      fd_type := [(3, STDOUT), (5, STDERR)], num_fd_for_id := [(1, 2)], all_objs := [Some 0], next_ref := 1\<rparr>"

text \<open>
  C40. Output of a child. Let a read from the descriptor of a registered object return as many bytes as it reports, and let the
  logger with the name of the object exist. Then the bytes up to the first zero byte, without leading newlines, and if there
  is no zero byte without trailing newlines, are logged once with that logger, as information if they came from the standard
  output and as a warning if they came from the standard error; if nothing is left of them, nothing is logged. Nothing else
  changes.
\<close>

theorem output_is_logged:
  assumes r: "r = os P (calls s) (Sys_read fd BUF_SIZE)" "ret r = int (length (out_text r))"
    and known: "omap_find (id_for_fd s) fd = Some i" "omap_find (obj_for_id s) i = Some (Some q)"
      "objects s q = Some c" "omap_find (fd_type s) fd = Some t"
    and logger: "ret (os P ((Sys_read fd BUF_SIZE, r) # calls s) (Log_get (name c))) \<noteq> 0"
  shows "\<exists>new. read_output P fd s = (Inr (), s\<lparr>calls := new @ (Sys_read fd BUF_SIZE, r) # calls s\<rparr>) \<and>
    map fst new = (if logged_text (out_text r) = [] then []
      else [(case t of STDOUT \<Rightarrow> Log_info | STDERR \<Rightarrow> Log_warn) (name c) (logged_text (out_text r)), Log_get (name c)])"
proof -
  let ?s = "s\<lparr>calls := (Sys_read fd BUF_SIZE, r) # calls s\<rparr>" and ?str = "logged_text (out_text r)"
  have buf: "take (nat (ret r)) (out_text r @ replicate (nat (ret r)) (CHR 0x00)) = out_text r"
    using r(2) by simp
  have out: "read_output P fd s = (if ?str \<noteq> [] then handle_child_output P fd ?str ?s else (Inr (), ?s))"
    unfolding read_output_def sys_call_def Let_def prod.case r(1) [symmetric] buf
    using strip_newlines_text [of "out_text r"] r(2) by simp
  show ?thesis
  proof (cases "?str = []")
    case True
    with out show ?thesis by (intro exI [of _ "[]"]) simp
  next
    case False
    have "\<exists>r1 r2. handle_child_output P fd ?str ?s =
      (Inr (), s\<lparr>calls := ((case t of STDOUT \<Rightarrow> Log_info | STDERR \<Rightarrow> Log_warn) (name c) ?str, r1) #
         (Log_get (name c), r2) # (Sys_read fd BUF_SIZE, r) # calls s\<rparr>)"
      using known logger by (auto simp: handle_child_output_def get_name_def sys_call_def Let_def split: FDType.split)
    then obtain r1 r2 where "handle_child_output P fd ?str ?s =
      (Inr (), s\<lparr>calls := [((case t of STDOUT \<Rightarrow> Log_info | STDERR \<Rightarrow> Log_warn) (name c) ?str, r1),
         (Log_get (name c), r2)] @ (Sys_read fd BUF_SIZE, r) # calls s\<rparr>)" by auto
    with out False show ?thesis
      by (intro exI [of _ "[((case t of STDOUT \<Rightarrow> Log_info | STDERR \<Rightarrow> Log_warn) (name c) ?str, r1),
         (Log_get (name c), r2)]"]) simp
  qed
qed

theorem output_is_logged_witness:
  "\<exists>new. read_output ((plain_platform 1)\<lparr>os := \<lambda>tr call. ok_reply\<lparr>ret := 3, out_text := ''hi'' @ [newline]\<rparr>\<rparr>) 5 example_sys =
    (Inr (), example_sys\<lparr>calls := new @ [(Sys_read 5 BUF_SIZE, ok_reply\<lparr>ret := 3, out_text := ''hi'' @ [newline]\<rparr>)]\<rparr>) \<and>
    map fst new = [Log_warn ''web'' ''hi'', Log_get ''web'']"
  using output_is_logged [of "ok_reply\<lparr>ret := 3, out_text := ''hi'' @ [newline]\<rparr>"
      "(plain_platform 1)\<lparr>os := \<lambda>tr call. ok_reply\<lparr>ret := 3, out_text := ''hi'' @ [newline]\<rparr>\<rparr>" example_sys 5 1 0
      ready_child STDERR]
  by (simp add: example_sys_def ProcessHandler_def omap_find_def ready_child_def example_child_def newline_def
      logged_text_def trim_newlines_def)

text \<open>
  C32. A hang-up that is handled takes the descriptor out of both tables and one from the count of the process it
  belongs to; a descriptor that nobody registered is charged to the process with the number 0, whose count wraps around
  at 0.
\<close>

theorem hang_up_counts_down:
  assumes "hang_up P fd s = (Inr (), t)"
  shows "let i = (case omap_find (id_for_fd s) fd of Some i \<Rightarrow> i | None \<Rightarrow> 0);
      n = (case omap_find (num_fd_for_id s) i of Some n \<Rightarrow> n | None \<Rightarrow> 0)
    in omap_find (id_for_fd t) = (omap_find (id_for_fd s))(fd := None) \<and>
       omap_find (fd_type t) = (omap_find (fd_type s))(fd := None) \<and>
       omap_find (num_fd_for_id t) = (omap_find (num_fd_for_id s))(i := Some (n - 1)) \<and>
       (n = 1 \<longrightarrow> (\<exists>r. omap_find (obj_for_id s) i = Some (Some r) \<and> objects s r \<noteq> None))"
  using assms
  by (auto simp: hang_up_def Let_def sys_call_def throw_handler_def omap_index_def fun_eq_iff lock_def
      split: option.splits if_splits prod.splits)

theorem hang_up_counts_down_witness:
  "omap_find (num_fd_for_id (snd (hang_up (plain_platform 1) 9 example_sys))) 0 = Some (2 ^ 32 - 1)"
proof -
  have "hang_up (plain_platform 1) 9 example_sys = (Inr (), snd (hang_up (plain_platform 1) 9 example_sys))"
    by (simp add: hang_up_def example_sys_def ProcessHandler_def sys_call_def plain_platform_def plain_kernel_def ok_reply_def
        omap_index_def omap_find_def Let_def)
  from hang_up_counts_down [OF this] show ?thesis
    by (simp add: example_sys_def ProcessHandler_def omap_find_def Let_def)
qed

text \<open>
  A name whose logger cannot be created, because another program or scinit itself has it, is reported and
  nothing else: the program is not started, and its object stays as it is.
\<close>

theorem duplicate_logger_never_starts:
  assumes "objects s r = Some c" and "ret (os P (calls s) (Log_create (name c))) \<noteq> 0"
  shows "fst (start_program P n (Some r) s) = Inr () \<and>
    (\<exists>tr. snd (start_program P n (Some r) s) = s\<lparr>calls := tr\<rparr> \<and> Sys_fork \<notin> fst ` (set tr - set (calls s)))"
  using assms
  by (auto simp: start_program_def can_start_now_def try_start_def get_name_def sys_call_def catch_std_def Let_def
      intro: exI [of _ "calls s"])

theorem duplicate_logger_never_starts_witness:
  "fst (start_program ((plain_platform 1)\<lparr>os := \<lambda>tr call. ok_reply\<lparr>ret := 1\<rparr>\<rparr>) 0 (Some 0) example_sys) = Inr ()"
  using duplicate_logger_never_starts [of example_sys 0 ready_child "(plain_platform 1)\<lparr>os := \<lambda>tr call. ok_reply\<lparr>ret := 1\<rparr>\<rparr>" 0]
  by (simp add: example_sys_def)

end
