(* ===== verification/Config.thy ===== *)
theory Config
  imports Process_Handler
begin

text \<open>
  \<open>Config.h\<close>: reading the configuration. The YAML library is a parameter, the record \<open>yaml\<close> of the
  operations the program uses on its nodes: a test for and access to a member, iteration over the
  elements, conversions (which may throw), the test for a scalar and the first entry of a map.
\<close>

section \<open>The YAML library and small combinators\<close>

record 'n yaml =
  y_load_file :: "string \<Rightarrow> exn + 'n"
  y_member :: "'n \<Rightarrow> string \<Rightarrow> exn + 'n option"
  y_elems :: "'n \<Rightarrow> 'n list"
  y_string :: "'n \<Rightarrow> exn + string"
  y_int :: "'n \<Rightarrow> exn + int"
  y_bool :: "'n \<Rightarrow> exn + bool"
  y_is_scalar :: "'n \<Rightarrow> bool"
  y_first :: "'n \<Rightarrow> exn + 'n \<times> 'n"

definition bindE :: "'e + 'a \<Rightarrow> ('a \<Rightarrow> 'e + 'b) \<Rightarrow> 'e + 'b" where
  "bindE m f = (case m of Inl e \<Rightarrow> Inl e | Inr x \<Rightarrow> f x)"

lemma bindE_simps [simp]:
  "bindE (Inl e) f = Inl e"
  "bindE (Inr x) f = f x"
  by (simp_all add: bindE_def)

lemma bindE_Inr_iff: "bindE m f = Inr y \<longleftrightarrow> (\<exists>x. m = Inr x \<and> f x = Inr y)"
  by (cases m) auto

fun mapE :: "('a \<Rightarrow> 'e + 'b) \<Rightarrow> 'a list \<Rightarrow> 'e + 'b list" where
  "mapE f [] = Inr []"
| "mapE f (x # xs) = bindE (f x) (\<lambda>y. bindE (mapE f xs) (\<lambda>ys. Inr (y # ys)))"

text \<open>\<open>if ((*program)[key]) v = (*program)[key].as<T>();\<close> with the initial value \<open>d\<close> of \<open>v\<close>.\<close>

definition member_or :: "'n yaml \<Rightarrow> 'n \<Rightarrow> string \<Rightarrow> ('n \<Rightarrow> exn + 'a) \<Rightarrow> 'a \<Rightarrow> exn + 'a" where
  "member_or Y program key conv d =
     bindE (y_member Y program key) (\<lambda>m. case m of None \<Rightarrow> Inr d | Some v \<Rightarrow> conv v)"

definition yaml_node_to_str_list :: "'n yaml \<Rightarrow> 'n \<Rightarrow> string \<Rightarrow> exn + string list" where
  "yaml_node_to_str_list Y root node_name =
     member_or Y root node_name (\<lambda>node. mapE (y_string Y) (y_elems Y node)) []"

section \<open>User and group\<close>

text \<open>
  The numeric settings: \<open>uid\<close>, \<open>gid\<close> and \<open>did_set_numeric\<close> after the first two tests. The second
  test stores the value of \<open>gid\<close> in the variable \<open>uid\<close>.
\<close>

definition numeric_ids :: "'n yaml \<Rightarrow> 'n \<Rightarrow> exn + int \<times> int \<times> bool" where
  "numeric_ids Y program =
     bindE (member_or Y program ''uid'' (\<lambda>v. bindE (y_int Y v) (\<lambda>n. Inr (n, True))) (-1, False)) (\<lambda>(uid, did).
     bindE (member_or Y program ''gid'' (\<lambda>v. bindE (y_int Y v) (\<lambda>n. Inr (n, True))) (uid, did)) (\<lambda>(uid, did).
     Inr (uid, -1, did)))"

text \<open>A name is looked up if there is one, or if there is no numeric setting.\<close>

definition named_id ::
  "platform \<Rightarrow> 'n yaml \<Rightarrow> 'n \<Rightarrow> string \<Rightarrow> string \<Rightarrow> (string \<Rightarrow> oscall) \<Rightarrow> bool \<Rightarrow> int \<Rightarrow> trace \<Rightarrow> int res \<times> trace" where
  "named_id P Y program key fallback lookup did_set_numeric current tr =
     (case y_member Y program key of
        Inl e \<Rightarrow> (Inl (Throw e), tr)
      | Inr m \<Rightarrow>
          if m \<noteq> None \<or> \<not> did_set_numeric then
            (case (case m of Some v \<Rightarrow> y_string Y v | None \<Rightarrow> Inr fallback) of
               Inl e \<Rightarrow> (Inl (Throw e), tr)
             | Inr nm \<Rightarrow>
                 let (r, tr) = syscall P (lookup (c_string nm)) tr in
                 if ret r = 0 then (Inl (Exit_process (-1)), tr) else (Inr (out_num r), tr))
          else (Inr current, tr))"

definition lift_exn :: "exn + 'a \<Rightarrow> 's \<Rightarrow> 'a res \<times> 's" where
  "lift_exn m s = (case m of Inl e \<Rightarrow> (Inl (Throw e), s) | Inr x \<Rightarrow> (Inr x, s))"

definition resolve_ids :: "platform \<Rightarrow> 'n yaml \<Rightarrow> 'n \<Rightarrow> trace \<Rightarrow> (int \<times> int) res \<times> trace" where
  "resolve_ids P Y program tr =
     andThen (lift_exn (numeric_ids Y program) tr) (\<lambda>(uid, gid, did_set_numeric) tr.
     andThen (named_id P Y program ''user'' ''nobody'' Sys_getpwnam did_set_numeric uid tr) (\<lambda>uid tr.
     andThen (named_id P Y program ''group'' ''nogroup'' Sys_getgrnam did_set_numeric gid tr) (\<lambda>gid tr.
     (Inr (uid, gid), tr))))"

section \<open>One program entry\<close>

fun parse_env ::
  "'n yaml \<Rightarrow> 'n list \<Rightarrow> string list \<times> (string \<times> string) list \<Rightarrow> exn + string list \<times> (string \<times> string) list" where
  "parse_env Y [] acc = Inr acc"
| "parse_env Y (node # rest) (whitelist, extra) =
     (if y_is_scalar Y node then
        bindE (y_string Y node) (\<lambda>v. parse_env Y rest (whitelist @ [v], extra))
      else
        bindE (y_first Y node) (\<lambda>(k, v).
        bindE (y_string Y k) (\<lambda>key.
        bindE (y_string Y v) (\<lambda>val.
        parse_env Y rest (whitelist, extra @ [(key, val)])))))"

record entry =
  e_type :: string
  e_args :: "string list"
  e_capabilities :: "string list"
  e_before :: "string list"
  e_after :: "string list"

definition parse_lists :: "'n yaml \<Rightarrow> 'n \<Rightarrow> exn + entry" where
  "parse_lists Y program =
     bindE (member_or Y program ''type'' (y_string Y) ''simple'') (\<lambda>ty.
     bindE (yaml_node_to_str_list Y program ''args'') (\<lambda>ags.
     bindE (yaml_node_to_str_list Y program ''capabilities'') (\<lambda>caps.
     bindE (yaml_node_to_str_list Y program ''before'') (\<lambda>bef.
     bindE (yaml_node_to_str_list Y program ''after'') (\<lambda>aft.
     Inr \<lparr>e_type = ty, e_args = ags, e_capabilities = caps, e_before = bef, e_after = aft\<rparr>)))))"

definition parse_flags :: "'n yaml \<Rightarrow> 'n \<Rightarrow> exn + bool \<times> bool \<times> string list \<times> (string \<times> string) list" where
  "parse_flags Y program =
     bindE (member_or Y program ''pty'' (y_bool Y) False) (\<lambda>tty.
     bindE (member_or Y program ''default_env'' (y_bool Y) True) (\<lambda>denv.
     bindE (member_or Y program ''env'' (\<lambda>e. parse_env Y (y_elems Y e) ([], [])) ([], [])) (\<lambda>(whitelist, extra).
     Inr (tty, denv, whitelist, extra))))"

record config =
  processes :: "ref list"
  child_counter :: int

text \<open>The body of the loop of \<open>parse_file\<close>; both \<open>continue\<close> statements leave the state alone.\<close>

definition parse_program :: "platform \<Rightarrow> 'n yaml \<Rightarrow> 'n \<Rightarrow> config \<times> sys \<Rightarrow> unit res \<times> config \<times> sys" where
  "parse_program P Y program cs =
     andThen (lift_exn (y_member Y program ''name'') cs) (\<lambda>name_node cs.
     if name_node = None then (Inr (), cs) else
     andThen (lift_exn (y_member Y program ''path'') cs) (\<lambda>path_node cs.
     if path_node = None then (Inr (), cs) else
     andThen (lift_exn (parse_lists Y program) cs) (\<lambda>e (cfg, s).
     case resolve_ids P Y program (calls s) of (ids, tr) \<Rightarrow>
     andThen (ids, (cfg, s\<lparr>calls := tr\<rparr>)) (\<lambda>(uid, gid) cs.
     andThen (lift_exn (parse_flags Y program) cs) (\<lambda>(tty, denv, whitelist, extra) cs.
     andThen (lift_exn (y_string Y (the name_node)) cs) (\<lambda>nm cs.
     andThen (lift_exn (y_string Y (the path_node)) cs) (\<lambda>pth (cfg, s).
     let (process, s) =
           make_child (ChildProcess P nm pth (e_args e) (e_type e) (e_capabilities e)
             (word_of_int uid) (word_of_int gid) (word_of_int (child_counter cfg))
             (e_before e) (e_after e) tty denv whitelist extra) s;
         cfg = cfg\<lparr>processes := processes cfg @ [process], child_counter := child_counter cfg + 1\<rparr>;
         s = register_obj_id (case objects s process of Some c \<Rightarrow> sint (get_id c) | None \<Rightarrow> 0) (Some process) s
     in (Inr (), (cfg, s)))))))))"

definition parse_file :: "platform \<Rightarrow> 'n yaml \<Rightarrow> 'n \<Rightarrow> config \<times> sys \<Rightarrow> unit res \<times> config \<times> sys" where
  "parse_file P Y programs = for_each (parse_program P Y) (y_elems Y programs)"

section \<open>Files\<close>

definition load_file :: "platform \<Rightarrow> 'n yaml \<Rightarrow> string \<Rightarrow> config \<times> sys \<Rightarrow> unit res \<times> config \<times> sys" where
  "load_file P Y file cs =
     andThen (lift_exn (y_load_file Y file) cs) (\<lambda>root cs.
     andThen (lift_exn (y_member Y root ''programs'') cs) (\<lambda>programs cs.
     case programs of
       None \<Rightarrow> (Inl (Throw (ConfigParseException ''Config file is missing the 'programs' node!'')), cs)
     | Some node \<Rightarrow> parse_file P Y node cs))"

definition empty_config :: config where
  "empty_config = \<lparr>processes = [], child_counter = 0\<rparr>"

definition Config_path ::
  "platform \<Rightarrow> 'n yaml \<Rightarrow> (string \<Rightarrow> bool) \<Rightarrow> string \<Rightarrow> sys \<Rightarrow> unit res \<times> config \<times> sys" where
  "Config_path P Y is_directory pth s =
     (if is_directory pth then
        (Inl (Throw (ConfigParseException ''This constructor is for single files only!'')), (empty_config, s))
      else load_file P Y pth (empty_config, s))"

definition Config_files :: "platform \<Rightarrow> 'n yaml \<Rightarrow> string list \<Rightarrow> sys \<Rightarrow> unit res \<times> config \<times> sys" where
  "Config_files P Y files s = for_each (load_file P Y) files (empty_config, s)"

definition get_processes :: "config \<Rightarrow> weak list" where
  "get_processes cfg = fold (\<lambda>ptr list. list @ [Some ptr]) (processes cfg) []"

lemma get_processes_eq: "get_processes cfg = map Some (processes cfg)"
proof -
  have "fold (\<lambda>ptr list. list @ [Some ptr]) ps acc = acc @ map Some ps" for ps :: "ref list" and acc
    by (induction ps arbitrary: acc) simp_all
  then show ?thesis by (simp add: get_processes_def)
qed

section \<open>Properties\<close>

text \<open>
  For the examples: documents as trees, the operations of the library on them, and a loader that knows
  one document.
\<close>

datatype document = Scalar string | Seq "document list" | Mapping "(string \<times> document) list"

definition decimal :: "string \<Rightarrow> int" where
  "decimal s = fold (\<lambda>c n. 10 * n + (of_char c - 48)) s 0"

definition document_yaml :: "document \<Rightarrow> document yaml" where
  "document_yaml doc =
     \<lparr>y_load_file = (\<lambda>f. Inr doc),
      y_member = (\<lambda>d k. Inr (case d of Mapping m \<Rightarrow> map_of m k | _ \<Rightarrow> None)),
      y_elems = (\<lambda>d. case d of Seq ds \<Rightarrow> ds | _ \<Rightarrow> []),
      y_string = (\<lambda>d. case d of Scalar s \<Rightarrow> Inr s | _ \<Rightarrow> Inl (Std_exception ''bad conversion'')),
      y_int = (\<lambda>d. case d of Scalar s \<Rightarrow> Inr (decimal s) | _ \<Rightarrow> Inl (Std_exception ''bad conversion'')),
      y_bool = (\<lambda>d. case d of Scalar s \<Rightarrow> Inr (s = ''true'') | _ \<Rightarrow> Inl (Std_exception ''bad conversion'')),
      y_is_scalar = (\<lambda>d. case d of Scalar s \<Rightarrow> True | _ \<Rightarrow> False),
      y_first = (\<lambda>d. case d of Mapping (kv # m) \<Rightarrow> Inr (Scalar (fst kv), snd kv)
        | _ \<Rightarrow> Inl (Std_exception ''bad dereference''))\<rparr>"

lemma document_yaml_simps [simp]:
  "y_load_file (document_yaml doc) f = Inr doc"
  "y_member (document_yaml doc) (Mapping m) k = Inr (map_of m k)"
  "y_elems (document_yaml doc) (Seq ds) = ds"
  "y_string (document_yaml doc) (Scalar s) = Inr s"
  "y_int (document_yaml doc) (Scalar s) = Inr (decimal s)"
  by (simp_all add: document_yaml_def)

text \<open>Two programs: a database, and a web server to be started after it.\<close>

definition example_document :: document where
  "example_document = Mapping [(''programs'', Seq
     [Mapping [(''name'', Scalar ''web''), (''path'', Scalar ''/bin/web''), (''uid'', Scalar ''7''), (''gid'', Scalar ''8''),
        (''after'', Seq [Scalar ''db''])],
      Mapping [(''path'', Scalar ''/bin/nameless'')],
      Mapping [(''name'', Scalar ''db''), (''path'', Scalar ''/bin/db''), (''uid'', Scalar ''9'')]])]"

definition example_program :: document where
  "example_program =
     Mapping [(''name'', Scalar ''web''), (''path'', Scalar ''/bin/web''), (''uid'', Scalar ''7''), (''gid'', Scalar ''8'')]"

text \<open>
  C37. The numeric setting \<open>gid\<close> is stored as the user: a program configured with numeric ids and no names gets the
  number of the group as its user id, whatever its \<open>uid\<close>, and -1 as its group id.
\<close>

theorem numeric_gid_becomes_uid:
  assumes "y_member Y program ''gid'' = Inr (Some v)" and "y_int Y v = Inr g"
    and "y_member Y program ''uid'' = Inr m" and "\<And>u. m = Some u \<Longrightarrow> \<exists>x. y_int Y u = Inr x"
    and "y_member Y program ''user'' = Inr None" and "y_member Y program ''group'' = Inr None"
  shows "resolve_ids P Y program tr = (Inr (g, -1), tr)"
  using assms
  by (cases m) (auto simp: resolve_ids_def numeric_ids_def member_or_def named_id_def lift_exn_def)

theorem numeric_gid_becomes_uid_witness:
  "resolve_ids (plain_platform 1) (document_yaml example_document) example_program [] = (Inr (8, -1), [])"
  by (rule numeric_gid_becomes_uid [where v = "Scalar ''8''" and m = "Some (Scalar ''7'')"])
    (simp_all add: example_program_def decimal_def)

text \<open>
  A program without any of the four settings runs as \<open>nobody\<close> and \<open>nogroup\<close>, never as the user of scinit; if one of
  the names is unknown, scinit exits with the status -1.
\<close>

theorem default_is_nobody:
  assumes "\<And>key. key \<in> {''uid'', ''gid'', ''user'', ''group''} \<Longrightarrow> y_member Y program key = Inr None"
  shows "resolve_ids P Y program tr =
    (let u = os P tr (Sys_getpwnam ''nobody''); tr1 = (Sys_getpwnam ''nobody'', u) # tr;
         g = os P tr1 (Sys_getgrnam ''nogroup''); tr2 = (Sys_getgrnam ''nogroup'', g) # tr1
     in if ret u = 0 then (Inl (Exit_process (-1)), tr1)
        else if ret g = 0 then (Inl (Exit_process (-1)), tr2)
        else (Inr (out_num u, out_num g), tr2))"
  using assms [of "''uid''"] assms [of "''gid''"] assms [of "''user''"] assms [of "''group''"]
  by (simp add: resolve_ids_def numeric_ids_def member_or_def named_id_def lift_exn_def syscall_def Let_def c_string_def)

theorem default_is_nobody_witness:
  "fst (resolve_ids ((plain_platform 1)\<lparr>os := \<lambda>tr call. ok_reply\<lparr>ret := 1, out_num := 65534\<rparr>\<rparr>)
     (document_yaml example_document) (Mapping [(''name'', Scalar ''db'')]) []) = Inr (65534, 65534)"
  by (subst default_is_nobody) (auto simp: Let_def)

text \<open>An entry without a name or without a path is skipped and leaves no trace.\<close>

theorem incomplete_entry_skipped:
  assumes "y_member Y program ''name'' = Inr None \<or>
    (\<exists>v. y_member Y program ''name'' = Inr (Some v) \<and> y_member Y program ''path'' = Inr None)"
  shows "parse_program P Y program cs = (Inr (), cs)"
  using assms by (auto simp: parse_program_def lift_exn_def)

theorem incomplete_entry_skipped_witness:
  "parse_program (plain_platform 1) (document_yaml example_document) (Mapping [(''path'', Scalar ''/bin/nameless'')])
     (empty_config, example_sys) = (Inr (), (empty_config, example_sys))"
  by (rule incomplete_entry_skipped) simp

text \<open>A file without the node \<open>programs\<close> is an error of the configuration, and nothing has been created.\<close>

theorem missing_programs_node:
  assumes "y_load_file Y file = Inr root" and "y_member Y root ''programs'' = Inr None"
  shows "load_file P Y file cs =
    (Inl (Throw (ConfigParseException ''Config file is missing the 'programs' node!'')), cs)"
  using assms by (simp add: load_file_def lift_exn_def)

theorem missing_programs_node_witness:
  "fst (load_file (plain_platform 1) (document_yaml (Mapping [])) ''c.yml'' (empty_config, example_sys)) =
     Inl (Throw (ConfigParseException ''Config file is missing the 'programs' node!''))"
  using missing_programs_node [of "document_yaml (Mapping [])" "''c.yml''" "Mapping []"] by simp

text \<open>What the entry says about the object: every setting but the user and the group.\<close>

definition entry_child :: "'n yaml \<Rightarrow> 'n \<Rightarrow> u32 \<Rightarrow> child \<Rightarrow> bool" where
  "entry_child Y program i c \<longleftrightarrow>
     (\<exists>name_node path_node e. y_member Y program ''name'' = Inr (Some name_node) \<and> y_string Y name_node = Inr (name c) \<and>
       y_member Y program ''path'' = Inr (Some path_node) \<and> y_string Y path_node = Inr (path c) \<and>
       parse_lists Y program = Inr e \<and> args c = e_args e \<and> capabilities c = e_capabilities e \<and>
       before c = e_before e \<and> after c = e_after e \<and>
       ptype c = (if map tolower (e_type e) = ''simple'' then SIMPLE else ONESHOT) \<and>
       (\<exists>white. parse_flags Y program = Inr (want_tty c, want_default_env c, white, env_extra_vars c) \<and>
         allowed_env_vars c = default_allowed_env_vars @ white) \<and>
       state c = BLOCKED \<and> conditions c = [] \<and> graph_id c = i)"

lemma make_child_entry:
  assumes "y_member Y program ''name'' = Inr (Some name_node)" and "y_string Y name_node = Inr nm"
    and "y_member Y program ''path'' = Inr (Some path_node)" and "y_string Y path_node = Inr pth"
    and "parse_lists Y program = Inr e" and "parse_flags Y program = Inr (tty, denv, white, extra)"
    and "make_child (ChildProcess P nm pth (e_args e) (e_type e) (e_capabilities e) u g i (e_before e) (e_after e)
      tty denv white extra) (s\<lparr>calls := tr\<rparr>) = (p, s1)"
  shows "\<exists>c. p = next_ref s \<and> objects s1 = (objects s)(next_ref s \<mapsto> c) \<and> entry_child Y program i c \<and> uid c = u \<and> gid c = g"
proof -
  obtain c tr' where c: "ChildProcess P nm pth (e_args e) (e_type e) (e_capabilities e) u g i (e_before e) (e_after e)
      tty denv white extra tr = (c, tr')"
    by fastforce
  then have "entry_child Y program i c \<and> uid c = u \<and> gid c = g"
    using assms(1-6) by (auto simp: entry_child_def ChildProcess_def syscall_def Let_def)
  with assms(7) c show ?thesis
    by (auto simp: make_child_def register_for_process_state_def Let_def)
qed

text \<open>
  C25. What an entry that is read without an error becomes. If it has no name or no path, nothing: configuration, tables and
  trace stay as they were. Otherwise one new object at the end of the list of processes, with the next number, the
  settings of the entry, the user and the group that \<open>resolve_ids\<close> gives, blocked, and known to the handler under its number.
\<close>

theorem entry_becomes_child:
  assumes run: "parse_program P Y program (cfg, s) = (Inr (), (cfg', t))"
  shows "if y_member Y program ''name'' = Inr None \<or> y_member Y program ''path'' = Inr None
    then (cfg', t) = (cfg, s)
    else \<exists>c u g. entry_child Y program (word_of_int (child_counter cfg)) c \<and>
       fst (resolve_ids P Y program (calls s)) = Inr (u, g) \<and> uid c = word_of_int u \<and> gid c = word_of_int g \<and>
       processes cfg' = processes cfg @ [next_ref s] \<and> child_counter cfg' = child_counter cfg + 1 \<and>
       objects t = (objects s)(next_ref s \<mapsto> c) \<and>
       omap_find (obj_for_id t) (word_of_int (child_counter cfg)) = Some (Some (next_ref s))"
proof -
  define i :: u32 where "i = word_of_int (child_counter cfg)"
  have id: "get_id c = i" if "entry_child Y program i c" for c
    using that by (auto simp: entry_child_def get_id_def)
  define Q where "Q = (\<lambda>(cfg' :: config) (t :: sys). \<exists>c u g. entry_child Y program i c \<and>
       fst (resolve_ids P Y program (calls s)) = Inr (u, g) \<and> uid c = word_of_int u \<and> gid c = word_of_int g \<and>
       processes cfg' = processes cfg @ [next_ref s] \<and> child_counter cfg' = child_counter cfg + 1 \<and>
       objects t = (objects s)(next_ref s \<mapsto> c) \<and> omap_find (obj_for_id t) i = Some (Some (next_ref s)))"
  have made: "Q (cfg\<lparr>processes := processes cfg @ [p], child_counter := child_counter cfg + 1\<rparr>)
      (register_obj_id (case objects s1 p of Some c \<Rightarrow> sint (get_id c) | None \<Rightarrow> 0) (Some p) s1)"
    if "y_member Y program ''name'' = Inr (Some name_node)" "y_string Y name_node = Inr nm"
      "y_member Y program ''path'' = Inr (Some path_node)" "y_string Y path_node = Inr pth"
      "parse_lists Y program = Inr e" "parse_flags Y program = Inr (tty, denv, white, extra)"
      "resolve_ids P Y program (calls s) = (Inr (u, g), tr)"
      "make_child (ChildProcess P nm pth (e_args e) (e_type e) (e_capabilities e) (word_of_int u) (word_of_int g)
        (word_of_int (child_counter cfg)) (e_before e) (e_after e) tty denv white extra) (s\<lparr>calls := tr\<rparr>) = (p, s1)"
    for name_node nm path_node pth e tty denv white extra u g tr p s1
  proof -
    from make_child_entry [OF that(1-6,8)] obtain c where c: "p = next_ref s" "objects s1 = (objects s)(next_ref s \<mapsto> c)"
      "entry_child Y program i c" "uid c = word_of_int u" "gid c = word_of_int g" by (auto simp: i_def)
    show ?thesis
      unfolding Q_def by (intro exI [of _ c] exI [of _ u] exI [of _ g]) (simp add: c that(7) register_obj_id_def id [OF c(3)])
  qed
  have "Q cfg' t" if "\<not> (y_member Y program ''name'' = Inr None \<or> y_member Y program ''path'' = Inr None)"
    using run that
    by (auto simp: parse_program_def lift_exn_def Let_def split: sum.splits prod.splits if_splits
        elim!: andThen_cases) (rule made; assumption)+
  moreover have "(cfg', t) = (cfg, s)" if "y_member Y program ''name'' = Inr None \<or> y_member Y program ''path'' = Inr None"
    using run that by (auto simp: parse_program_def lift_exn_def split: sum.splits option.splits if_splits elim!: andThen_cases)
  ultimately show ?thesis by (simp add: Q_def i_def)
qed

theorem entry_becomes_child_witness:
  "(\<exists>cfg' t. parse_program (plain_platform 1) (document_yaml example_document) example_program (empty_config, ProcessHandler) =
      (Inr (), (cfg', t)) \<and> (\<exists>c. entry_child (document_yaml example_document) example_program 0 c \<and> objects t 0 = Some c)) \<and>
   (\<exists>cfg' t. parse_program (plain_platform 1) (document_yaml example_document) (Mapping []) (empty_config, ProcessHandler) =
      (Inr (), (cfg', t)) \<and> (cfg', t) = (empty_config, ProcessHandler))"
proof
  let ?run = "\<lambda>d. parse_program (plain_platform 1) (document_yaml example_document) d (empty_config, ProcessHandler)"
  have "\<not> isl (fst (?run example_program))" by code_simp
  then have r: "?run example_program = (Inr (), (fst (snd (?run example_program)), snd (snd (?run example_program))))"
    by (cases "fst (?run example_program)") (auto simp: prod_eq_iff)
  from entry_becomes_child [OF r]
  have "\<exists>c. entry_child (document_yaml example_document) example_program 0 c \<and>
      objects (snd (snd (?run example_program))) = [0 \<mapsto> c]"
    by (auto simp: example_program_def empty_config_def ProcessHandler_def)
  then have "\<exists>c. entry_child (document_yaml example_document) example_program 0 c \<and>
      objects (snd (snd (?run example_program))) 0 = Some c"
    by fastforce
  with r show "\<exists>cfg' t. ?run example_program = (Inr (), (cfg', t)) \<and>
      (\<exists>c. entry_child (document_yaml example_document) example_program 0 c \<and> objects t 0 = Some c)"
    by blast
  have r2: "?run (Mapping []) = (Inr (), (empty_config, ProcessHandler))"
    by (simp add: parse_program_def lift_exn_def)
  from entry_becomes_child [OF r2] r2
  show "\<exists>cfg' t. ?run (Mapping []) = (Inr (), (cfg', t)) \<and> (cfg', t) = (empty_config, ProcessHandler)" by auto
qed

section \<open>A directory of files\<close>

lemma load_file_entries:
  assumes "y_load_file Y file = Inr root" and "y_member Y root ''programs'' = Inr (Some node)"
  shows "load_file P Y file = for_each (parse_program P Y) (y_elems Y node)"
  using assms by (simp add: fun_eq_iff load_file_def parse_file_def lift_exn_def)

lemma for_each_concat:
  assumes "\<And>x. x \<in> set xs \<Longrightarrow> f x = for_each g (h x)"
  shows "for_each f xs s = for_each g (concat (map h xs)) s"
  using assms
proof (induction xs arbitrary: s)
  case (Cons x xs)
  then have "for_each f xs = for_each g (concat (map h xs))" by (simp add: fun_eq_iff)
  with Cons.prems show ?case by (simp add: for_each_append)
qed simp

text \<open>
  C27. A directory is read like a single file: if each of the files can be loaded and has the member \<open>programs\<close>, the
  constructor for several files does what the constructor for one file does with a file that holds the entries of all of
  them, one after the other. This includes the numbers, the objects, and the point at which reading is given up.
\<close>

theorem directory_is_one_file:
  assumes "\<And>f. f \<in> set files \<Longrightarrow>
      \<exists>root node. y_load_file Y f = Inr root \<and> y_member Y root ''programs'' = Inr (Some node) \<and> y_elems Y node = entries f"
    and "y_load_file Y file = Inr root" and "y_member Y root ''programs'' = Inr (Some node)"
    and "y_elems Y node = concat (map entries files)" and "\<not> is_dir file"
  shows "Config_files P Y files s = Config_path P Y is_dir file s"
proof -
  have "load_file P Y f = for_each (parse_program P Y) (entries f)" if "f \<in> set files" for f
    using assms(1) [OF that] load_file_entries by metis
  then have "Config_files P Y files s = for_each (parse_program P Y) (concat (map entries files)) (empty_config, s)"
    unfolding Config_files_def by (rule for_each_concat)
  with load_file_entries [OF assms(2,3)] assms(4,5) show ?thesis by (simp add: Config_path_def)
qed

definition file_documents :: "string \<Rightarrow> document list" where
  "file_documents f = (if f = ''a.yml'' then [example_program] else if f = ''b.yml'' then [] else [example_program])"

theorem directory_is_one_file_witness:
  "let Y = (document_yaml example_document)\<lparr>y_load_file := \<lambda>f. Inr (Mapping [(''programs'', Seq (file_documents f))])\<rparr>
   in Config_files (plain_platform 1) Y [''a.yml'', ''b.yml''] ProcessHandler = Config_path (plain_platform 1) Y (\<lambda>f. False) ''all.yml'' ProcessHandler"
  unfolding Let_def
  by (rule directory_is_one_file [where entries = file_documents and root = "Mapping [(''programs'', Seq [example_program])]"
        and node = "Seq [example_program]"])
    (simp_all add: document_yaml_def file_documents_def)

end
