(* ===== verification/Event_Loop.thy ===== *)
theory Event_Loop
  imports Process_Handler
begin

text \<open>
  \<open>ProcessHandler::setup_signal_handlers\<close> and \<open>ProcessHandler::enter_eventloop\<close>. The loop has no
  bound in the source; here a fuel bounds the passes of the event loop, of the loop over exited
  children and of the retry loops around system calls. Running out of it is the outcome \<open>No_fuel\<close>.
\<close>

section \<open>Set-up\<close>

definition MAX_EVENTS :: nat where "MAX_EVENTS = 10"

definition handled_signals :: "u32 list" where
  "handled_signals = [SIGCHLD, SIGINT, SIGQUIT]"

definition setup_signal_handlers :: "platform \<Rightarrow> sys \<Rightarrow> unit res \<times> sys" where
  "setup_signal_handlers P s =
     (let (r, s) = sys_call P (Sys_sigprocmask_block handled_signals) s in
      if ret r = -1 then throw_handler s else
      let (r, s) = sys_call P (Sys_signalfd handled_signals) s;
          s = s\<lparr>signal_fd := ret r\<rparr> in
      if signal_fd s = -1 then throw_handler s else
      let (r, s) = sys_call P Sys_epoll_create s;
          s = s\<lparr>epoll_fd := ret r\<rparr> in
      if epoll_fd s = -1 then throw_handler s else
      let (r, s) = sys_call P (Sys_epoll_ctl_add (epoll_fd s) (signal_fd s) EPOLLIN) s in
      if ret r = -1 then throw_handler s else (Inr (), s))"

section \<open>One pass\<close>

text \<open>\<open>while ((pid = waitpid(-1, &rc, WNOHANG)) > 0) sigchld_received(pid, rc);\<close>\<close>

fun reap :: "platform \<Rightarrow> nat \<Rightarrow> sys \<Rightarrow> unit res \<times> sys" where
  "reap P 0 s = (Inl No_fuel, s)"
| "reap P (Suc n) s =
     (let (r, s) = sys_call P Sys_waitpid s in
      if ret r > 0 then andThen (sigchld_received (ret r) (out_num r) s) (\<lambda>_. reap P n)
      else (Inr (), s))"

text \<open>The pass returns \<open>Some rc\<close> when the loop returns \<open>rc\<close>, and \<open>None\<close> when it goes on.\<close>

definition loop_end :: "platform \<Rightarrow> nat \<Rightarrow> sys \<Rightarrow> int option res \<times> sys" where
  "loop_end P n s =
     (if number_of_running_procs s = 0 \<and> should_quit s then (Inr (Some 0), s)
      else if \<not> should_quit s then
        andThen (start_programs P n s) (\<lambda>_ s.
          if number_of_running_procs s = 0 then (Inr (Some 0), s) else (Inr None, s))
      else (Inr None, s))"

definition dispatch_events :: "platform \<Rightarrow> (int \<times> u32) list \<Rightarrow> sys \<Rightarrow> unit res \<times> sys" where
  "dispatch_events P events = for_each (\<lambda>(fd, event). event_received P fd event) events"

definition loop_pass :: "platform \<Rightarrow> nat \<Rightarrow> sys \<Rightarrow> int option res \<times> sys" where
  "loop_pass P n s =
     andThen (start_programs P n s) (\<lambda>_ s.
       let (r, s) = sys_call P (Sys_epoll_wait (epoll_fd s) MAX_EVENTS 1000) s;
           num_fds = ret r;
           events = take (nat num_fds) (out_events r) in
       andThen (reap P n s) (\<lambda>_ s.
         andThen (if num_fds > 0 then dispatch_events P events s else (Inr (), s)) (\<lambda>_ s.
           loop_end P n s)))"

fun event_loop :: "platform \<Rightarrow> nat \<Rightarrow> sys \<Rightarrow> int res \<times> sys" where
  "event_loop P 0 s = (Inl No_fuel, s)"
| "event_loop P (Suc n) s =
     andThen (loop_pass P n s) (\<lambda>result s.
       case result of Some rc \<Rightarrow> (Inr rc, s) | None \<Rightarrow> event_loop P n s)"

definition enter_eventloop :: "platform \<Rightarrow> nat \<Rightarrow> sys \<Rightarrow> int res \<times> sys" where
  "enter_eventloop P n s =
     andThen (setup_signal_handlers P s) (\<lambda>_ s.
       andThen (start_programs P n s) (\<lambda>_ s. event_loop P n s))"

section \<open>Lemmas\<close>

lemma emit_to_frame: "emit_to e d r s = (res, t) \<Longrightarrow> calls t = calls s \<and> res \<noteq> Inl No_fuel"
  by (auto simp: emit_to_def split: option.splits)

lemma sigchld_received_frame:
  assumes "sigchld_received pid rc s = (res, t)"
  shows "calls t = calls s \<and> res \<noteq> Inl No_fuel"
proof -
  have loop: "calls t = calls s \<and> res \<noteq> Inl No_fuel" if "for_each (emit_to EXIT rc) slots s = (res, t)" for slots s res t
    using that
  proof (induction slots arbitrary: s)
    case (Cons r slots)
    then show ?case by (auto elim!: andThen_cases dest: emit_to_frame)
  qed auto
  show ?thesis using assms
    by (auto simp: sigchld_received_def Let_def split: option.splits elim!: andThen_cases dest: loop)
qed

lemma event_loop_result: "event_loop P n s = (Inr rc, t) \<Longrightarrow> rc = 0 \<and> number_of_running_procs t = 0"
proof (induction P n s rule: event_loop.induct)
  case (2 P n s)
  then obtain result u where u: "loop_pass P n s = (Inr result, u)"
    and rest: "(case result of Some rc \<Rightarrow> (Inr rc, u) | None \<Rightarrow> event_loop P n u) = (Inr rc, t)"
    by (auto simp: andThen_Inr_iff)
  show ?case
  proof (cases result)
    case None
    with rest "2.IH" show ?thesis by simp
  next
    case (Some x)
    from u Some obtain v where "loop_end P n v = (Inr (Some x), u)"
      by (auto simp: loop_pass_def andThen_Inr_iff Let_def sys_call_def)
    then have "x = 0 \<and> number_of_running_procs u = 0"
      by (auto simp: loop_end_def andThen_Inr_iff split: if_splits)
    with Some rest show ?thesis by simp
  qed
qed simp

section \<open>Properties\<close>

text \<open>
  When the set-up succeeds, exactly \<open>SIGCHLD\<close>, \<open>SIGINT\<close> and \<open>SIGQUIT\<close> are blocked and read from the signal
  descriptor, which is watched by the epoll descriptor; \<open>SIGTERM\<close>, to which the handler would react, is not among them.
\<close>

theorem setup_watches_signals:
  assumes "setup_signal_handlers P s = (Inr (), t)"
  shows "map fst (calls t) =
      [Sys_epoll_ctl_add (epoll_fd t) (signal_fd t) EPOLLIN, Sys_epoll_create,
       Sys_signalfd [SIGCHLD, SIGINT, SIGQUIT], Sys_sigprocmask_block [SIGCHLD, SIGINT, SIGQUIT]] @ map fst (calls s) \<and>
    epoll_fd t \<noteq> -1 \<and> signal_fd t \<noteq> -1 \<and> SIGTERM \<notin> set handled_signals"
  using assms
  by (auto simp: setup_signal_handlers_def sys_call_def throw_handler_def Let_def handled_signals_def
      SIGTERM_def SIGCHLD_def SIGINT_def SIGQUIT_def split: if_splits)

theorem setup_watches_signals_witness:
  "epoll_fd (snd (setup_signal_handlers (plain_platform 1) example_sys)) \<noteq> -1"
proof -
  have "fst (setup_signal_handlers (plain_platform 1) example_sys) = Inr ()"
    by (simp add: setup_signal_handlers_def sys_call_def plain_platform_def plain_kernel_def ok_reply_def Let_def)
  then have "setup_signal_handlers (plain_platform 1) example_sys =
      (Inr (), snd (setup_signal_handlers (plain_platform 1) example_sys))"
    by (metis prod.collapse)
  from setup_watches_signals [OF this] show ?thesis by blast
qed

text \<open>
  C29. The loop over exited children ends: if some measure of the past goes down whenever \<open>waitpid\<close> reports a
  child (there are only so many children), as much fuel as that measure is enough.
\<close>

theorem reap_terminates:
  assumes "\<And>tr. 0 < ret (os P tr Sys_waitpid) \<Longrightarrow> \<mu> ((Sys_waitpid, os P tr Sys_waitpid) # tr) < \<mu> tr"
    and "\<mu> (calls s) < n"
  shows "fst (reap P n s) \<noteq> Inl No_fuel"
  using assms(2)
proof (induction n arbitrary: s)
  case (Suc n)
  let ?r = "os P (calls s) Sys_waitpid"
  let ?s = "s\<lparr>calls := (Sys_waitpid, ?r) # calls s\<rparr>"
  show ?case
  proof (cases "0 < ret ?r")
    case True
    obtain res t where t: "sigchld_received (ret ?r) (out_num ?r) ?s = (res, t)" by fastforce
    then have c: "calls t = calls ?s" "res \<noteq> Inl No_fuel" using sigchld_received_frame by blast+
    have "\<mu> (calls t) < n" using c(1) assms(1) [OF True] Suc.prems by simp
    from Suc.IH [OF this] show ?thesis
      using True t c(2) by (cases res) (simp_all add: sys_call_def)
  qed (simp add: sys_call_def)
qed simp

theorem reap_terminates_witness:
  "fst (reap ((plain_platform 1)\<lparr>os := \<lambda>tr call. if length tr < 3 then ok_reply\<lparr>ret := 7\<rparr> else ok_reply\<rparr>) 9 example_sys) \<noteq> Inl No_fuel"
  by (rule reap_terminates [where \<mu> = "\<lambda>tr. 3 - length tr"])
    (auto simp: ok_reply_def example_sys_def ProcessHandler_def split: if_splits)

lemma start_program_ignores_quit:
  "start_program P n w (s\<lparr>should_quit := b\<rparr>) =
     (fst (start_program P n w s), (snd (start_program P n w s))\<lparr>should_quit := b\<rparr>)"
  by (auto simp: start_program_def try_start_def sys_call_def catch_std_def Let_def
      split: option.split prod.split sum.split stop.split)

text \<open>
  Starting programs does not look at the flag to quit: with the flag set, \<open>start_programs\<close>, which begins every pass of
  the event loop, does exactly what it does without, so programs are still started while scinit is shutting down.
\<close>

theorem start_programs_ignores_quit:
  "start_programs P n (s\<lparr>should_quit := b\<rparr>) =
     (fst (start_programs P n s), (snd (start_programs P n s))\<lparr>should_quit := b\<rparr>)"
proof -
  have loop: "for_each (start_program P n) ws (s\<lparr>should_quit := b\<rparr>) =
      (fst (for_each (start_program P n) ws s), (snd (for_each (start_program P n) ws s))\<lparr>should_quit := b\<rparr>)" for ws s
  proof (induction ws arbitrary: s)
    case (Cons w ws)
    then show ?case
      by (cases "start_program P n w s"; cases "fst (start_program P n w s)") (auto simp: start_program_ignores_quit)
  qed simp
  have note1: "notify_one w (s\<lparr>should_quit := b\<rparr>) = (notify_one w s)\<lparr>should_quit := b\<rparr>" for w s
    by (auto simp: notify_one_def split: option.split)
  have "fold notify_one ws (s\<lparr>should_quit := b\<rparr>) = (fold notify_one ws s)\<lparr>should_quit := b\<rparr>" for ws
    by (induction ws arbitrary: s) (simp_all add: note1)
  then show ?thesis by (simp add: start_programs_def Let_def loop)
qed

end
