(* ===== verification/Main_Program.thy ===== *)
theory Main_Program
  imports Config Event_Loop
begin

text \<open>
  \<open>main.cpp\<close>: the command line selects a file or a directory, the configuration creates the
  processes, the handler registers them and runs the event loop. Parsing the command line and
  looking at the file system is done by the Boost libraries, whose results are parameters.
\<close>

record options =
  opt_help :: bool
  opt_config :: string
  opt_verbose :: bool

record filesystem =
  fs_exists :: "string \<Rightarrow> bool"
  fs_is_directory :: "string \<Rightarrow> bool"
  fs_regular_files :: "string \<Rightarrow> string list"

text \<open>The result is the configuration, or \<open>None\<close> for the null pointer.\<close>

definition handle_commandline_invocation ::
  "platform \<Rightarrow> 'n yaml \<Rightarrow> filesystem \<Rightarrow> options \<Rightarrow> sys \<Rightarrow> config option res \<times> sys" where
  "handle_commandline_invocation P Y F options s =
     (if opt_help options then (Inl (Exit_process 0), s) else
      let (lg, s) = sys_call P (Log_create ''scinit'') s in
      if ret lg \<noteq> 0 then (Inl (Throw (Std_exception (out_text lg))), s) else
      let config = opt_config options in
      if \<not> fs_exists F config then (Inr None, s) else
      case (if fs_is_directory F config then Config_files P Y (fs_regular_files F config) s
            else Config_path P Y (fs_is_directory F) config s) of
        (Inl e, (cfg, s)) \<Rightarrow> (Inl e, s)
      | (Inr _, (cfg, s)) \<Rightarrow> (Inr (Some cfg), s))"

definition main_scinit ::
  "platform \<Rightarrow> 'n yaml \<Rightarrow> filesystem \<Rightarrow> options \<Rightarrow> nat \<Rightarrow> int res \<times> sys" where
  "main_scinit P Y F options n =
     andThen (handle_commandline_invocation P Y F options ProcessHandler) (\<lambda>conf s.
       case conf of
         None \<Rightarrow> (Inr (-1), s)
       | Some cfg \<Rightarrow>
           let child_list = get_processes cfg;
               s = register_processes child_list s in
           enter_eventloop P n s)"

end
