(* ===== verification/Supervision.thy ===== *)
theory Supervision
  imports Event_Loop
begin

text \<open>
  What the handler maintains while it supervises its children: the tables agree with the objects
  (\<open>wired\<close>, \<open>tracked\<close>), the table of process ids holds children that the kernel has not reported
  (\<open>known_pids\<close>), and no process leaves \<open>BLOCKED\<close> before the processes it waits for have reached
  the state it waits for (\<open>order_respected\<close>). Every operation is shown to keep this invariant,
  and the event loop is shown to be a sequence of these operations.
\<close>

section \<open>How objects may change while the loop runs\<close>

definition successor :: "child \<Rightarrow> child \<Rightarrow> bool" where
  "successor c c' \<longleftrightarrow>
     name c' = name c \<and> graph_id c' = graph_id c \<and> ptype c' = ptype c \<and>
     conditions c' = conditions c \<and> settings c' = settings c \<and> lives (state c) (state c')"

definition evolves :: "store \<Rightarrow> store \<Rightarrow> bool" where
  "evolves h h' \<longleftrightarrow> (\<forall>r. rel_option successor (h r) (h' r))"

lemma successor_refl [simp]: "successor c c"
  by (simp add: successor_def)

lemma successor_trans: "successor a b \<Longrightarrow> successor b c \<Longrightarrow> successor a c"
  by (auto simp: successor_def intro: lives_trans)

lemma evolves_refl [simp]: "evolves h h"
  by (simp add: evolves_def option.rel_refl)

lemma evolves_trans: "evolves a b \<Longrightarrow> evolves b c \<Longrightarrow> evolves a c"
  unfolding evolves_def
proof
  fix r
  assume "\<forall>r. rel_option successor (a r) (b r)" "\<forall>r. rel_option successor (b r) (c r)"
  then have "rel_option successor (a r) (b r)" "rel_option successor (b r) (c r)" by blast+
  then show "rel_option successor (a r) (c r)"
    by (cases "a r"; cases "b r"; cases "c r") (auto intro: successor_trans)
qed

lemma evolves_update: "h r = Some c \<Longrightarrow> successor c c' \<Longrightarrow> evolves h (h(r \<mapsto> c'))"
  by (auto simp: evolves_def option.rel_refl)

lemma evolves_Some: "evolves h h' \<Longrightarrow> h r = Some c \<Longrightarrow> \<exists>c'. h' r = Some c' \<and> successor c c'"
  unfolding evolves_def by (metis option_rel_Some1)

lemma evolves_Some_back: "evolves h h' \<Longrightarrow> h' r = Some c' \<Longrightarrow> \<exists>c. h r = Some c \<and> successor c c'"
  unfolding evolves_def by (metis option_rel_Some2)

lemma notify_of_state_successor: "successor c (notify_of_state procs h c)"
  by (simp add: successor_def notify_of_state_lives)

section \<open>The invariant\<close>

definition wired :: "sys \<Rightarrow> bool" where
  "wired s \<longleftrightarrow>
     (\<forall>r c. objects s r = Some c \<longrightarrow>
        omap_find (obj_for_id s) (graph_id c) = Some (Some r) \<and>
        omap_find (sig_for_id s) (sint (graph_id c)) = Some [r])"

definition running_at :: "store \<Rightarrow> ref \<Rightarrow> u32 \<Rightarrow> int \<Rightarrow> bool" where
  "running_at h r i pid \<longleftrightarrow>
     (\<exists>c. h r = Some c \<and> state c = RUNNING \<and> graph_id c = i \<and> primaryPid c = pid)"

definition tracked :: "sys \<Rightarrow> bool" where
  "tracked s \<longleftrightarrow>
     omap_ok (id_for_pid s) \<and>
     number_of_running_procs s = int (length (id_for_pid s)) \<and>
     (\<forall>pid i. omap_find (id_for_pid s) pid = Some i \<longrightarrow> (\<exists>r. running_at (objects s) r i pid)) \<and>
     (\<forall>r i pid. running_at (objects s) r i pid \<longrightarrow> omap_find (id_for_pid s) pid = Some i)"

definition known_pids :: "sys \<Rightarrow> bool" where
  "known_pids s \<longleftrightarrow> (\<forall>pid. omap_find (id_for_pid s) pid \<noteq> None \<longrightarrow> 0 < pid \<and> pid \<in> outstanding (calls s))"

definition reached :: "sys \<Rightarrow> u32 \<times> ProcessState \<Rightarrow> bool" where
  "reached s cond \<longleftrightarrow>
     (\<exists>r other. omap_find (obj_for_id s) (fst cond) = Some (Some r) \<and> objects s r = Some other \<and>
        lives (snd cond) (state other))"

text \<open>
  A set of objects is exempt: those that became ready before the last \<open>before\<close> naming them had been
  propagated (theory \<open>Registration\<close>).
\<close>

definition order_respected :: "ref set \<Rightarrow> sys \<Rightarrow> bool" where
  "order_respected E s \<longleftrightarrow>
     (\<forall>r c. r \<notin> E \<longrightarrow> objects s r = Some c \<longrightarrow> state c \<noteq> BLOCKED \<longrightarrow> (\<forall>cond\<in>set (conditions c). reached s cond))"

definition sys_inv :: "ref set \<Rightarrow> sys \<Rightarrow> bool" where
  "sys_inv E s \<longleftrightarrow> wired s \<and> tracked s \<and> known_pids s \<and> order_respected E s"

lemma wired_same_id:
  "wired s \<Longrightarrow> objects s r = Some c \<Longrightarrow> objects s r' = Some c' \<Longrightarrow> graph_id c = graph_id c' \<Longrightarrow> r = r'"
  unfolding wired_def by (metis option.inject)

text \<open>Entries of \<open>obj_for_id\<close> that hold an object stay.\<close>

definition keeps_objs :: "sys \<Rightarrow> sys \<Rightarrow> bool" where
  "keeps_objs s t \<longleftrightarrow>
     (\<forall>i r. omap_find (obj_for_id s) i = Some (Some r) \<longrightarrow> omap_find (obj_for_id t) i = Some (Some r))"

lemma keeps_objs_refl [simp]: "keeps_objs s s"
  by (simp add: keeps_objs_def)

lemma keeps_objs_same: "obj_for_id t = obj_for_id s \<Longrightarrow> keeps_objs s t"
  by (simp add: keeps_objs_def)

lemma keeps_objs_trans: "keeps_objs s t \<Longrightarrow> keeps_objs t u \<Longrightarrow> keeps_objs s u"
  by (simp add: keeps_objs_def)

lemma keeps_objs_index: "obj_for_id t = snd (omap_index None i (obj_for_id s)) \<Longrightarrow> keeps_objs s t"
  by (auto simp: keeps_objs_def omap_index_def split: option.splits)

lemma wired_step:
  assumes "wired s" and ev: "evolves (objects s) (objects t)" and "keeps_objs s t"
    and "sig_for_id t = sig_for_id s"
  shows "wired t"
  unfolding wired_def
proof (intro allI impI)
  fix r c'
  assume "objects t r = Some c'"
  from evolves_Some_back [OF ev this] obtain c where "objects s r = Some c" "graph_id c' = graph_id c"
    by (auto simp: successor_def)
  with assms show "omap_find (obj_for_id t) (graph_id c') = Some (Some r) \<and>
      omap_find (sig_for_id t) (sint (graph_id c')) = Some [r]"
    by (auto simp: wired_def keeps_objs_def)
qed

lemma reached_step:
  assumes "reached s cond" and ev: "evolves (objects s) (objects t)" and "keeps_objs s t"
  shows "reached t cond"
proof -
  from assms(1) obtain r c where "omap_find (obj_for_id s) (fst cond) = Some (Some r)"
    and c: "objects s r = Some c" and l: "lives (snd cond) (state c)"
    by (auto simp: reached_def)
  moreover from evolves_Some [OF ev c] obtain c' where "objects t r = Some c'" "lives (state c) (state c')"
    by (auto simp: successor_def)
  ultimately show ?thesis
    using assms(3) lives_trans [OF l] by (auto simp: reached_def keeps_objs_def)
qed

lemma condition_holds_reached: "condition_holds (obj_for_id s) (objects s) cond \<Longrightarrow> reached s cond"
  unfolding condition_holds_def reached_def by (metis lives_refl)

lemma order_respected_step:
  assumes "order_respected E s" and ev: "evolves (objects s) (objects t)" and "keeps_objs s t"
    and unblocked: "\<And>r c c'. objects s r = Some c \<Longrightarrow> objects t r = Some c' \<Longrightarrow> state c = BLOCKED \<Longrightarrow>
      state c' \<noteq> BLOCKED \<Longrightarrow> \<forall>cond\<in>set (conditions c). condition_holds (obj_for_id s) (objects s) cond"
  shows "order_respected E t"
  unfolding order_respected_def
proof (intro allI impI ballI)
  fix r c' cond
  assume r: "r \<notin> E" and c': "objects t r = Some c'" "state c' \<noteq> BLOCKED" and cond: "cond \<in> set (conditions c')"
  from evolves_Some_back [OF ev c'(1)] obtain c where c: "objects s r = Some c" "successor c c'" by blast
  then have cond: "cond \<in> set (conditions c)" using cond by (simp add: successor_def)
  have "reached s cond"
  proof (cases "state c = BLOCKED")
    case True
    then show ?thesis using unblocked [OF c(1) c'(1)] c'(2) cond condition_holds_reached by blast
  next
    case False
    then show ?thesis using assms(1) r c(1) cond by (simp add: order_respected_def)
  qed
  then show "reached t cond" by (rule reached_step [OF _ ev assms(3)])
qed

section \<open>Operations that do not concern the processes\<close>

definition bystander :: "sys \<Rightarrow> sys \<Rightarrow> bool" where
  "bystander s t \<longleftrightarrow>
     objects t = objects s \<and> id_for_pid t = id_for_pid s \<and> sig_for_id t = sig_for_id s \<and>
     all_objs t = all_objs s \<and> number_of_running_procs t = number_of_running_procs s \<and>
     keeps_objs s t \<and> quiet_ext (calls s) (calls t)"

lemma bystander_refl [simp]: "bystander s s"
  by (simp add: bystander_def)

lemma bystander_trans: "bystander s t \<Longrightarrow> bystander t u \<Longrightarrow> bystander s u"
  by (auto simp: bystander_def intro: keeps_objs_trans quiet_ext_trans)

lemma bystander_inv: "bystander s t \<Longrightarrow> sys_inv E s \<Longrightarrow> sys_inv E t"
  using wired_step [of s t] order_respected_step [of E s t]
  by (auto simp: bystander_def sys_inv_def tracked_def known_pids_def outstanding_quiet)

lemma sys_call_bystander: "quiet_call c \<Longrightarrow> bystander s (snd (sys_call P c s))"
  by (simp add: sys_call_def bystander_def keeps_objs_def quiet_ext_Cons)

lemma sys_call_from: "bystander s t \<Longrightarrow> quiet_call c \<Longrightarrow> sys_call P c t = (r, u) \<Longrightarrow> bystander s u"
  using bystander_trans sys_call_bystander by (metis snd_conv)

lemma forward_signal_bystander: "bystander s t \<Longrightarrow> bystander s (forward_signal P sig m t)"
proof (induction P sig m t rule: forward_signal.induct)
  case (2 P sig pair rest t)
  have "quiet_call (Sys_kill (fst pair) sig)" by (simp add: quiet_call_def)
  from sys_call_from [OF "2.prems" this] "2.IH" show ?case
    by (auto simp: Let_def split: prod.splits)
qed simp

lemma signal_received_bystander: "bystander s (signal_received P sig s)"
proof -
  have "bystander s (forward_signal P x (id_for_pid s) s)" for x
    by (rule forward_signal_bystander) simp
  then show ?thesis
    by (auto simp: signal_received_def Let_def bystander_def keeps_objs_def)
qed

lemma handle_child_output_bystander: "handle_child_output P fd str s = (r, t) \<Longrightarrow> bystander s t"
  by (auto simp: handle_child_output_def Let_def sys_call_def bystander_def keeps_objs_def quiet_rules
      split: option.splits if_splits FDType.splits)

lemma hang_up_bystander: "hang_up P fd s = (r, t) \<Longrightarrow> bystander s t"
  by (auto simp: hang_up_def Let_def sys_call_def throw_handler_def bystander_def quiet_rules
      omap_index_def keeps_objs_def split: option.splits if_splits prod.splits)

lemma read_signal_bystander: "read_signal P s = (r, t) \<Longrightarrow> bystander s t"
  using signal_received_bystander sys_call_bystander [of "Sys_read (signal_fd s) sizeof_signalfd_siginfo" s P]
  by (auto simp: read_signal_def Let_def throw_handler_def quiet_call_def
      split: prod.splits if_splits intro: bystander_trans)

lemma read_output_bystander: "read_output P fd s = (r, t) \<Longrightarrow> bystander s t"
  using sys_call_bystander [of "Sys_read fd BUF_SIZE" s P]
  by (auto simp: read_output_def Let_def quiet_call_def split: prod.splits if_splits sum.splits
      intro: bystander_trans dest: handle_child_output_bystander)

lemma event_received_bystander: "event_received P fd event s = (r, t) \<Longrightarrow> bystander s t"
  by (auto simp: event_received_def throw_handler_def split: if_splits
      dest: read_signal_bystander read_output_bystander hang_up_bystander)

lemma dispatch_events_bystander:
  assumes "dispatch_events P evs s = (r, t)"
  shows "bystander s t"
  using assms unfolding dispatch_events_def
  by (rule for_each_invariant [where P = "bystander s", rotated 2])
    (auto dest: event_received_bystander intro: bystander_trans)

section \<open>Operations that move processes\<close>

definition advances :: "sys \<Rightarrow> sys \<Rightarrow> bool" where
  "advances s t \<longleftrightarrow>
     evolves (objects s) (objects t) \<and> keeps_objs s t \<and> sig_for_id t = sig_for_id s \<and>
     all_objs t = all_objs s"

lemma advances_refl [simp]: "advances s s"
  by (simp add: advances_def)

lemma advances_trans: "advances s t \<Longrightarrow> advances t u \<Longrightarrow> advances s u"
  by (auto simp: advances_def intro: evolves_trans keeps_objs_trans)

lemma bystander_advances: "bystander s t \<Longrightarrow> advances s t"
  by (simp add: bystander_def advances_def)

subsection \<open>Notification\<close>

lemma notify_one_objects:
  "objects (notify_one w s) =
     (case lock (objects s) w of
        Some (r, c) \<Rightarrow> (objects s)(r \<mapsto> notify_of_state (obj_for_id s) (objects s) c)
      | None \<Rightarrow> objects s)"
  by (auto simp: notify_one_def split: option.splits)

lemma notify_one_frame [simp, frame_simps]:
  "obj_for_id (notify_one w s) = obj_for_id s"
  "sig_for_id (notify_one w s) = sig_for_id s"
  "id_for_pid (notify_one w s) = id_for_pid s"
  "all_objs (notify_one w s) = all_objs s"
  "number_of_running_procs (notify_one w s) = number_of_running_procs s"
  "calls (notify_one w s) = calls s"
  "should_quit (notify_one w s) = should_quit s"
  by (auto simp: notify_one_def split: option.splits)

lemma notify_one_advances: "advances s (notify_one w s)"
  by (auto simp: advances_def notify_one_objects lock_Some_iff notify_of_state_successor
      intro!: keeps_objs_same evolves_update split: option.splits)

lemma notify_of_state_RUNNING:
  "state (notify_of_state procs h c) = RUNNING \<longleftrightarrow> state c = RUNNING"
  by (auto simp: notify_of_state_alt)

lemma running_at_notify_one: "running_at (objects (notify_one w s)) = running_at (objects s)"
  by (intro ext) (auto simp: running_at_def notify_one_objects lock_Some_iff notify_of_state_RUNNING
      split: option.splits)

lemma notify_one_inv: "sys_inv E s \<Longrightarrow> sys_inv E (notify_one w s)"
proof -
  assume inv: "sys_inv E s"
  have adv: "advances s (notify_one w s)" by (rule notify_one_advances)
  have "wired (notify_one w s)"
    using wired_step [of s "notify_one w s"] inv adv by (simp add: sys_inv_def advances_def)
  moreover have "tracked (notify_one w s)"
    using inv by (simp add: sys_inv_def tracked_def running_at_notify_one)
  moreover have "order_respected E (notify_one w s)"
  proof (rule order_respected_step [of E s])
    show "order_respected E s" "evolves (objects s) (objects (notify_one w s))" "keeps_objs s (notify_one w s)"
      using inv adv by (simp_all add: sys_inv_def advances_def)
    fix r c c'
    assume c: "objects s r = Some c" and c': "objects (notify_one w s) r = Some c'"
      and st: "state c = BLOCKED" "state c' \<noteq> BLOCKED"
    have "c' = c \<or> c' = notify_of_state (obj_for_id s) (objects s) c"
      using c c' by (simp add: notify_one_objects lock_Some_iff split: option.splits prod.splits if_splits)
    with st show "\<forall>cond\<in>set (conditions c). condition_holds (obj_for_id s) (objects s) cond"
      by (metis notify_of_state_alt)
  qed
  ultimately show ?thesis using inv by (simp add: sys_inv_def known_pids_def)
qed

subsection \<open>Starting a program\<close>

lemma try_start_Inr:
  assumes "try_start P n r c s = (Inr (), t)"
  obtains c' tr1 where
    "state c = READY" and "successor c c'" and "state c' = RUNNING"
    and "objects t = (objects s)(r \<mapsto> c')"
    and "quiet_ext (calls s) tr1" and "primaryPid c' = ret (os P tr1 Sys_fork)"
    and "quiet_ext ((Sys_fork, os P tr1 Sys_fork) # tr1) (calls t)"
    and "outstanding (calls t) = insert (primaryPid c') (outstanding (calls s))"
    and "id_for_pid t = omap_insert (primaryPid c') (graph_id c) (id_for_pid s)"
    and "number_of_running_procs t = number_of_running_procs s + 1"
    and "obj_for_id t = obj_for_id s" and "sig_for_id t = sig_for_id s" and "all_objs t = all_objs s"
    and "primaryPid c' \<noteq> 0"
proof -
  define lg where "lg = os P (calls s) (Log_create (get_name c))"
  define tr0 where "tr0 = (Log_create (get_name c), lg) # calls s"
  have sc: "sys_call P (Log_create (get_name c)) s = (lg, s\<lparr>calls := tr0\<rparr>)"
    by (simp add: sys_call_def lg_def tr0_def)
  have q0: "quiet_ext (calls s) tr0" by (simp add: tr0_def quiet_rules)
  obtain res c' reg tr where df: "do_fork P n (c, id_for_pid s, tr0) = (res, (c', reg, tr))"
    by (metis prod.exhaust)
  obtain res2 m types tr2 where rg:
    "register_with_epoll P (epoll_fd s) c' (id_for_fd s, fd_type s, tr) = (res2, (m, types, tr2))"
    by (metis prod.exhaust)
  have res: "res = Inr ()" and t: "t = s\<lparr>objects := (objects s)(r \<mapsto> c'), id_for_pid := reg, calls := tr2,
      id_for_fd := m, fd_type := types, num_fd_for_id := omap_insert (get_id c') 2 (num_fd_for_id s),
      number_of_running_procs := number_of_running_procs s + 1\<rparr>"
    using assms unfolding try_start_def sc Let_def prod.case
    by (auto simp: df rg split: if_splits sum.splits)
  have q2: "quiet_ext tr tr2" using register_with_epoll_outcome [OF rg] by simp
  from do_fork_Inr [OF df [unfolded res]] obtain c1 tr1 env rp where
    rd: "state c = READY" and op: "open_channels P n (c, tr0) = (Inr (), (c1, tr1))" and
    rp: "rp = os P tr1 Sys_fork" and c': "c' = c1\<lparr>primaryPid := ret rp, state := RUNNING\<rparr>" and
    reg: "reg = omap_insert (ret rp) (graph_id c) (id_for_pid s)" and
    q: "quiet_ext ((Sys_fork, rp) # tr1) tr" and nz: "ret rp \<noteq> 0"
    by metis
  have ch: "same_but_channels c c1" and q1: "quiet_ext tr0 tr1"
    using open_channels_outcome [OF op] by simp_all
  have q01: "quiet_ext (calls s) tr1" by (rule quiet_ext_trans [OF q0 q1])
  have "outstanding tr2 = insert (ret rp) (outstanding (calls s))"
    using outstanding_quiet [OF quiet_ext_trans [OF q q2]] outstanding_quiet [OF q01] by simp
  moreover have "successor c c'"
    using rd by (simp add: successor_def c' same_but_channels_fields [OF ch])
  moreover have "quiet_ext ((Sys_fork, os P tr1 Sys_fork) # tr1) tr2"
    using quiet_ext_trans [OF q q2] rp by simp
  ultimately show thesis
    using rd c' rp reg q01 nz by (intro that [of c' tr1]) (simp_all add: t)
qed

text \<open>
  An exception that is caught came from the logging library, from the template engine or from
  another library before the fork; the process is still ready.
\<close>

lemma try_start_caught:
  assumes run: "try_start P n r c s = (Inl (Throw e), t)" and "caught_as_std_exception e"
    and c: "objects s r = Some c"
  obtains c' where "same_but_channels c c'" and "objects t = (objects s)(r \<mapsto> c')"
    and "id_for_pid t = id_for_pid s" and "sig_for_id t = sig_for_id s" and "obj_for_id t = obj_for_id s"
    and "all_objs t = all_objs s" and "number_of_running_procs t = number_of_running_procs s"
    and "quiet_ext (calls s) (calls t)"
proof -
  define lg where "lg = os P (calls s) (Log_create (get_name c))"
  define tr0 where "tr0 = (Log_create (get_name c), lg) # calls s"
  have sc: "sys_call P (Log_create (get_name c)) s = (lg, s\<lparr>calls := tr0\<rparr>)"
    by (simp add: sys_call_def lg_def tr0_def)
  have q0: "quiet_ext (calls s) tr0" by (simp add: tr0_def quiet_rules)
  obtain res c' reg tr where df: "do_fork P n (c, id_for_pid s, tr0) = (res, (c', reg, tr))"
    by (metis prod.exhaust)
  obtain res2 m types tr2 where rg:
    "register_with_epoll P (epoll_fd s) c' (id_for_fd s, fd_type s, tr) = (res2, (m, types, tr2))"
    by (metis prod.exhaust)
  show thesis
  proof (cases "ret lg = 0")
    case False
    have [simp]: "(objects s)(r \<mapsto> c) = objects s" using c by auto
    from False run have "t = s\<lparr>calls := tr0\<rparr>"
      unfolding try_start_def sc Let_def prod.case by simp
    with q0 show thesis by (intro that [of c]) simp_all
  next
    case True
    with run have "(case res of Inl e \<Rightarrow> (Inl e, s\<lparr>calls := tr0, objects := (objects s)(r \<mapsto> c'), id_for_pid := reg, calls := tr\<rparr>)
        | Inr _ \<Rightarrow> (case res2 of Inl e \<Rightarrow> (Inl e, t) | Inr _ \<Rightarrow> (Inr (), t))) = (Inl (Throw e), t)"
      unfolding try_start_def sc Let_def prod.case by (auto simp: df rg split: sum.splits)
    then have res: "res = Inl (Throw e)" and t: "t = s\<lparr>objects := (objects s)(r \<mapsto> c'), id_for_pid := reg, calls := tr\<rparr>"
      using register_with_epoll_outcome [OF rg] assms(2) by (auto split: sum.splits)
    from do_fork_Throw [OF df [unfolded res]] have "reg = id_for_pid s" "same_but_channels c c'" "quiet_ext tr0 tr"
      by simp_all
    with quiet_ext_trans [OF q0] show thesis by (intro that [of c']) (simp_all add: t)
  qed
qed

lemma running_at_update:
  "running_at (h(r \<mapsto> c)) r' i pid \<longleftrightarrow>
     (if r' = r then state c = RUNNING \<and> graph_id c = i \<and> primaryPid c = pid else running_at h r' i pid)"
  by (simp add: running_at_def)

lemma tracked_pid: "tracked s \<Longrightarrow> omap_find (id_for_pid s) pid = Some i \<Longrightarrow> \<exists>r. running_at (objects s) r i pid"
  by (simp add: tracked_def)

lemma tracked_running: "tracked s \<Longrightarrow> running_at (objects s) r i pid \<Longrightarrow> omap_find (id_for_pid s) pid = Some i"
  by (simp add: tracked_def)

lemma tracked_started:
  assumes tr: "tracked s" and c: "objects s r = Some c" "state c = READY"
    and c': "state c' = RUNNING" "graph_id c' = graph_id c"
    and fresh: "omap_find (id_for_pid s) (primaryPid c') = None"
    and t: "objects t = (objects s)(r \<mapsto> c')"
      "id_for_pid t = omap_insert (primaryPid c') (graph_id c) (id_for_pid s)"
      "number_of_running_procs t = number_of_running_procs s + 1"
  shows "tracked t"
proof -
  have notr: "\<not> running_at (objects s) r i pid" for i pid
    using c by (simp add: running_at_def)
  have "\<exists>r'. running_at (objects t) r' i pid" if "omap_find (id_for_pid t) pid = Some i" for pid i
  proof (cases "pid = primaryPid c'")
    case True
    with that have "running_at (objects t) r i pid"
      by (simp add: t c' running_at_update)
    then show ?thesis ..
  next
    case False
    with that obtain r' where "running_at (objects s) r' i pid"
      using tracked_pid [OF tr, of pid i] by (auto simp: t)
    with notr have "running_at (objects t) r' i pid" by (auto simp: t running_at_update)
    then show ?thesis ..
  qed
  moreover have "omap_find (id_for_pid t) pid = Some i" if "running_at (objects t) r' i pid" for r' i pid
    using that tr fresh c' by (auto simp: t running_at_update tracked_def split: if_splits)
  ultimately show ?thesis
    using tr fresh by (auto simp: t tracked_def omap_size_insert)
qed

text \<open>The three ways in which an attempt to start a program returns.\<close>

lemma start_program_cases:
  assumes run: "start_program P n w s = (Inr (), t)"
  obtains (skipped) "t = s"
    | (started) r c where "objects s r = Some c" and "state c = READY" and "try_start P n r c s = (Inr (), t)"
    | (caught) r c x where "objects s r = Some c" and "state c = READY" and "try_start P n r c s = (Inl (Throw x), t)"
        and "caught_as_std_exception x"
proof (cases "\<exists>r c. lock (objects s) w = Some (r, c) \<and> state c = READY")
  case False
  then have "t = s" using run
    by (auto simp: start_program_def can_start_now_def split: option.splits if_splits)
  then show thesis by (rule skipped)
next
  case True
  then obtain r c where c: "objects s r = Some c" "state c = READY" and w: "lock (objects s) w = Some (r, c)"
    by (auto simp: lock_Some_iff)
  obtain res u where ts: "try_start P n r c s = (res, u)" by fastforce
  have "catch_std (res, u) = (Inr (), t)"
    using run by (simp add: start_program_def w c can_start_now_def ts)
  then have "u = t" and "res = Inr () \<or> (\<exists>x. res = Inl (Throw x) \<and> caught_as_std_exception x)"
    by (auto simp: catch_std_def split: sum.splits stop.splits if_splits)
  with c ts show thesis using started caught by blast
qed

text \<open>For the invariant it is enough that blocked objects are left alone.\<close>

lemma sys_inv_advances:
  assumes inv: "sys_inv E s" and adv: "advances s t" and "tracked t" and "known_pids t"
    and same: "\<And>r c c'. objects s r = Some c \<Longrightarrow> state c = BLOCKED \<Longrightarrow> objects t r = Some c' \<Longrightarrow> c' = c"
  shows "sys_inv E t"
proof -
  from inv have wd: "wired s" and od: "order_respected E s" by (simp_all add: sys_inv_def)
  have "wired t" using adv by (intro wired_step [OF wd]) (simp_all add: advances_def)
  moreover have "order_respected E t"
  proof (rule order_respected_step [OF od])
    show "evolves (objects s) (objects t)" "keeps_objs s t" using adv by (simp_all add: advances_def)
    show "\<forall>cond\<in>set (conditions d). condition_holds (obj_for_id s) (objects s) cond"
      if "objects s r' = Some d" "objects t r' = Some d'" "state d = BLOCKED" "state d' \<noteq> BLOCKED" for r' d d'
      using same [OF that(1,3,2)] that by simp
  qed
  ultimately show ?thesis using assms(3,4) by (simp add: sys_inv_def)
qed

lemma try_start_inv:
  assumes inv: "sys_inv E s" and fork: "fork_gives_fresh_pid P" and c: "objects s r = Some c" "state c = READY"
    and run: "try_start P n r c s = (Inr (), t)"
  shows "sys_inv E t \<and> advances s t"
proof -
  from try_start_Inr [OF run] obtain c' tr1 where
    f: "successor c c'" "state c' = RUNNING" "objects t = (objects s)(r \<mapsto> c')"
      "quiet_ext (calls s) tr1" "primaryPid c' = ret (os P tr1 Sys_fork)"
      "outstanding (calls t) = insert (primaryPid c') (outstanding (calls s))"
      "id_for_pid t = omap_insert (primaryPid c') (graph_id c) (id_for_pid s)"
      "number_of_running_procs t = number_of_running_procs s + 1"
      "obj_for_id t = obj_for_id s" "sig_for_id t = sig_for_id s" "all_objs t = all_objs s"
    by metis
  from inv have tk: "tracked s" and kp: "known_pids s" by (simp_all add: sys_inv_def)
  have adv: "advances s t"
    using f c(1) by (simp add: advances_def keeps_objs_same evolves_update)
  have pos: "0 < primaryPid c'" "primaryPid c' \<notin> outstanding (calls s)"
    using fork f(5) outstanding_quiet [OF f(4)] by (auto simp: fork_gives_fresh_pid_def)
  then have "omap_find (id_for_pid s) (primaryPid c') = None"
    using kp by (auto simp: known_pids_def)
  with pos f c tk have "tracked t"
    by (intro tracked_started [of s r c c' t]) (auto simp: successor_def)
  moreover have "known_pids t" using kp f pos by (auto simp: known_pids_def)
  moreover have "c'' = d" if "objects s r' = Some d" "state d = BLOCKED" "objects t r' = Some c''" for r' d c''
    using that f(3) c by (auto split: if_splits)
  ultimately have "sys_inv E t" by (rule sys_inv_advances [OF inv adv])
  with adv show ?thesis by simp
qed

lemma try_start_caught_inv:
  assumes inv: "sys_inv E s" and c: "objects s r = Some c" "state c = READY"
    and run: "try_start P n r c s = (Inl (Throw x), t)" and "caught_as_std_exception x"
  shows "sys_inv E t \<and> advances s t"
proof -
  from run obtain c' where
    f: "same_but_channels c c'" "objects t = (objects s)(r \<mapsto> c')"
      "id_for_pid t = id_for_pid s" "sig_for_id t = sig_for_id s" "obj_for_id t = obj_for_id s"
      "all_objs t = all_objs s" "number_of_running_procs t = number_of_running_procs s"
      "quiet_ext (calls s) (calls t)"
    by (rule try_start_caught [OF _ assms(5) c(1)])
  from inv have tk: "tracked s" and kp: "known_pids s" by (simp_all add: sys_inv_def)
  have sc: "successor c c'" by (simp add: successor_def same_but_channels_fields [OF f(1)])
  have adv: "advances s t"
    using f sc c(1) by (simp add: advances_def keeps_objs_same evolves_update)
  have "running_at (objects t) = running_at (objects s)"
    using c by (intro ext) (simp add: f running_at_update same_but_channels_fields [OF f(1)], simp add: running_at_def)
  then have "tracked t" using tk by (simp add: tracked_def f)
  moreover have "known_pids t" using kp f outstanding_quiet [OF f(8)] by (simp add: known_pids_def)
  moreover have "c'' = d" if "objects s r' = Some d" "state d = BLOCKED" "objects t r' = Some c''" for r' d c''
    using that f(2) c by (auto split: if_splits)
  ultimately have "sys_inv E t" by (rule sys_inv_advances [OF inv adv])
  with adv show ?thesis by simp
qed

lemma start_program_inv:
  assumes inv: "sys_inv E s" and fork: "fork_gives_fresh_pid P"
    and run: "start_program P n w s = (Inr (), t)"
  shows "sys_inv E t \<and> advances s t"
  using run
proof (cases rule: start_program_cases)
  case skipped
  with inv show ?thesis by simp
next
  case (started r c)
  with inv fork show ?thesis by (intro try_start_inv)
next
  case (caught r c x)
  with inv show ?thesis by (intro try_start_caught_inv)
qed

lemma notify_all_inv:
  "sys_inv E s \<Longrightarrow> sys_inv E (fold notify_one ws s) \<and> advances s (fold notify_one ws s)"
proof (induction ws arbitrary: s)
  case (Cons w ws)
  have "sys_inv E (notify_one w s)" by (rule notify_one_inv [OF Cons.prems])
  from Cons.IH [OF this] advances_trans [OF notify_one_advances] show ?case by auto
qed simp

lemma all_objs_notify_all [simp]: "all_objs (fold notify_one ws s) = all_objs s"
  by (induction ws arbitrary: s) simp_all

lemma start_programs_inv:
  assumes inv: "sys_inv E s" and fork: "fork_gives_fresh_pid P"
    and run: "start_programs P n s = (Inr (), t)"
  shows "sys_inv E t \<and> advances s t"
proof -
  let ?u = "fold notify_one (all_objs s) s"
  from run have loop: "for_each (start_program P n) (all_objs s) ?u = (Inr (), t)"
    by (simp add: start_programs_def Let_def)
  show ?thesis
  proof (rule for_each_invariant_Inr [OF _ _ loop, where P = "\<lambda>t. sys_inv E t \<and> advances s t"])
    show "sys_inv E ?u \<and> advances s ?u" by (rule notify_all_inv [OF inv])
    fix w u v
    assume u: "sys_inv E u \<and> advances s u" and step: "start_program P n w u = (Inr (), v)"
    from start_program_inv [OF _ fork step, of E] u have "sys_inv E v" "advances u v" by simp_all
    with u show "sys_inv E v \<and> advances s v" by (blast intro: advances_trans)
  qed
qed

subsection \<open>Exit of a child\<close>

text \<open>Between \<open>waitpid\<close> and the end of \<open>sigchld_received\<close> the table may hold the reaped process.\<close>

definition known_pids_but :: "int \<Rightarrow> sys \<Rightarrow> bool" where
  "known_pids_but pid s \<longleftrightarrow>
     (\<forall>p. omap_find (id_for_pid s) p \<noteq> None \<longrightarrow> 0 < p \<and> (p = pid \<or> p \<in> outstanding (calls s)))"

lemma tracked_exited:
  assumes tr: "tracked s" and pid: "omap_find (id_for_pid s) pid = Some i"
    and r: "running_at (objects s) r i pid" and c': "state c' \<noteq> RUNNING"
    and same: "\<And>r' j. running_at (objects s) r' j pid \<Longrightarrow> r' = r"
    and t: "objects t = (objects s)(r \<mapsto> c')" "id_for_pid t = omap_erase pid (id_for_pid s)"
      "number_of_running_procs t = number_of_running_procs s - 1"
  shows "tracked t"
proof -
  have "\<exists>r'. running_at (objects t) r' j p" if "omap_find (id_for_pid t) p = Some j" for p j
  proof -
    from that have p: "p \<noteq> pid" "omap_find (id_for_pid s) p = Some j" by (auto simp: t split: if_splits)
    with tracked_pid [OF tr] obtain r' where r': "running_at (objects s) r' j p" by blast
    with p r have "r' \<noteq> r" by (auto simp: running_at_def)
    with r' have "running_at (objects t) r' j p" by (simp add: t running_at_update)
    then show ?thesis ..
  qed
  moreover have "omap_find (id_for_pid t) p = Some j" if "running_at (objects t) r' j p" for r' j p
  proof -
    from that c' have "r' \<noteq> r" and r': "running_at (objects s) r' j p"
      by (auto simp: t running_at_update split: if_splits)
    with same have "p \<noteq> pid" by blast
    with tr r' show ?thesis by (simp add: t tracked_def)
  qed
  ultimately show ?thesis
    using tr pid omap_size_erase [of "id_for_pid s" pid] by (auto simp: t tracked_def)
qed

lemma sigchld_received_inv:
  assumes "wired s" and "tracked s" and "order_respected E s" and kp: "known_pids_but pid s"
    and run: "sigchld_received pid rc s = (res, t)"
  shows "res = Inr () \<and> sys_inv E t \<and> advances s t"
proof (cases "omap_find (id_for_pid s) pid")
  case None
  then have "res = Inr ()" "t = s" using run by (simp_all add: sigchld_received_def)
  moreover have "known_pids s" using kp None by (auto simp: known_pids_def known_pids_but_def)
  ultimately show ?thesis using assms by (simp add: sys_inv_def)
next
  case (Some i)
  with tracked_pid [OF assms(2)] obtain r where r: "running_at (objects s) r i pid" by blast
  then obtain c where c: "objects s r = Some c" "state c = RUNNING" "graph_id c = i" "primaryPid c = pid"
    by (auto simp: running_at_def)
  have w: "omap_find (obj_for_id s) i = Some (Some r)" "omap_find (sig_for_id s) (sint i) = Some [r]"
    using assms(1) c by (auto simp: wired_def)
  let ?c' = "handle_process_event EXIT rc c"
  have t: "res = Inr ()" "objects t = (objects s)(r \<mapsto> ?c')" "id_for_pid t = omap_erase pid (id_for_pid s)"
      "number_of_running_procs t = number_of_running_procs s - 1" "obj_for_id t = obj_for_id s"
      "sig_for_id t = sig_for_id s" "all_objs t = all_objs s" "calls t = calls s"
    using run Some w c by (auto simp: sigchld_received_def Let_def emit_to_def)
  have sc: "successor c ?c'" using c by (simp add: successor_def)
  have adv: "advances s t" using t c sc by (simp add: advances_def keeps_objs_same evolves_update)
  have same: "r' = r" if "running_at (objects s) r' j pid" for r' j
  proof -
    from that assms(2) Some have "j = i" by (auto simp: tracked_def)
    with that c wired_same_id [OF assms(1)] show ?thesis by (auto simp: running_at_def)
  qed
  have "tracked t"
    by (rule tracked_exited [OF assms(2) Some r _ same t(2,3,4)]) auto
  moreover have "known_pids t" using kp t by (auto simp: known_pids_def known_pids_but_def)
  moreover have "wired t" using wired_step [OF assms(1)] adv by (simp add: advances_def)
  moreover have "order_respected E t"
  proof (rule order_respected_step [OF assms(3)])
    show "evolves (objects s) (objects t)" "keeps_objs s t" using adv by (simp_all add: advances_def)
    show "\<forall>cond\<in>set (conditions d). condition_holds (obj_for_id s) (objects s) cond"
      if "objects s r' = Some d" "objects t r' = Some d'" "state d = BLOCKED" "state d' \<noteq> BLOCKED" for r' d d'
      using that c t(2) by (cases "r' = r") simp_all
  qed
  ultimately show ?thesis using adv t by (simp add: sys_inv_def)
qed

section \<open>The supervisor as a transition system\<close>

text \<open>
  One step is one of the operations that the event loop performs, in any order: starting what can
  be started, asking for an exited child and handling its exit, waiting for events, and handling
  an event.
\<close>

inductive step :: "platform \<Rightarrow> sys \<Rightarrow> sys \<Rightarrow> bool" for P where
  start: "start_programs P n s = (Inr (), t) \<Longrightarrow> step P s t"
| exited: "sys_call P Sys_waitpid s = (r, u) \<Longrightarrow> 0 < ret r \<Longrightarrow>
     sigchld_received (ret r) (out_num r) u = (Inr (), t) \<Longrightarrow> step P s t"
| none_exited: "sys_call P Sys_waitpid s = (r, t) \<Longrightarrow> ret r \<le> 0 \<Longrightarrow> step P s t"
| wait: "sys_call P (Sys_epoll_wait fd k ms) s = (r, t) \<Longrightarrow> step P s t"
| event: "event_received P fd ev s = (Inr (), t) \<Longrightarrow> step P s t"

text \<open>Invariants of single steps and preorders respected by them hold along runs.\<close>

locale preserved =
  fixes move :: "'s \<Rightarrow> 's \<Rightarrow> bool"
    and inv :: "'s \<Rightarrow> bool"
    and rel :: "'s \<Rightarrow> 's \<Rightarrow> bool"
  assumes rel_refl: "rel s s"
    and rel_trans: "rel s t \<Longrightarrow> rel t u \<Longrightarrow> rel s u"
    and move_inv: "inv s \<Longrightarrow> move s t \<Longrightarrow> inv t \<and> rel s t"
begin

lemma run_inv: "move\<^sup>*\<^sup>* s t \<Longrightarrow> inv s \<Longrightarrow> inv t \<and> rel s t"
proof (induction rule: rtranclp_induct)
  case base
  then show ?case by (simp add: rel_refl)
next
  case (step u v)
  then show ?case using move_inv [of u v] rel_trans [of s u v] by blast
qed

end

lemma waited_inv:
  assumes inv: "sys_inv E s" and w: "sys_call P Sys_waitpid s = (r, u)"
  shows "wired u" and "tracked u" and "order_respected E u" and "known_pids_but (ret r) u" and "advances s u"
proof -
  have u: "u = s\<lparr>calls := (Sys_waitpid, r) # calls s\<rparr>" using w by (auto simp: sys_call_def)
  show "wired u" "tracked u" "order_respected E u" "known_pids_but (ret r) u" "advances s u"
    using inv by (auto simp: u sys_inv_def wired_def tracked_def known_pids_def known_pids_but_def
        order_respected_def reached_def advances_def keeps_objs_def)
qed

lemma step_inv:
  assumes "step P s t" and inv: "sys_inv E s" and fork: "fork_gives_fresh_pid P"
  shows "sys_inv E t \<and> advances s t"
  using assms(1)
proof cases
  case (start n)
  then show ?thesis by (rule start_programs_inv [OF inv fork])
next
  case (exited r u)
  from waited_inv [OF inv exited(1)] show ?thesis
    using sigchld_received_inv [of u E "ret r" "out_num r" "Inr ()" t] exited(3) advances_trans [of s u t] by simp
next
  case (none_exited r)
  have t: "t = s\<lparr>calls := (Sys_waitpid, r) # calls s\<rparr>"
    using none_exited(1) by (auto simp: sys_call_def)
  have "known_pids t" using inv none_exited(2) by (fastforce simp: t sys_inv_def known_pids_def)
  then show ?thesis
    using inv by (simp add: t sys_inv_def wired_def tracked_def order_respected_def reached_def
        advances_def keeps_objs_def)
next
  case (wait fd k ms r)
  then have "bystander s t" using sys_call_bystander [of "Sys_epoll_wait fd k ms" s P] by (simp add: quiet_call_def)
  then show ?thesis using inv by (simp add: bystander_inv bystander_advances)
next
  case (event fd ev)
  from event_received_bystander [OF event] show ?thesis using inv bystander_inv bystander_advances by blast
qed

interpretation machine: preserved "step P" "\<lambda>s. fork_gives_fresh_pid P \<and> sys_inv E s" advances for P E
  using step_inv by unfold_locales (auto intro: advances_trans)

section \<open>The event loop performs steps\<close>

lemma reap_steps: "reap P n s = (Inr (), t) \<Longrightarrow> (step P)\<^sup>*\<^sup>* s t"
proof (induction P n s rule: reap.induct)
  case (2 P n s)
  obtain r u where w: "sys_call P Sys_waitpid s = (r, u)" by fastforce
  show ?case
  proof (cases "0 < ret r")
    case True
    with "2.prems" w obtain v where v: "sigchld_received (ret r) (out_num r) u = (Inr (), v)" "reap P n v = (Inr (), t)"
      by (auto simp: andThen_Inr_iff)
    have "step P s v" by (rule step.exited [OF w True v(1)])
    moreover have "(step P)\<^sup>*\<^sup>* v t" using "2.IH" [of "(r, u)" r u v] w True v(2) by simp
    ultimately show ?thesis by (rule converse_rtranclp_into_rtranclp)
  next
    case False
    with "2.prems" w have "t = u" by simp
    with w False have "step P s t" by (intro step.none_exited) auto
    then show ?thesis ..
  qed
qed simp

lemma dispatch_steps: "dispatch_events P evs s = (Inr (), t) \<Longrightarrow> (step P)\<^sup>*\<^sup>* s t"
  unfolding dispatch_events_def
proof (induction evs arbitrary: s)
  case (Cons e evs)
  obtain fd ev where e: "e = (fd, ev)" by (cases e)
  from Cons.prems obtain u where "event_received P fd ev s = (Inr (), u)"
    and u: "for_each (\<lambda>(fd, event). event_received P fd event) evs u = (Inr (), t)"
    by (auto simp: e andThen_Inr_iff)
  then have "step P s u" by (auto intro: step.event)
  then show ?case using Cons.IH [OF u] by (rule converse_rtranclp_into_rtranclp)
qed simp

lemma loop_end_steps: "loop_end P n s = (Inr x, t) \<Longrightarrow> (step P)\<^sup>*\<^sup>* s t"
  by (auto simp: loop_end_def andThen_Inr_iff split: if_splits intro: step.start)

lemma loop_pass_steps: "loop_pass P n s = (Inr x, t) \<Longrightarrow> (step P)\<^sup>*\<^sup>* s t"
proof -
  assume run: "loop_pass P n s = (Inr x, t)"
  then obtain u1 where st: "start_programs P n s = (Inr (), u1)"
    by (auto simp: loop_pass_def andThen_Inr_iff)
  obtain r u2 where w: "sys_call P (Sys_epoll_wait (epoll_fd u1) MAX_EVENTS 1000) u1 = (r, u2)" by fastforce
  from run obtain u3 u4 where
    re: "reap P n u2 = (Inr (), u3)" and
    di: "(if ret r > 0 then dispatch_events P (take (nat (ret r)) (out_events r)) u3 else (Inr (), u3)) = (Inr (), u4)" and
    le: "loop_end P n u4 = (Inr x, t)"
    by (auto simp: loop_pass_def st w andThen_Inr_iff Let_def)
  from st have "step P s u1" by (auto intro: step.start)
  moreover from w have "step P u1 u2" by (rule step.wait)
  moreover from re have "(step P)\<^sup>*\<^sup>* u2 u3" by (rule reap_steps)
  moreover from di have "(step P)\<^sup>*\<^sup>* u3 u4" by (auto dest: dispatch_steps split: if_splits)
  moreover from le have "(step P)\<^sup>*\<^sup>* u4 t" by (rule loop_end_steps)
  ultimately show ?thesis by (meson converse_rtranclp_into_rtranclp rtranclp_trans)
qed

lemma event_loop_steps: "event_loop P n s = (Inr x, t) \<Longrightarrow> (step P)\<^sup>*\<^sup>* s t"
proof (induction P n s rule: event_loop.induct)
  case (2 P n s)
  then obtain result u where u: "loop_pass P n s = (Inr result, u)"
    and rest: "(case result of Some rc \<Rightarrow> (Inr rc, u) | None \<Rightarrow> event_loop P n u) = (Inr x, t)"
    by (auto simp: andThen_Inr_iff)
  from loop_pass_steps [OF u] have su: "(step P)\<^sup>*\<^sup>* s u" .
  show ?case
  proof (cases result)
    case None
    with rest "2.IH" have "(step P)\<^sup>*\<^sup>* u t" by simp
    with su show ?thesis by (rule rtranclp_trans)
  next
    case (Some rc)
    with rest su show ?thesis by simp
  qed
qed simp

end
