(* ===== verification/Registration.thy ===== *)
theory Registration
  imports Supervision
begin

text \<open>
  What \<open>register_processes\<close> establishes: which processes wait for which after the dependencies
  have been propagated, which of them are ready at once, and when the invariant of the
  supervision holds to begin with.
\<close>

section \<open>Passes over the store\<close>

text \<open>
  Operations on the store, one per element of some container, that leave a projection of every
  object as it is: so does the loop over the container.
\<close>

locale store_pass =
  fixes pass :: "'x \<Rightarrow> store \<Rightarrow> store" and proj :: "child \<Rightarrow> 'p"
  assumes keeps: "map_option proj (pass x h r) = map_option proj (h r)"
begin

lemma fold_keeps: "map_option proj (fold pass xs h r) = map_option proj (h r)"
  by (induction xs arbitrary: h) (simp_all add: keeps)

lemma fold_Some: "h r = Some c \<Longrightarrow> \<exists>c'. fold pass xs h r = Some c' \<and> proj c' = proj c"
  using fold_keeps [of xs h r] by auto

lemma fold_Some_back: "fold pass xs h r = Some c' \<Longrightarrow> \<exists>c. h r = Some c \<and> proj c' = proj c"
  using fold_keeps [of xs h r] by (metis map_option_eq_Some)

end

definition static :: "child \<Rightarrow> string \<times> u32 \<times> ProcessType \<times> child_settings" where
  "static c = (name c, graph_id c, ptype c, settings c)"

definition profile :: "child \<Rightarrow> (string \<times> u32 \<times> ProcessType \<times> child_settings) \<times> string list \<times> string list \<times> ProcessState" where
  "profile c = (static c, before c, after c, state c)"

lemma profile_should_wait_for [simp]: "profile (should_wait_for c i s) = profile c"
  by (simp add: profile_def static_def)

lemma profile_propagate_one:
  "map_option profile (propagate_one this d b w h r) = map_option profile (h r)"
  by (auto simp: propagate_one_def lock_Some_iff split: option.splits)

interpretation one: store_pass "propagate_one this d b" profile for this d b
  by unfold_locales (rule profile_propagate_one)

interpretation func: store_pass "\<lambda>d. propagate_func this others b d" profile for this others b
  by unfold_locales (simp add: propagate_func_def one.fold_keeps)

section \<open>The processes waited for\<close>

definition cond_ids :: "store \<Rightarrow> ref \<Rightarrow> u32 set" where
  "cond_ids h r = (case h r of Some c \<Rightarrow> fst ` set (conditions c) | None \<Rightarrow> {})"

definition id_set :: "store \<Rightarrow> ref \<Rightarrow> u32 set" where
  "id_set h r = (case h r of Some c \<Rightarrow> {graph_id c} | None \<Rightarrow> {})"

definition named :: "store \<Rightarrow> ref \<Rightarrow> string \<Rightarrow> bool" where
  "named h r n \<longleftrightarrow> (case h r of Some c \<Rightarrow> name c = n | None \<Rightarrow> False)"

lemma named_iff: "named h r n \<longleftrightarrow> (\<exists>c. h r = Some c \<and> name c = n)"
  by (simp add: named_def split: option.split)

definition before_list :: "store \<Rightarrow> ref \<Rightarrow> string list" where
  "before_list h r = (case h r of Some c \<Rightarrow> before c | None \<Rightarrow> [])"

definition after_list :: "store \<Rightarrow> ref \<Rightarrow> string list" where
  "after_list h r = (case h r of Some c \<Rightarrow> after c | None \<Rightarrow> [])"

lemma fst_should_wait_for:
  "fst ` set (conditions (should_wait_for c i s)) = insert i (fst ` set (conditions c))"
  by (auto simp: should_wait_for_conditions)

lemma static_cong:
  assumes "\<And>r. map_option static (h' r) = map_option static (h r)"
  shows "id_set h' = id_set h" "named h' = named h"
proof -
  have "id_set h' r = id_set h r \<and> named h' r n = named h r n" for r n
    using assms [of r] by (cases "h r"; cases "h' r") (simp_all add: id_set_def named_iff static_def)
  then show "id_set h' = id_set h" "named h' = named h" by (simp_all add: fun_eq_iff)
qed

lemma profile_cong:
  assumes "\<And>r. map_option profile (h' r) = map_option profile (h r)"
  shows "id_set h' = id_set h" "named h' = named h"
    "before_list h' = before_list h" "after_list h' = after_list h"
proof -
  have "map_option static (h' r) = map_option static (h r)" for r
    using assms [of r] by (cases "h r"; cases "h' r") (simp_all add: profile_def)
  from static_cong [of h' h, OF this] show "id_set h' = id_set h" "named h' = named h" by simp_all
  have "before_list h' r = before_list h r \<and> after_list h' r = after_list h r" for r
    using assms [of r] by (cases "h r"; cases "h' r")
      (simp_all add: before_list_def after_list_def profile_def)
  then show "before_list h' = before_list h" "after_list h' = after_list h" by (simp_all add: fun_eq_iff)
qed

lemma propagate_one_before:
  "h this = Some me \<Longrightarrow>
   cond_ids (propagate_one this d True w h) r =
     cond_ids h r \<union> (if w = Some r \<and> named h r d then id_set h this else {})"
  by (auto simp: propagate_one_def cond_ids_def id_set_def named_iff lock_def get_name_def
      fst_should_wait_for split: option.splits if_splits)

lemma propagate_one_after:
  "h this = Some me \<Longrightarrow>
   cond_ids (propagate_one this d False w h) r =
     cond_ids h r \<union> (if r = this then (\<Union>q\<in>{q. w = Some q \<and> named h q d}. id_set h q) else {})"
  by (auto simp: propagate_one_def cond_ids_def id_set_def named_iff lock_def get_name_def get_id_def
      fst_should_wait_for split: option.splits if_splits)

lemma fold_before:
  "h this = Some me \<Longrightarrow>
   cond_ids (fold (propagate_one this d True) ws h) r =
     cond_ids h r \<union> (if Some r \<in> set ws \<and> named h r d then id_set h this else {})"
proof (induction ws arbitrary: h me)
  case (Cons w ws)
  let ?h = "propagate_one this d True w h"
  obtain me' where me': "?h this = Some me'" using one.keeps [of this d True w h this] Cons.prems by auto
  show ?case
    using Cons.IH [of ?h me', OF me'] propagate_one_before [of h this me d w r, OF Cons.prems]
      profile_cong [of ?h h, OF one.keeps]
    by auto
qed simp

lemma fold_after:
  "h this = Some me \<Longrightarrow>
   cond_ids (fold (propagate_one this d False) ws h) r =
     cond_ids h r \<union> (if r = this then (\<Union>q\<in>{q. Some q \<in> set ws \<and> named h q d}. id_set h q) else {})"
proof (induction ws arbitrary: h me)
  case (Cons w ws)
  let ?h = "propagate_one this d False w h"
  obtain me' where me': "?h this = Some me'" using one.keeps [of this d False w h this] Cons.prems by auto
  show ?case
    using Cons.IH [of ?h me', OF me'] propagate_one_after [of h this me d w r, OF Cons.prems]
      profile_cong [of ?h h, OF one.keeps]
    by auto
qed simp

lemma func_before:
  "h this = Some me \<Longrightarrow>
   cond_ids (fold (propagate_func this others True) ds h) r =
     cond_ids h r \<union> (if Some r \<in> set others \<and> (\<exists>d\<in>set ds. named h r d) then id_set h this else {})"
proof (induction ds arbitrary: h me)
  case (Cons d ds)
  let ?h = "propagate_func this others True d h"
  obtain me' where me': "?h this = Some me'" using func.keeps [of this others True d h this] Cons.prems by auto
  show ?case
    using Cons.IH [of ?h me', OF me'] fold_before [of h this me d others r, OF Cons.prems]
      profile_cong [of ?h h, OF func.keeps]
    by (auto simp: propagate_func_def)
qed simp

lemma func_after:
  "h this = Some me \<Longrightarrow>
   cond_ids (fold (propagate_func this others False) ds h) r =
     cond_ids h r \<union>
     (if r = this then (\<Union>q\<in>{q. Some q \<in> set others \<and> (\<exists>d\<in>set ds. named h q d)}. id_set h q) else {})"
proof (induction ds arbitrary: h me)
  case (Cons d ds)
  let ?h = "propagate_func this others False d h"
  obtain me' where me': "?h this = Some me'" using func.keeps [of this others False d h this] Cons.prems by auto
  show ?case
    using Cons.IH [of ?h me', OF me'] fold_after [of h this me d others r, OF Cons.prems]
      profile_cong [of ?h h, OF func.keeps]
    by (auto simp: propagate_func_def)
qed simp

text \<open>What one process contributes: it holds back those it must precede, and waits for those it must follow.\<close>

definition contributes :: "store \<Rightarrow> weak list \<Rightarrow> ref \<Rightarrow> ref \<Rightarrow> u32 set" where
  "contributes h others this r =
     (if Some r \<in> set others \<and> (\<exists>d\<in>set (before_list h this). named h r d) then id_set h this else {}) \<union>
     (if r = this then (\<Union>q\<in>{q. Some q \<in> set others \<and> (\<exists>d\<in>set (after_list h this). named h q d)}. id_set h q)
      else {})"

lemma propagate_dependencies_outcome:
  assumes me: "h this = Some me"
  obtains h1 c1 where
    "propagate_dependencies this others h =
       h1(this \<mapsto> (if cond_ids h1 this = {} then c1\<lparr>before := [], after := [], state := READY\<rparr>
                  else c1\<lparr>before := [], after := []\<rparr>))"
    and "h1 this = Some c1" and "\<And>r. map_option profile (h1 r) = map_option profile (h r)"
    and "\<And>r. cond_ids h1 r = cond_ids h r \<union> contributes h others this r"
proof -
  let ?h0 = "fold (propagate_func this others True) (before me) h"
  have p0: "map_option profile (?h0 r) = map_option profile (h r)" for r by (rule func.fold_keeps)
  obtain me0 where me0: "?h0 this = Some me0" and af: "after me0 = after me"
    using func.fold_Some [of h this me this others True "before me", OF me] by (auto simp: profile_def)
  let ?h1 = "fold (propagate_func this others False) (after me) ?h0"
  have p1: "map_option profile (?h1 r) = map_option profile (h r)" for r
    using func.fold_keeps [of this others False "after me" ?h0 r] p0 by simp
  obtain c1 where c1: "?h1 this = Some c1"
    using func.fold_Some [of ?h0 this me0 this others False "after me", OF me0] by auto
  have ci: "cond_ids ?h1 r = cond_ids h r \<union> contributes h others this r" for r
    using func_after [of ?h0 this me0 others "after me" r, OF me0] func_before [of h this me others "before me" r, OF me]
      profile_cong [of ?h0 h, OF p0] me
    by (auto simp: contributes_def before_list_def after_list_def)
  have "cond_ids ?h1 this = {} \<longleftrightarrow> conditions c1 = []" by (simp add: cond_ids_def c1)
  then have eq: "propagate_dependencies this others h =
      ?h1(this \<mapsto> (if cond_ids ?h1 this = {} then c1\<lparr>before := [], after := [], state := READY\<rparr>
                  else c1\<lparr>before := [], after := []\<rparr>))"
    by (simp add: propagate_dependencies_def me me0 af c1)
  show thesis by (rule that [OF eq c1 p1 ci])
qed

lemma static_propagate_dependencies:
  "map_option static (propagate_dependencies this others h r) = map_option static (h r)"
proof (cases "h this")
  case None
  then have "propagate_dependencies this others h = h"
    by (simp add: propagate_dependencies_def)
  then show ?thesis by simp
next
  case (Some me)
  from propagate_dependencies_outcome [of h this me others, OF Some] obtain h1 c1 where
    eq: "propagate_dependencies this others h =
       h1(this \<mapsto> (if cond_ids h1 this = {} then c1\<lparr>before := [], after := [], state := READY\<rparr>
                  else c1\<lparr>before := [], after := []\<rparr>))"
    and c1: "h1 this = Some c1" and p: "\<And>r. map_option profile (h1 r) = map_option profile (h r)"
    by metis
  have st: "map_option static (h1 r) = map_option static (h r)" for r
    using p [of r] by (cases "h r"; cases "h1 r") (simp_all add: profile_def)
  show ?thesis using st [of r] c1 by (auto simp: eq static_def)
qed

interpretation reg: store_pass "register_one refs" static for refs
  by unfold_locales
    (auto simp: register_one_def static_propagate_dependencies split: option.splits)

section \<open>One turn of the registration\<close>

definition state_of :: "store \<Rightarrow> ref \<Rightarrow> ProcessState option" where
  "state_of h r = map_option state (h r)"

lemma contributes_cong:
  assumes "\<And>r. map_option static (h' r) = map_option static (h r)"
    and "before_list h' q = before_list h q" and "after_list h' q = after_list h q"
  shows "contributes h' others q r = contributes h others q r"
  unfolding contributes_def static_cong [of h' h, OF assms(1)] assms(2,3) ..

lemma register_one_dead: "h q = None \<Longrightarrow> register_one refs (Some q) h = h"
  by (simp add: register_one_def)

lemma contributes_dead: "h q = None \<Longrightarrow> contributes h refs q r = {}"
  by (simp add: contributes_def before_list_def after_list_def)

lemma register_one_turn:
  defines "h' \<equiv> \<lambda>refs q h. register_one refs (Some q) h"
  shows "cond_ids (h' refs q h) r = cond_ids h r \<union> contributes h refs q r"
    and "before_list (h' refs q h) r = (if r = q then [] else before_list h r)"
    and "after_list (h' refs q h) r = (if r = q then [] else after_list h r)"
    and "state_of (h' refs q h) r =
      (if r = q \<and> h q \<noteq> None \<and> cond_ids (h' refs q h) q = {} then Some READY else state_of h r)"
proof -
  have "cond_ids (h' refs q h) r = cond_ids h r \<union> contributes h refs q r \<and>
    before_list (h' refs q h) r = (if r = q then [] else before_list h r) \<and>
    after_list (h' refs q h) r = (if r = q then [] else after_list h r) \<and>
    state_of (h' refs q h) r =
      (if r = q \<and> h q \<noteq> None \<and> cond_ids (h' refs q h) q = {} then Some READY else state_of h r)"
  proof (cases "h q")
    case None
    then show ?thesis
      by (auto simp: h'_def register_one_dead contributes_dead before_list_def after_list_def)
  next
    case (Some me)
    from propagate_dependencies_outcome [of h q me refs, OF Some] obtain h1 c1 where
      eq: "propagate_dependencies q refs h =
         h1(q \<mapsto> (if cond_ids h1 q = {} then c1\<lparr>before := [], after := [], state := READY\<rparr>
                    else c1\<lparr>before := [], after := []\<rparr>))"
      and c1: "h1 q = Some c1" and p: "\<And>r. map_option profile (h1 r) = map_option profile (h r)"
      and ci: "\<And>r. cond_ids h1 r = cond_ids h r \<union> contributes h refs q r"
      by metis
    have st: "state_of h1 r = state_of h r" for r
      using p [of r] by (cases "h r"; cases "h1 r") (simp_all add: state_of_def profile_def)
    have h': "h' refs q h = propagate_dependencies q refs h" by (simp add: h'_def register_one_def Some)
    have same: "cond_ids (h' refs q h) r = cond_ids h1 r" for r
      by (simp add: h' eq cond_ids_def c1)
    have "state_of (h' refs q h) r = (if r = q \<and> cond_ids h1 q = {} then Some READY else state_of h1 r)"
      by (simp add: h' eq state_of_def c1)
    moreover have "before_list (h' refs q h) r = (if r = q then [] else before_list h1 r)"
      "after_list (h' refs q h) r = (if r = q then [] else after_list h1 r)"
      by (simp_all add: h' eq before_list_def after_list_def)
    ultimately show ?thesis
      using profile_cong [of h1 h, OF p] by (simp add: same ci st Some)
  qed
  then show "cond_ids (h' refs q h) r = cond_ids h r \<union> contributes h refs q r"
    and "before_list (h' refs q h) r = (if r = q then [] else before_list h r)"
    and "after_list (h' refs q h) r = (if r = q then [] else after_list h r)"
    and "state_of (h' refs q h) r =
      (if r = q \<and> h q \<noteq> None \<and> cond_ids (h' refs q h) q = {} then Some READY else state_of h r)"
    by blast+
qed

section \<open>All turns\<close>

lemma register_all_conditions:
  "cond_ids (fold (register_one refs) (map Some qs) h) r =
     cond_ids h r \<union> (\<Union>q\<in>set qs. contributes h refs q r)"
proof (induction qs arbitrary: h)
  case (Cons q qs)
  let ?h = "register_one refs (Some q) h"
  have "contributes ?h refs q' r = (if q' = q then {} else contributes h refs q' r)" for q'
  proof (cases "q' = q")
    case True
    then show ?thesis by (simp add: contributes_def register_one_turn(2,3))
  next
    case False
    then show ?thesis
      using contributes_cong [of ?h h q' refs r, OF reg.keeps] by (simp add: register_one_turn(2,3))
  qed
  then show ?case
    using Cons.IH [of ?h] register_one_turn(1) [of refs q h r] by auto
qed simp

lemma contributes_later:
  assumes "q \<notin> set qs"
  shows "contributes (fold (register_one refs) (map Some qs) h) refs q r = contributes h refs q r"
proof (rule contributes_cong)
  show "map_option static (fold (register_one refs) (map Some qs) h r) = map_option static (h r)" for r
    by (rule reg.fold_keeps)
  show "before_list (fold (register_one refs) (map Some qs) h) q = before_list h q"
    using assms by (induction qs arbitrary: h) (auto simp: register_one_turn(2))
  show "after_list (fold (register_one refs) (map Some qs) h) q = after_list h q"
    using assms by (induction qs arbitrary: h) (auto simp: register_one_turn(3))
qed

lemma register_all_state_other:
  "r \<notin> set qs \<Longrightarrow> state_of (fold (register_one refs) (map Some qs) h) r = state_of h r"
  by (induction qs arbitrary: h) (auto simp: register_one_turn(4))

text \<open>
  A process becomes ready in its own turn, if at that time nothing it has to wait for is recorded:
  neither by itself nor by a process whose turn was before.
\<close>

lemma register_all_state:
  assumes "distinct (pre @ r # post)" and "h r \<noteq> None"
  shows "state_of (fold (register_one refs) (map Some (pre @ r # post)) h) r =
    (if cond_ids h r \<union> (\<Union>q\<in>set (pre @ [r]). contributes h refs q r) = {} then Some READY else state_of h r)"
proof -
  let ?h1 = "fold (register_one refs) (map Some pre) h"
  let ?h2 = "register_one refs (Some r) ?h1"
  have alive: "?h1 r \<noteq> None" using reg.fold_keeps [of refs "map Some pre" h r] assms(2) by auto
  have "cond_ids ?h2 r = cond_ids h r \<union> (\<Union>q\<in>set (pre @ [r]). contributes h refs q r)"
    using register_one_turn(1) [of refs r ?h1 r] register_all_conditions [of refs pre h r]
      contributes_later [of r pre refs h r] assms(1) by auto
  moreover have "state_of ?h1 r = state_of h r" using register_all_state_other [of r pre refs h] assms(1) by simp
  moreover have "state_of (fold (register_one refs) (map Some post) ?h2) r = state_of ?h2 r"
    using register_all_state_other [of r post refs ?h2] assms(1) by simp
  ultimately show ?thesis using alive register_one_turn(4) [of refs r ?h1 r] by simp
qed

section \<open>The invariant holds after the registration\<close>

text \<open>
  The processes that a later-registered process names in its \<open>before\<close> list: they may have become
  ready before that \<open>before\<close> was propagated.
\<close>

fun overtaken :: "store \<Rightarrow> ref list \<Rightarrow> ref set" where
  "overtaken h [] = {}"
| "overtaken h (r # post) =
     (if \<exists>q\<in>set post. \<exists>d\<in>set (before_list h q). named h r d
      then insert r (overtaken h post) else overtaken h post)"

lemma overtaken_split:
  "r \<notin> overtaken h (pre @ r # post) \<Longrightarrow> q \<in> set post \<Longrightarrow> d \<in> set (before_list h q) \<Longrightarrow> \<not> named h r d"
  by (induction pre) (auto split: if_splits)

text \<open>The state the configuration leaves: objects that are blocked, without conditions, and nothing running.\<close>

definition freshly_configured :: "sys \<Rightarrow> bool" where
  "freshly_configured s \<longleftrightarrow>
     wired s \<and> id_for_pid s = [] \<and> number_of_running_procs s = 0 \<and>
     (\<forall>r c. objects s r = Some c \<longrightarrow> state c = BLOCKED \<and> conditions c = [])"

lemma register_processes_simps [simp]:
  "objects (register_processes refs s) = fold (register_one refs) refs (objects s)"
  "obj_for_id (register_processes refs s) = obj_for_id s"
  "sig_for_id (register_processes refs s) = sig_for_id s"
  "id_for_pid (register_processes refs s) = id_for_pid s"
  "number_of_running_procs (register_processes refs s) = number_of_running_procs s"
  "calls (register_processes refs s) = calls s"
  "all_objs (register_processes refs s) = refs"
  by (simp_all add: register_processes_def Let_def)

lemma wired_register:
  assumes "wired s"
  shows "wired (register_processes refs s)"
  unfolding wired_def register_processes_simps
proof (intro allI impI)
  fix r c'
  assume "fold (register_one refs) refs (objects s) r = Some c'"
  from reg.fold_Some_back [OF this] obtain c where "objects s r = Some c" "graph_id c' = graph_id c"
    by (auto simp: static_def)
  with assms show "omap_find (obj_for_id s) (graph_id c') = Some (Some r) \<and>
      omap_find (sig_for_id s) (sint (graph_id c')) = Some [r]"
    by (simp add: wired_def)
qed

lemma registered_state:
  assumes fresh: "\<And>r c. objects s r = Some c \<Longrightarrow> state c = BLOCKED \<and> conditions c = []"
    and "distinct qs" and c: "objects (register_processes (map Some qs) s) r = Some c"
  shows "state c = BLOCKED \<or>
    (state c = READY \<and> (\<exists>pre post. qs = pre @ r # post \<and>
       (\<forall>q\<in>set (pre @ [r]). contributes (objects s) (map Some qs) q r = {})))"
proof -
  have st: "state_of (fold (register_one (map Some qs)) (map Some qs) (objects s)) r = Some (state c)"
    using c by (simp add: state_of_def)
  from c have "fold (register_one (map Some qs)) (map Some qs) (objects s) r = Some c" by simp
  from reg.fold_Some_back [OF this] have alive: "objects s r \<noteq> None" by auto
  then have bl: "state_of (objects s) r = Some BLOCKED" using fresh by (auto simp: state_of_def)
  show ?thesis
  proof (cases "r \<in> set qs")
    case False
    then show ?thesis using st bl register_all_state_other [of r qs "map Some qs" "objects s"] by simp
  next
    case True
    then obtain pre post where qs: "qs = pre @ r # post" by (auto simp: in_set_conv_decomp)
    have "state_of (fold (register_one (map Some qs)) (map Some qs) (objects s)) r =
      (if cond_ids (objects s) r \<union> (\<Union>q\<in>set (pre @ [r]). contributes (objects s) (map Some qs) q r) = {}
       then Some READY else state_of (objects s) r)"
      using register_all_state [of pre r post "objects s" "map Some qs"] assms(2) alive qs by simp
    then show ?thesis using st bl qs by (auto split: if_splits)
  qed
qed

lemma registered_early:
  assumes fresh: "\<And>r c. objects s r = Some c \<Longrightarrow> state c = BLOCKED \<and> conditions c = []"
    and "distinct qs" and c: "objects (register_processes (map Some qs) s) r = Some c"
  shows "state c = BLOCKED \<or> state c = READY"
proof -
  have "state c = BLOCKED \<or> (state c = READY \<and> (\<exists>pre post. qs = pre @ r # post \<and>
       (\<forall>q\<in>set (pre @ [r]). contributes (objects s) (map Some qs) q r = {})))"
    using fresh assms(2) c by (rule registered_state)
  then show ?thesis by blast
qed

lemma registered_order:
  assumes fc: "freshly_configured s" and dist: "distinct qs"
  shows "order_respected (overtaken (objects s) qs) (register_processes (map Some qs) s)"
  unfolding order_respected_def
proof (intro allI impI ballI)
  fix r c cond
  assume r: "r \<notin> overtaken (objects s) qs" and c: "objects (register_processes (map Some qs) s) r = Some c" and nb: "state c \<noteq> BLOCKED"
    and cond: "cond \<in> set (conditions c)"
  have fresh: "state c = BLOCKED \<and> conditions c = []" if "objects s r = Some c" for r c
    using fc that by (simp add: freshly_configured_def)
  have "state c = BLOCKED \<or> (state c = READY \<and> (\<exists>pre post. qs = pre @ r # post \<and>
      (\<forall>q\<in>set (pre @ [r]). contributes (objects s) (map Some qs) q r = {})))"
    using fresh dist c by (rule registered_state)
  with nb obtain pre post where
    qs: "qs = pre @ r # post" and none: "\<forall>q\<in>set (pre @ [r]). contributes (objects s) (map Some qs) q r = {}"
    by blast
  have later: "contributes (objects s) (map Some qs) q r = {}" if "q \<in> set post" for q
    using that overtaken_split [of r "objects s" pre post q] r dist qs
    by (auto simp: contributes_def)
  have "cond_ids (objects s) r = {}"
    using fresh [of r] by (auto simp: cond_ids_def split: option.splits)
  moreover have "(\<Union>q\<in>set qs. contributes (objects s) (map Some qs) q r) = {}"
    using none later qs by auto
  ultimately have "cond_ids (objects (register_processes (map Some qs) s)) r = {}"
    using register_all_conditions [of "map Some qs" qs "objects s" r] by simp
  with c cond show "reached (register_processes (map Some qs) s) cond" by (auto simp: cond_ids_def)
qed

lemma registered_inv:
  assumes fc: "freshly_configured s" and "distinct qs"
  shows "sys_inv (overtaken (objects s) qs) (register_processes (map Some qs) s)"
proof -
  have "\<not> running_at (objects (register_processes (map Some qs) s)) r i pid" for r i pid
  proof
    assume "running_at (objects (register_processes (map Some qs) s)) r i pid"
    then obtain c where "objects (register_processes (map Some qs) s) r = Some c" "state c = RUNNING"
      by (auto simp: running_at_def)
    with registered_state [of s qs r c] assms(1,2) show False by (auto simp: freshly_configured_def)
  qed
  then have "tracked (register_processes (map Some qs) s)"
    using fc by (simp add: tracked_def freshly_configured_def)
  moreover have "known_pids (register_processes (map Some qs) s)"
    using fc by (simp add: known_pids_def freshly_configured_def)
  ultimately show ?thesis
    using wired_register registered_order [OF assms] fc by (simp add: sys_inv_def freshly_configured_def)
qed

section \<open>What is waited for is the end or the run of a process\<close>

definition sound_states :: "ProcessState set \<Rightarrow> store \<Rightarrow> bool" where
  "sound_states A h \<longleftrightarrow> (\<forall>r c. h r = Some c \<longrightarrow> dependency_state c \<in> A \<and> snd ` set (conditions c) \<subseteq> A)"

lemma dependency_states: "dependency_state c \<in> {RUNNING, DONE}"
  by (simp add: dependency_state_def)

lemma dependency_state_cong: "ptype c' = ptype c \<Longrightarrow> dependency_state c' = dependency_state c"
  by (simp add: dependency_state_def)

lemma dependency_state_update [simp]:
  "dependency_state (c\<lparr>state := st\<rparr>) = dependency_state c"
  "dependency_state (c\<lparr>before := be\<rparr>) = dependency_state c"
  "dependency_state (c\<lparr>after := af\<rparr>) = dependency_state c"
  by (simp_all add: dependency_state_def)

lemma should_wait_for_states: "snd ` set (conditions (should_wait_for c i st)) \<subseteq> insert st (snd ` set (conditions c))"
  by (auto simp: should_wait_for_conditions)

lemma propagate_one_sound: "sound_states A h \<Longrightarrow> sound_states A (propagate_one this d b w h)"
proof -
  assume h: "sound_states A h"
  have upd: "sound_states A (h(r \<mapsto> should_wait_for c i (dependency_state me)))"
    if "h r = Some c" "h q = Some me" for r c i q me
  proof -
    have "dependency_state (should_wait_for c i (dependency_state me)) = dependency_state c"
      by (rule dependency_state_cong) simp
    moreover have "snd ` set (conditions (should_wait_for c i (dependency_state me))) \<subseteq> A"
    proof (rule subset_trans [OF should_wait_for_states])
      show "insert (dependency_state me) (snd ` set (conditions c)) \<subseteq> A"
        using h that unfolding sound_states_def by blast
    qed
    ultimately show ?thesis using h that(1) by (simp add: sound_states_def)
  qed
  show ?thesis
    using h upd by (auto simp: propagate_one_def lock_Some_iff split: option.split)
qed

text \<open>An invariant of one pass over the store is an invariant of the loop.\<close>

locale sound_pass =
  fixes pass :: "'x \<Rightarrow> store \<Rightarrow> store"
  assumes sound: "sound_states A h \<Longrightarrow> sound_states A (pass x h)"
begin

lemma loop: "sound_states A h \<Longrightarrow> sound_states A (fold pass xs h)"
  by (induction xs arbitrary: h) (auto intro: sound)

end

interpretation one_sound: sound_pass "propagate_one this d b" for this d b
  by unfold_locales (rule propagate_one_sound)

interpretation func_sound: sound_pass "\<lambda>d. propagate_func this others b d" for this others b
  by unfold_locales (simp add: propagate_func_def one_sound.loop)

lemma propagate_dependencies_sound:
  assumes "sound_states A h"
  shows "sound_states A (propagate_dependencies this others h)"
proof -
  have "sound_states A (fold (propagate_func this others False) af (fold (propagate_func this others True) be h))" for be af
    by (intro func_sound.loop assms)
  then show ?thesis
    by (auto simp: propagate_dependencies_def Let_def sound_states_def split: option.splits)
qed

interpretation reg_sound: sound_pass "register_one refs" for refs
  by unfold_locales (auto simp: register_one_def propagate_dependencies_sound split: option.splits)

lemma registered_sound:
  assumes "freshly_configured s" and "\<And>r c. objects s r = Some c \<Longrightarrow> dependency_state c \<in> A"
  shows "sound_states A (objects (register_processes refs s))"
proof -
  have "sound_states A (objects s)"
    using assms by (auto simp: sound_states_def freshly_configured_def)
  then show ?thesis by (simp add: reg_sound.loop)
qed

lemma contributes_eq:
  assumes c: "h r = Some c" and r: "r \<in> set qs"
  shows "contributes h (map Some qs) q r =
      {graph_id d | d. h q = Some d \<and> name c \<in> set (before d)} \<union>
      (if q = r then {graph_id d | q d. q \<in> set qs \<and> h q = Some d \<and> name d \<in> set (after c)} else {})"
  using c r
  by (cases "h q"; cases "q = r")
    (auto simp: contributes_def before_list_def after_list_def named_iff id_set_def image_iff, blast+)

lemma registered_cond_ids:
  assumes c: "objects s r = Some c" "conditions c = []" and r: "r \<in> set qs"
  shows "cond_ids (objects (register_processes (map Some qs) s)) r =
    {graph_id d | q d. q \<in> set qs \<and> objects s q = Some d \<and> (name c \<in> set (before d) \<or> name d \<in> set (after c))}"
proof -
  have "cond_ids (objects s) r = {}" using c by (simp add: cond_ids_def)
  then have "cond_ids (objects (register_processes (map Some qs) s)) r =
      (\<Union>q\<in>set qs. contributes (objects s) (map Some qs) q r)"
    using register_all_conditions [of "map Some qs" qs "objects s" r] by simp
  also have "\<dots> = {graph_id d | q d. q \<in> set qs \<and> objects s q = Some d \<and> name c \<in> set (before d)} \<union>
      {graph_id d | q d. q \<in> set qs \<and> objects s q = Some d \<and> name d \<in> set (after c)}"
    using r by (auto simp: contributes_eq [of "objects s" r c qs, OF c(1) r] split: if_splits)
  finally show ?thesis by blast
qed

lemma Some_if_not: "Some a = (if \<not> X then Some b else Some c) \<Longrightarrow> a = (if X then c else b)"
  by (cases X) simp_all

lemma registered_some:
  assumes "objects s r = Some c"
  obtains c' where "objects (register_processes (map Some qs) s) r = Some c'" and "static c' = static c"
  using reg.fold_Some [of "objects s" r c "map Some qs" "map Some qs", OF assms] by auto

lemma propagate_one_own_states:
  assumes "h this = Some me" and "snd ` set (conditions me) \<subseteq> {dependency_state me}"
  shows "\<exists>me'. propagate_one this d b w h this = Some me' \<and> dependency_state me' = dependency_state me \<and>
    snd ` set (conditions me') \<subseteq> {dependency_state me'}"
proof -
  have ds: "dependency_state (should_wait_for c i st) = dependency_state c" for c i st
    by (simp add: dependency_state_def)
  have own: "snd ` set (conditions (should_wait_for me i (dependency_state me))) \<subseteq> {dependency_state me}" for i
    using should_wait_for_states [of me i "dependency_state me"] assms(2) by auto
  show ?thesis
    using assms own by (auto simp: propagate_one_def lock_def ds split: option.split)
qed

section \<open>Properties\<close>

text \<open>For the examples: a web server to be started after a database, and a monitor to be started before it.\<close>

definition example_set :: sys where
  "example_set = ProcessHandler
     \<lparr>objects := [0 \<mapsto> example_child ''db'' 10, 1 \<mapsto> (example_child ''web'' 11)\<lparr>after := [''db'']\<rparr>,
        2 \<mapsto> (example_child ''monitor'' 12)\<lparr>before := [''db'']\<rparr>]\<rparr>"

definition example_registered :: "ref \<Rightarrow> child" where
  "example_registered r = the (objects (register_processes (map Some [0, 1, 2]) example_set) r)"

lemma example_objects:
  "objects example_set 0 = Some (example_child ''db'' 10)"
  "objects example_set 1 = Some ((example_child ''web'' 11)\<lparr>after := [''db'']\<rparr>)"
  "objects example_set 2 = Some ((example_child ''monitor'' 12)\<lparr>before := [''db'']\<rparr>)"
  by (simp_all add: example_set_def)

lemma example_registered_some:
  "r \<in> {0, 1, 2} \<Longrightarrow> objects (register_processes (map Some [0, 1, 2]) example_set) r = Some (example_registered r)"
  unfolding example_registered_def
  using registered_some [of example_set r _ "[0, 1, 2]"] example_objects by (metis insertE option.sel singletonD)

lemma example_fields:
  "conditions (example_child nm i) = []" "before (example_child nm i) = []" "after (example_child nm i) = []"
  "name (example_child nm i) = nm" "state (example_child nm i) = BLOCKED" "graph_id (example_child nm i) = i"
  "ptype (example_child nm i) = SIMPLE"
  by (simp_all add: example_child_def)

text \<open>
  C18. After the registration a process waits for exactly those registered processes that name it in \<open>before\<close> or that
  it names in \<open>after\<close> (all those of the name, if a name is used twice), whatever the order of the registration.
\<close>

theorem waits_for_exactly_these:
  assumes "objects s r = Some c" and "conditions c = []" and "r \<in> set qs"
    and "objects (register_processes (map Some qs) s) r = Some c'"
  shows "fst ` set (conditions c') =
    {graph_id d | q d. q \<in> set qs \<and> objects s q = Some d \<and> (name c \<in> set (before d) \<or> name d \<in> set (after c))}"
  using registered_cond_ids [OF assms(1-3)] assms(4) by (simp add: cond_ids_def)

theorem waits_for_exactly_these_witness: "10 \<in> fst ` set (conditions (example_registered 1))"
proof -
  have "fst ` set (conditions (example_registered 1)) = {graph_id d | q d. q \<in> set [0, 1, 2] \<and>
      objects example_set q = Some d \<and> (''web'' \<in> set (before d) \<or> name d \<in> set [''db''])}"
    using waits_for_exactly_these [of example_set 1 "(example_child ''web'' 11)\<lparr>after := [''db'']\<rparr>" "[0, 1, 2]"
        "example_registered 1"] example_objects(2) example_registered_some [of 1]
    by (simp add: example_fields)
  then show ?thesis
    by (simp only:) (rule CollectI, rule exI [of _ 0], rule exI [of _ "example_child ''db'' 10"],
      simp add: example_objects example_fields)
qed

text \<open>
  C34. A process is ready at once exactly if it names no registered process in its \<open>after\<close> list and is not in the
  \<open>before\<close> list of itself or of a process that is registered before it: the lists of those registered later are not
  considered.
\<close>

theorem ready_after_registration:
  assumes "distinct (pre @ r # post)" and "objects s r = Some c" and "state c = BLOCKED" and "conditions c = []"
    and "objects (register_processes (map Some (pre @ r # post)) s) r = Some c'"
  shows "state c' =
    (if (\<exists>q\<in>set (pre @ r # post). \<exists>d. objects s q = Some d \<and> name d \<in> set (after c)) \<or>
        (\<exists>q\<in>set (pre @ [r]). \<exists>d. objects s q = Some d \<and> name c \<in> set (before d))
     then BLOCKED else READY)"
proof -
  let ?qs = "pre @ r # post"
  have "contributes (objects s) (map Some ?qs) q r = {} \<longleftrightarrow>
      \<not> (\<exists>d. objects s q = Some d \<and> name c \<in> set (before d)) \<and>
      (q = r \<longrightarrow> \<not> (\<exists>q\<in>set ?qs. \<exists>d. objects s q = Some d \<and> name d \<in> set (after c)))" for q
    using contributes_eq [of "objects s" r c ?qs q, OF assms(2)] by auto
  moreover have "cond_ids (objects s) r = {}" using assms(2,4) by (simp add: cond_ids_def)
  ultimately have none: "cond_ids (objects s) r \<union> (\<Union>q\<in>set (pre @ [r]). contributes (objects s) (map Some ?qs) q r) = {} \<longleftrightarrow>
      \<not> ((\<exists>q\<in>set ?qs. \<exists>d. objects s q = Some d \<and> name d \<in> set (after c)) \<or>
        (\<exists>q\<in>set (pre @ [r]). \<exists>d. objects s q = Some d \<and> name c \<in> set (before d)))"
    by auto
  have "Some (state c') = state_of (fold (register_one (map Some ?qs)) (map Some ?qs) (objects s)) r"
    using assms(5) by (simp add: state_of_def)
  also have "\<dots> = (if cond_ids (objects s) r \<union> (\<Union>q\<in>set (pre @ [r]). contributes (objects s) (map Some ?qs) q r) = {}
      then Some READY else state_of (objects s) r)"
    using assms(2) by (intro register_all_state [OF assms(1)]) simp
  also have "state_of (objects s) r = Some BLOCKED" using assms(2,3) by (simp add: state_of_def)
  finally show ?thesis unfolding none by (rule Some_if_not)
qed

theorem ready_after_registration_witness: "state (example_registered 1) = BLOCKED"
  using ready_after_registration [of "[0]" 1 "[2]" example_set "(example_child ''web'' 11)\<lparr>after := [''db'']\<rparr>" "example_registered 1"]
    example_objects example_registered_some [of 1] by (simp add: example_fields)

text \<open>
  C35. So a \<open>before\<close> of a process registered later comes too late. Take freshly configured objects, and a process that names no
  registered process in its \<open>after\<close> list and is not in the \<open>before\<close> list of itself or of a process registered before it.
  If a process registered later names it in \<open>before\<close>, the condition is recorded and does not hold after the registration, and
  yet the process is ready: the next attempt to start it opens its channels and forks without asking for the condition.
\<close>

theorem late_before_is_ignored:
  assumes "distinct (pre @ r # post)" and fresh: "\<And>q d. objects s q = Some d \<Longrightarrow> state d = BLOCKED \<and> conditions d = []"
    and c: "objects s r = Some c"
    and "\<And>q d. q \<in> set (pre @ r # post) \<Longrightarrow> objects s q = Some d \<Longrightarrow> name d \<notin> set (after c)"
    and "\<And>q d. q \<in> set (pre @ [r]) \<Longrightarrow> objects s q = Some d \<Longrightarrow> name c \<notin> set (before d)"
    and "q \<in> set post" and d: "objects s q = Some d" and "name c \<in> set (before d)"
  shows "let s' = register_processes (map Some (pre @ r # post)) s in
    \<exists>c' d' st. objects s' r = Some c' \<and> state c' = READY \<and> start_program P n (Some r) s' = catch_std (try_start P n r c' s') \<and>
      (graph_id d, st) \<in> set (conditions c') \<and> objects s' q = Some d' \<and> graph_id d' = graph_id d \<and> state d' \<noteq> st"
proof -
  let ?qs = "pre @ r # post"
  let ?h = "objects (register_processes (map Some ?qs) s)"
  obtain c' where c': "?h r = Some c'" using registered_some [OF c] by blast
  obtain d' where d': "?h q = Some d'" "graph_id d' = graph_id d" using registered_some [OF d, of ?qs] by (auto simp: static_def)
  have nil: "conditions c = []" using fresh [OF c] by simp
  have "cond_ids ?h r =
    {graph_id d | q d. q \<in> set ?qs \<and> objects s q = Some d \<and> (name c \<in> set (before d) \<or> name d \<in> set (after c))}"
    by (rule registered_cond_ids [OF c nil]) simp
  then have "graph_id d \<in> cond_ids ?h r" using assms(6-8) by auto
  then obtain st where st: "(graph_id d, st) \<in> set (conditions c')" using c' by (auto simp: cond_ids_def)
  have "contributes (objects s) (map Some ?qs) q' r = {}" if "q' \<in> set (pre @ [r])" for q'
    using contributes_eq [of "objects s" r c ?qs q', OF c] assms(4) assms(5) [OF that] by auto
  then have "cond_ids (objects s) r \<union> (\<Union>q\<in>set (pre @ [r]). contributes (objects s) (map Some ?qs) q r) = {}"
    using c nil by (simp add: cond_ids_def)
  then have ready: "state c' = READY"
    using register_all_state [OF assms(1), of "objects s" "map Some ?qs"] c c' by (simp add: state_of_def)
  have "sound_states {RUNNING, DONE} (objects s)"
    using fresh dependency_states by (simp add: sound_states_def)
  then have "sound_states {RUNNING, DONE} ?h" unfolding register_processes_simps(1) by (rule reg_sound.loop)
  with c' have "snd ` set (conditions c') \<subseteq> {RUNNING, DONE}" by (simp only: sound_states_def)
  with st have "st \<in> {RUNNING, DONE}" by force
  moreover have "state d' = BLOCKED \<or> state d' = READY" using fresh assms(1) d'(1) by (rule registered_early)
  ultimately have "state d' \<noteq> st" by auto
  moreover have "start_program P n (Some r) (register_processes (map Some ?qs) s) =
      catch_std (try_start P n r c' (register_processes (map Some ?qs) s))"
    using c' ready by (simp add: start_program_def can_start_now_def lock_def)
  ultimately show ?thesis using c' ready st d' unfolding Let_def by blast
qed

theorem late_before_is_ignored_witness:
  "let s' = register_processes (map Some ([] @ 0 # [1, 2])) example_set in
    \<exists>c' d' st. objects s' 0 = Some c' \<and> state c' = READY \<and>
      start_program (plain_platform 7) 1 (Some 0) s' = catch_std (try_start (plain_platform 7) 1 0 c' s') \<and>
      (graph_id ((example_child ''monitor'' 12)\<lparr>before := [''db'']\<rparr>), st) \<in> set (conditions c') \<and> objects s' 2 = Some d' \<and>
      graph_id d' = graph_id ((example_child ''monitor'' 12)\<lparr>before := [''db'']\<rparr>) \<and> state d' \<noteq> st"
  by (rule late_before_is_ignored [where c = "example_child ''db'' 10"])
    (auto simp: example_fields example_set_def split: if_splits)

text \<open>
  C36. What a process waits for because of its own lists is decided by its own type and not by the type of the other
  process: a one-shot program waits for the end of a service, and a service does not wait for the end of a one-shot
  program.
\<close>

theorem waits_by_own_type:
  assumes "h this = Some me" and "conditions me = []"
    and "propagate_dependencies this others h this = Some me'"
  shows "\<forall>(i, st)\<in>set (conditions me'). st = (if ptype me = ONESHOT then DONE else RUNNING)"
proof -
  define own where "own h \<longleftrightarrow> (\<exists>c. h this = Some c \<and> dependency_state c = dependency_state me \<and>
    snd ` set (conditions c) \<subseteq> {dependency_state me})" for h :: store
  have one: "own (propagate_one this d b w h)" if "own h" for d b w h
    using that propagate_one_own_states [of h this _ d b w] unfolding own_def by fastforce
  have func: "own (propagate_func this others b d h)" if "own h" for b d h
    using that unfolding propagate_func_def by (induction others arbitrary: h) (simp_all add: one)
  have list: "own (fold (propagate_func this others b) ds h)" if "own h" for b ds h
    using that by (induction ds arbitrary: h) (simp_all add: func)
  let ?h1 = "fold (propagate_func this others True) (before me) h"
  have "own h" using assms(1,2) by (simp add: own_def)
  from list [OF this] have "own ?h1" .
  then obtain me1 where me1: "?h1 this = Some me1" by (auto simp: own_def)
  from list [OF \<open>own ?h1\<close>] have "own (fold (propagate_func this others False) (after me1) ?h1)" .
  then obtain c where c: "fold (propagate_func this others False) (after me1) ?h1 this = Some c"
      "snd ` set (conditions c) \<subseteq> {dependency_state me}"
    by (auto simp: own_def)
  with assms(1,3) me1 have "conditions me' = conditions c"
    by (auto simp: propagate_dependencies_def Let_def split: if_splits)
  with c(2) show ?thesis by (auto simp: dependency_state_def)
qed

definition example_after_init :: store where
  "example_after_init =
     [0 \<mapsto> (example_child ''init'' 10)\<lparr>ptype := ONESHOT\<rparr>, 1 \<mapsto> (example_child ''web'' 11)\<lparr>after := [''init'']\<rparr>]"

theorem waits_by_own_type_witness:
  "snd ` set (conditions (the (propagate_dependencies 1 [Some 0, Some 1] example_after_init 1))) \<subseteq> {RUNNING}"
proof -
  have "propagate_dependencies 1 [Some 0, Some 1] example_after_init 1 \<noteq> None" by code_simp
  then have "propagate_dependencies 1 [Some 0, Some 1] example_after_init 1 =
      Some (the (propagate_dependencies 1 [Some 0, Some 1] example_after_init 1))" by simp
  from waits_by_own_type [of example_after_init 1 "(example_child ''web'' 11)\<lparr>after := [''init'']\<rparr>", OF _ _ this]
  show ?thesis by (auto simp: example_after_init_def example_fields)
qed

end
