(* ===== verification/Startup.thy ===== *)
theory Startup
  imports Main_Program Registration
begin

text \<open>
  From the configuration to the event loop: every object that the configuration creates has its
  own number and is known to the handler under it, so the state handed to \<open>register_processes\<close> is
  freshly configured, and every state that the running program passes through satisfies the
  invariant of the supervision.
\<close>

section \<open>Objects created by the configuration\<close>

definition configured :: "config \<times> sys \<Rightarrow> bool" where
  "configured = (\<lambda>(cfg, s).
     processes cfg = [0..<next_ref s] \<and> child_counter cfg = int (next_ref s) \<and>
     id_for_pid s = [] \<and> number_of_running_procs s = 0 \<and> quiet_ext [] (calls s) \<and>
     id_for_fd s = [] \<and> fd_type s = [] \<and> num_fd_for_id s = [] \<and> \<not> should_quit s \<and>
     (\<forall>r. objects s r \<noteq> None \<longleftrightarrow> r < next_ref s) \<and>
     (\<forall>r c. objects s r = Some c \<longrightarrow> graph_id c = of_nat r \<and> state c = BLOCKED \<and> conditions c = []) \<and>
     (\<forall>i. omap_find (sig_for_id s) i \<noteq> None \<longrightarrow> (\<exists>r<next_ref s. i = sint (of_nat r :: u32))) \<and>
     (next_ref s \<le> 2 ^ 32 \<longrightarrow> wired s))"

lemma andThen_invariant:
  assumes "andThen m f = (res, t)" and "P (snd m)"
    and "\<And>x s. m = (Inr x, s) \<Longrightarrow> P s \<Longrightarrow> f x s = (res, t) \<Longrightarrow> P t"
  shows "P t"
  using assms(1) by (rule andThen_cases) (use assms(2,3) in auto)

lemma snd_lift_exn [simp]: "snd (lift_exn m s) = s"
  by (simp add: lift_exn_def split: sum.split)

lemma wired_calls [simp]: "wired (s\<lparr>calls := tr\<rparr>) = wired s"
  by (simp add: wired_def)

lemma configured_calls: "configured (cfg, s) \<Longrightarrow> quiet_ext (calls s) tr \<Longrightarrow> configured (cfg, s\<lparr>calls := tr\<rparr>)"
  by (auto simp: configured_def intro: quiet_ext_trans)

text \<open>Looking up users and groups starts nothing.\<close>

lemma named_id_quiet:
  assumes "\<And>nm. quiet_call (lookup nm)"
  shows "named_id P Y program key fallback lookup did cur tr = (x, tr') \<Longrightarrow> quiet_ext tr tr'"
  using assms by (auto simp: named_id_def syscall_def Let_def quiet_ext_Cons split: sum.splits option.splits if_splits)

lemma resolve_ids_quiet: "resolve_ids P Y program tr = (x, tr') \<Longrightarrow> quiet_ext tr tr'"
proof -
  have "quiet_call (Sys_getpwnam nm)" "quiet_call (Sys_getgrnam nm)" for nm
    by (simp_all add: quiet_call_def)
  note named = this [THEN named_id_quiet]
  assume "resolve_ids P Y program tr = (x, tr')"
  then show ?thesis
    by (auto simp: resolve_ids_def lift_exn_def split: sum.splits elim!: andThen_cases
        dest!: named intro: quiet_ext_trans)
qed

lemma small_words:
  fixes n m :: nat
  assumes "n < 2 ^ 32" and "m < 2 ^ 32"
  shows "(of_nat n :: u32) = of_nat m \<longleftrightarrow> n = m"
  using assms by (simp add: word_of_nat_eq_iff take_bit_nat_eq_self)

lemma register_for_process_state_fresh:
  "omap_find (sig_for_id s) i = None \<Longrightarrow>
   omap_find (sig_for_id (register_for_process_state i r s)) j = (if j = i then Some [r] else omap_find (sig_for_id s) j)"
  by (simp add: register_for_process_state_def Let_def)

lemma register_for_process_state_frame [simp, frame_simps]:
  "objects (register_for_process_state i r s) = objects s"
  "obj_for_id (register_for_process_state i r s) = obj_for_id s"
  "id_for_pid (register_for_process_state i r s) = id_for_pid s"
  "number_of_running_procs (register_for_process_state i r s) = number_of_running_procs s"
  "next_ref (register_for_process_state i r s) = next_ref s"
  "id_for_fd (register_for_process_state i r s) = id_for_fd s"
  "fd_type (register_for_process_state i r s) = fd_type s"
  "num_fd_for_id (register_for_process_state i r s) = num_fd_for_id s"
  "should_quit (register_for_process_state i r s) = should_quit s"
  by (simp_all add: register_for_process_state_def Let_def)

lemma ChildProcess_fresh:
  assumes "ChildProcess P nm pth ags ty caps u g i bef aft tty denv white extra tr = (c, tr')"
  shows "graph_id c = i" "state c = BLOCKED" "conditions c = []" "quiet_ext tr tr'"
  using assms by (auto simp: ChildProcess_def syscall_def Let_def quiet_rules)

text \<open>One more object, with the next number, registered under it.\<close>

lemma configured_created:
  assumes cf: "configured (cfg, s)"
    and c: "graph_id c = of_nat (next_ref s)" "state c = BLOCKED" "conditions c = []"
    and t: "processes cfg' = processes cfg @ [next_ref s]" "child_counter cfg' = child_counter cfg + 1"
      "objects t = (objects s)(next_ref s \<mapsto> c)" "next_ref t = Suc (next_ref s)"
      "id_for_pid t = id_for_pid s" "number_of_running_procs t = number_of_running_procs s"
      "obj_for_id t = omap_insert (of_nat (next_ref s)) (Some (next_ref s)) (obj_for_id s)"
      "sig_for_id t = sig_for_id (register_for_process_state (sint (graph_id c)) (next_ref s) s)"
      "quiet_ext (calls s) (calls t)" "id_for_fd t = id_for_fd s" "fd_type t = fd_type s" "num_fd_for_id t = num_fd_for_id s"
      "should_quit t = should_quit s"
  shows "configured (cfg', t)"
proof -
  have "wired t" if small: "next_ref t \<le> 2 ^ 32"
  proof -
    let ?n = "next_ref s"
    have n: "?n < 2 ^ 32" and wd: "wired s" using small cf t(4) by (simp_all add: configured_def)
    have other: "(of_nat r :: u32) \<noteq> of_nat ?n" if "r < ?n" for r
      using that n small_words [of r ?n] by simp
    have new: "omap_find (sig_for_id s) (sint (of_nat ?n :: u32)) = None"
    proof (rule ccontr)
      assume "omap_find (sig_for_id s) (sint (of_nat ?n :: u32)) \<noteq> None"
      with cf obtain r where "r < ?n" "sint (of_nat ?n :: u32) = sint (of_nat r :: u32)"
        by (auto simp: configured_def)
      with other [of r] show False by (metis signed_word_eqI)
    qed
    show ?thesis
      unfolding wired_def
    proof (intro allI impI)
      fix r d
      assume d: "objects t r = Some d"
      show "omap_find (obj_for_id t) (graph_id d) = Some (Some r) \<and>
          omap_find (sig_for_id t) (sint (graph_id d)) = Some [r]"
      proof (cases "r = ?n")
        case True
        with d c new show ?thesis by (simp add: t register_for_process_state_fresh)
      next
        case False
        with d have "objects s r = Some d" by (simp add: t)
        with cf wd have "r < ?n" "graph_id d = of_nat r" "omap_find (obj_for_id s) (graph_id d) = Some (Some r)"
          "omap_find (sig_for_id s) (sint (graph_id d)) = Some [r]"
          by (auto simp: configured_def wired_def)
        moreover from \<open>r < ?n\<close> other [of r] have "sint (of_nat r :: u32) \<noteq> sint (of_nat ?n :: u32)"
          by (metis signed_word_eqI)
        ultimately show ?thesis
          using other [of r] c new by (simp add: t register_for_process_state_fresh)
      qed
    qed
  qed
  moreover have "\<exists>r<next_ref t. i = sint (of_nat r :: u32)" if "omap_find (sig_for_id t) i \<noteq> None" for i
  proof (cases "i = sint (graph_id c)")
    case True
    then show ?thesis using c(1) t(4) by auto
  next
    case False
    with that have "omap_find (sig_for_id s) i \<noteq> None"
      by (auto simp: t register_for_process_state_def Let_def split: if_splits)
    then show ?thesis using cf t(4) by (auto simp: configured_def less_Suc_eq)
  qed
  moreover have "quiet_ext [] (calls t)" using cf quiet_ext_trans [OF _ t(9)] by (simp add: configured_def)
  ultimately show ?thesis using cf c by (auto simp: configured_def t less_Suc_eq split: if_splits)
qed

lemma make_child_configured:
  assumes cf: "configured (cfg, s)"
    and mk: "make_child (ChildProcess P nm pth ags ty caps u g (word_of_int (child_counter cfg)) bef aft tty denv white extra) s = (p, t)"
  shows "configured (cfg\<lparr>processes := processes cfg @ [p], child_counter := child_counter cfg + 1\<rparr>,
    register_obj_id (case objects t p of Some c \<Rightarrow> sint (get_id c) | None \<Rightarrow> 0) (Some p) t)"
proof -
  obtain c tr where c: "ChildProcess P nm pth ags ty caps u g (word_of_int (child_counter cfg)) bef aft tty denv white extra (calls s) = (c, tr)"
    by fastforce
  have cc: "child_counter cfg = int (next_ref s)" using cf by (simp add: configured_def)
  have i: "graph_id c = of_nat (next_ref s)" "state c = BLOCKED" "conditions c = []"
    using ChildProcess_fresh [OF c] by (simp_all add: cc)
  from mk c have p: "p = next_ref s" and t: "t = (register_for_process_state (sint (graph_id c)) (next_ref s) s)
      \<lparr>objects := (objects s)(next_ref s \<mapsto> c), next_ref := Suc (next_ref s), calls := tr\<rparr>"
    by (auto simp: make_child_def Let_def)
  show ?thesis
    by (rule configured_created [OF cf i]) (simp_all add: p t register_obj_id_def get_id_def i ChildProcess_fresh(4) [OF c])
qed

lemma parse_program_configured:
  assumes run: "parse_program P Y program cs = (res, cs')" and cf: "configured cs"
  shows "configured cs'"
proof -
  obtain cfg s where cs: "cs = (cfg, s)" by fastforce
  show ?thesis
    using run cf [unfolded cs]
    by (auto simp: parse_program_def cs lift_exn_def Let_def split: sum.splits prod.splits if_splits
        elim!: andThen_cases dest!: resolve_ids_quiet intro: configured_calls make_child_configured [OF configured_calls])
qed

lemma load_file_configured:
  assumes "load_file P Y file cs = (res, cs')" and "configured cs"
  shows "configured cs'"
  using assms
  by (auto simp: load_file_def lift_exn_def parse_file_def split: sum.splits option.splits
      elim!: andThen_cases for_each_invariant [where P = configured, rotated 2]
      dest: parse_program_configured)

lemma configured_start: "configured (empty_config, ProcessHandler)"
  by (simp add: configured_def empty_config_def ProcessHandler_def wired_def)

lemma sys_call_configured:
  "configured (cfg, s) \<Longrightarrow> quiet_call c \<Longrightarrow> sys_call P c s = (r, t) \<Longrightarrow> configured (cfg, t)"
  by (auto simp: sys_call_def configured_calls quiet_ext_Cons)

lemma Config_files_configured:
  assumes "Config_files P Y files s = (res, cs)" and "configured (empty_config, s)"
  shows "configured cs"
  using assms unfolding Config_files_def
  by (auto elim!: for_each_invariant [where P = configured, rotated 2] dest: load_file_configured)

lemma Config_path_configured:
  assumes "Config_path P Y is_dir file s = (res, cs)" and "configured (empty_config, s)"
  shows "configured cs"
  using assms by (auto simp: Config_path_def split: if_splits dest: load_file_configured)

lemma handle_commandline_configured:
  assumes "handle_commandline_invocation P Y F options ProcessHandler = (Inr (Some cfg), s)"
  shows "configured (cfg, s)"
proof -
  obtain lg u where u: "sys_call P (Log_create ''scinit'') ProcessHandler = (lg, u)" by fastforce
  have "configured (empty_config, u)" 
    by (rule sys_call_configured [OF configured_start _ u]) (simp add: quiet_call_def)
  with assms show ?thesis
    by (auto simp: handle_commandline_invocation_def u Let_def split: if_splits sum.splits prod.splits
        dest: Config_files_configured Config_path_configured)
qed

lemma configured_fresh:
  assumes "configured (cfg, s)" and "next_ref s \<le> 2 ^ 32"
  shows "freshly_configured s"
  using assms by (auto simp: configured_def freshly_configured_def)

section \<open>The states of the running program\<close>

text \<open>
  The state in which the event loop is entered, and the states the program reaches from there.
\<close>

definition launched :: "platform \<Rightarrow> 'n yaml \<Rightarrow> filesystem \<Rightarrow> options \<Rightarrow> config \<Rightarrow> sys \<Rightarrow> sys \<Rightarrow> bool" where
  "launched P Y F opts cfg s0 s \<longleftrightarrow>
     handle_commandline_invocation P Y F opts ProcessHandler = (Inr (Some cfg), s0) \<and>
     setup_signal_handlers P (register_processes (get_processes cfg) s0) = (Inr (), s)"

text \<open>Fewer programs than \<open>child_counter\<close>, an \<open>int\<close>, can count.\<close>

definition few_programs :: "config \<Rightarrow> bool" where
  "few_programs cfg \<longleftrightarrow> length (processes cfg) < 2 ^ 31"

lemma setup_bystander:
  assumes "setup_signal_handlers P s = (res, t)"
  shows "bystander s t"
  using assms
  by (auto simp: setup_signal_handlers_def sys_call_def throw_handler_def bystander_def Let_def keeps_objs_def quiet_rules
      split: if_splits)

lemma launched_inv:
  assumes "launched P Y F opts cfg s0 s" and "few_programs cfg"
  shows "sys_inv (overtaken (objects s0) (processes cfg)) s"
    and "advances (register_processes (get_processes cfg) s0) s"
proof -
  have cf: "configured (cfg, s0)"
    by (rule handle_commandline_configured [OF conjunct1 [OF assms(1) [unfolded launched_def]]])
  then have "processes cfg = [0..<next_ref s0]" by (simp add: configured_def)
  with assms(2) have fc: "freshly_configured s0" and dist: "distinct (processes cfg)"
    using configured_fresh [OF cf] by (simp_all add: few_programs_def)
  have bs: "bystander (register_processes (get_processes cfg) s0) s"
    using assms(1) by (auto simp: launched_def dest: setup_bystander)
  show "sys_inv (overtaken (objects s0) (processes cfg)) s"
    using bystander_inv [OF bs] registered_inv [OF fc dist] by (simp add: get_processes_eq)
  show "advances (register_processes (get_processes cfg) s0) s"
    by (rule bystander_advances [OF bs])
qed

text \<open>A run of \<open>main\<close> that gets as far as the event loop consists of such states.\<close>

lemma main_runs:
  assumes "main_scinit P Y F opts n = (Inr rc, t)"
  obtains "handle_commandline_invocation P Y F opts ProcessHandler = (Inr None, t)" and "rc = - 1"
    | cfg s0 s where "launched P Y F opts cfg s0 s" and "(step P)\<^sup>*\<^sup>* s t"
proof -
  from assms obtain conf s0 where
    h: "handle_commandline_invocation P Y F opts ProcessHandler = (Inr conf, s0)" and
    r: "(case conf of None \<Rightarrow> (Inr (-1), s0)
      | Some cfg \<Rightarrow> enter_eventloop P n (register_processes (get_processes cfg) s0)) = (Inr rc, t)"
    unfolding main_scinit_def andThen_Inr_iff Let_def by blast
  show thesis
  proof (cases conf)
    case None
    with h r that(1) show thesis by simp
  next
    case (Some cfg)
    with r obtain s u where s: "setup_signal_handlers P (register_processes (get_processes cfg) s0) = (Inr (), s)"
      and u: "start_programs P n s = (Inr (), u)" and t: "event_loop P n u = (Inr rc, t)"
      by (auto simp: enter_eventloop_def andThen_Inr_iff)
    from step.start [OF u] event_loop_steps [OF t] have "(step P)\<^sup>*\<^sup>* s t"
      by (rule converse_rtranclp_into_rtranclp)
    with h s Some that(2) show thesis by (simp add: launched_def)
  qed
qed

end
