(* ===== verification/Blocking.thy ===== *)
theory Blocking
  imports Startup
begin

text \<open>
  What it takes to leave the state \<open>BLOCKED\<close>. A condition names one state that the other process has to be in
  at the moment of the check. A process that waits for a state which the other process has already left can never
  become ready.
\<close>

section \<open>Conditions that have been missed\<close>

definition missed :: "sys \<Rightarrow> ref \<Rightarrow> bool" where
  "missed s r \<longleftrightarrow>
     (\<exists>c i st q d. objects s r = Some c \<and> state c = BLOCKED \<and> (i, st) \<in> set (conditions c) \<and>
        omap_find (obj_for_id s) i = Some (Some q) \<and> objects s q = Some d \<and> lives st (state d) \<and> state d \<noteq> st)"

lemma lives_antisym: "lives a b \<Longrightarrow> lives b a \<Longrightarrow> a = b"
  using lives_le [of a b] lives_le [of b a] by simp

lemma missed_calls [simp]: "missed (s\<lparr>calls := tr\<rparr>) r = missed s r"
  by (simp add: missed_def)

lemma missed_blocked: "missed s r \<Longrightarrow> \<exists>c. objects s r = Some c \<and> state c = BLOCKED"
  by (auto simp: missed_def)

text \<open>If the object itself is still blocked, the condition is still missed: nothing goes back in its life.\<close>

lemma missed_advances:
  assumes "missed s r" and adv: "advances s t" and same: "\<And>c'. objects t r = Some c' \<Longrightarrow> state c' = BLOCKED"
  shows "missed t r"
proof -
  from assms(1) obtain c i st q d where
    c: "objects s r = Some c" "state c = BLOCKED" "(i, st) \<in> set (conditions c)" and
    q: "omap_find (obj_for_id s) i = Some (Some q)" and d: "objects s q = Some d" "lives st (state d)" "state d \<noteq> st"
    by (auto simp: missed_def)
  from adv have ev: "evolves (objects s) (objects t)" and "keeps_objs s t" by (simp_all add: advances_def)
  from evolves_Some [OF ev c(1)] obtain c' where c': "objects t r = Some c'" "conditions c' = conditions c"
    by (auto simp: successor_def)
  from evolves_Some [OF ev d(1)] obtain d' where d': "objects t q = Some d'" "lives (state d) (state d')"
    by (auto simp: successor_def)
  have "lives st (state d')" using d(2) d'(2) by (rule lives_trans)
  moreover have "state d' \<noteq> st" using d(2,3) d'(2) lives_antisym by blast
  moreover have "omap_find (obj_for_id t) i = Some (Some q)" using q \<open>keeps_objs s t\<close> by (simp add: keeps_objs_def)
  ultimately show ?thesis using c' c(3) d'(1) same by (auto simp: missed_def)
qed

text \<open>The contract of an operation that leaves blocked objects alone.\<close>

definition leaves_blocked :: "sys \<Rightarrow> sys \<Rightarrow> bool" where
  "leaves_blocked s t \<longleftrightarrow> (\<forall>r c. objects s r = Some c \<longrightarrow> state c = BLOCKED \<longrightarrow> objects t r = Some c)"

lemma missed_leaves_blocked: "missed s r \<Longrightarrow> advances s t \<Longrightarrow> leaves_blocked s t \<Longrightarrow> missed t r"
  by (rule missed_advances) (auto simp: leaves_blocked_def dest!: missed_blocked)

lemma leaves_blocked_update:
  "objects s q = Some d \<Longrightarrow> state d \<noteq> BLOCKED \<Longrightarrow> objects t = (objects s)(q \<mapsto> d') \<Longrightarrow> leaves_blocked s t"
  by (auto simp: leaves_blocked_def)

lemma missed_notify_one:
  assumes m: "missed s r"
  shows "missed (notify_one w s) r"
proof (rule missed_advances [OF m notify_one_advances])
  fix c'
  assume c': "objects (notify_one w s) r = Some c'"
  from m obtain c i st q d where
    c: "objects s r = Some c" "state c = BLOCKED" "(i, st) \<in> set (conditions c)" and
    d: "omap_find (obj_for_id s) i = Some (Some q)" "objects s q = Some d" "state d \<noteq> st"
    by (auto simp: missed_def)
  have "\<not> condition_holds (obj_for_id s) (objects s) (i, st)"
    using d by (simp add: condition_holds_def)
  then have "notify_of_state (obj_for_id s) (objects s) c = c"
    using c(3) by (auto simp: notify_of_state_alt)
  then have "c' = c" using c' c(1) by (auto simp: notify_one_objects lock_Some_iff split: option.splits if_splits)
  then show "state c' = BLOCKED" using c(2) by simp
qed

lemma try_start_objects:
  "try_start P n r c s = (res, t) \<Longrightarrow> objects t = objects s \<or> (\<exists>c'. objects t = (objects s)(r \<mapsto> c'))"
  by (auto simp: try_start_def sys_call_def Let_def split: prod.splits sum.splits if_splits)

lemma start_program_leaves_blocked:
  assumes "start_program P n w s = (res, t)"
  shows "leaves_blocked s t"
proof (cases "\<exists>r c. lock (objects s) w = Some (r, c) \<and> state c = READY")
  case False
  then have "t = s" using assms
    by (auto simp: start_program_def can_start_now_def split: option.splits if_splits)
  then show ?thesis by (simp add: leaves_blocked_def)
next
  case True
  then obtain r c where c: "objects s r = Some c" "state c = READY" and w: "lock (objects s) w = Some (r, c)"
    by (auto simp: lock_Some_iff)
  obtain res' where "try_start P n r c s = (res', t)"
    using assms w c(2)
    by (cases "try_start P n r c s")
      (auto simp: start_program_def can_start_now_def catch_std_def split: sum.splits stop.splits if_splits)
  from try_start_objects [OF this] c show ?thesis
    by (auto simp: leaves_blocked_def)
qed

lemma sigchld_received_leaves_blocked:
  assumes "wired s" and "tracked s" and run: "sigchld_received pid rc s = (res, t)"
  shows "leaves_blocked s t"
proof (cases "omap_find (id_for_pid s) pid")
  case None
  then show ?thesis using run by (simp add: sigchld_received_def leaves_blocked_def)
next
  case (Some i)
  from tracked_pid [OF assms(2) Some] obtain r c where c: "objects s r = Some c" "state c = RUNNING" "graph_id c = i"
    unfolding running_at_def by blast
  have "omap_find (obj_for_id s) i = Some (Some r)" "omap_find (sig_for_id s) (sint i) = Some [r]"
    using assms(1) c by (auto simp: wired_def)
  then have "objects t = (objects s)(r \<mapsto> handle_process_event EXIT rc c)"
    using run Some c by (auto simp: sigchld_received_def Let_def emit_to_def)
  with c show ?thesis by (auto intro: leaves_blocked_update)
qed

section \<open>A missed condition stays missed\<close>

lemma start_programs_missed:
  assumes inv: "sys_inv E s" and fork: "fork_gives_fresh_pid P"
    and run: "start_programs P n s = (Inr (), t)" and m: "missed s r"
  shows "missed t r"
proof -
  let ?u = "fold notify_one (all_objs s) s"
  have m': "missed (fold notify_one ws s) r" if "missed s r" for ws s
    using that by (induction ws arbitrary: s) (auto intro: missed_notify_one)
  from run have loop: "for_each (start_program P n) (all_objs s) ?u = (Inr (), t)"
    by (simp add: start_programs_def Let_def)
  have "sys_inv E t \<and> missed t r"
  proof (rule for_each_invariant_Inr [OF _ _ loop, where P = "\<lambda>t. sys_inv E t \<and> missed t r"])
    show "sys_inv E ?u \<and> missed ?u r" using notify_all_inv [OF inv] m' [OF m] by blast
    fix w u v
    assume u: "sys_inv E u \<and> missed u r" and step: "start_program P n w u = (Inr (), v)"
    then show "sys_inv E v \<and> missed v r"
      using start_program_inv [OF _ fork step, of E] start_program_leaves_blocked [OF step] missed_leaves_blocked
      by blast
  qed
  then show ?thesis ..
qed

lemma step_missed:
  assumes "step P s t" and inv: "sys_inv E s" and fork: "fork_gives_fresh_pid P" and m: "missed s r"
  shows "missed t r"
  using assms(1)
proof cases
  case (start n)
  then show ?thesis by (rule start_programs_missed [OF inv fork _ m])
next
  case (exited rp u)
  have u: "u = s\<lparr>calls := (Sys_waitpid, rp) # calls s\<rparr>" using exited(1) by (auto simp: sys_call_def)
  have "wired u" "tracked u" using inv by (simp_all add: u sys_inv_def wired_def tracked_def)
  then have "leaves_blocked u t" using sigchld_received_leaves_blocked exited(3) by blast
  then have "leaves_blocked s t" by (simp add: u leaves_blocked_def)
  moreover have "advances s t" using step_inv [OF assms(1) inv fork] ..
  ultimately show ?thesis using m missed_leaves_blocked by blast
next
  case (none_exited rp)
  then show ?thesis using m by (auto simp: sys_call_def)
next
  case (wait fd k ms rp)
  then show ?thesis using m by (auto simp: sys_call_def)
next
  case (event fd ev)
  then have "objects t = objects s" and "advances s t"
    using event_received_bystander bystander_advances by (auto simp: bystander_def)
  then show ?thesis using m missed_leaves_blocked [of s r t] by (simp add: leaves_blocked_def)
qed

interpretation stuck: preserved "step P" "\<lambda>s. fork_gives_fresh_pid P \<and> sys_inv E s \<and> missed s r" advances for P E r
  using step_inv step_missed by unfold_locales (blast intro: advances_trans advances_refl)+

end
