(* ===== verification/Guarantees.thy ===== *)
theory Guarantees
  imports Blocking
begin

text \<open>
  The invariant of the supervision read as promises about the running program: how many processes run, which of
  them have been started before which, and what the event loop returns.
\<close>

section \<open>The number of running processes\<close>

definition running :: "sys \<Rightarrow> ref set" where
  "running s = {r. \<exists>c. objects s r = Some c \<and> state c = RUNNING}"

lemma running_count:
  assumes wd: "wired s" and tk: "tracked s"
  shows "finite (running s)" and "number_of_running_procs s = int (card (running s))"
proof -
  let ?pid = "\<lambda>r. primaryPid (the (objects s r))"
  have at: "running_at (objects s) r (graph_id (the (objects s r))) (?pid r)" if "r \<in> running s" for r
    using that by (auto simp: running_def running_at_def)
  have inj: "inj_on ?pid (running s)"
  proof (rule inj_onI)
    fix r r'
    assume r: "r \<in> running s" "r' \<in> running s" and "?pid r = ?pid r'"
    then have "graph_id (the (objects s r)) = graph_id (the (objects s r'))"
      using tracked_running [OF tk at [OF r(1)]] tracked_running [OF tk at [OF r(2)]] by simp
    with r show "r = r'" using wired_same_id [OF wd] by (auto simp: running_def)
  qed
  have img: "?pid ` running s = set (omap_keys (id_for_pid s))"
  proof
    show "?pid ` running s \<subseteq> set (omap_keys (id_for_pid s))"
      using tracked_running [OF tk at] omap_keys_find [of _ "id_for_pid s"] by fastforce
    show "set (omap_keys (id_for_pid s)) \<subseteq> ?pid ` running s"
    proof
      fix pid
      assume "pid \<in> set (omap_keys (id_for_pid s))"
      then obtain i where "omap_find (id_for_pid s) pid = Some i" using omap_keys_find [of pid "id_for_pid s"] by auto
      from tracked_pid [OF tk this] obtain r c where "objects s r = Some c" "state c = RUNNING" "primaryPid c = pid"
        unfolding running_at_def by blast
      then show "pid \<in> ?pid ` running s" by (auto simp: running_def image_iff intro!: exI [of _ r])
    qed
  qed
  show fin: "finite (running s)" using img inj by (metis List.finite_set finite_image_iff)
  have "card (running s) = card (set (omap_keys (id_for_pid s)))" using card_image [OF inj] img by simp
  also have "\<dots> = length (id_for_pid s)"
    using om.card_keys [of "id_for_pid s"] tk by (simp add: tracked_def)
  finally show "number_of_running_procs s = int (card (running s))" using tk by (simp add: tracked_def)
qed

section \<open>Runs of the program\<close>

text \<open>The states that a run of the program with this configuration passes through.\<close>

definition reachable :: "platform \<Rightarrow> 'n yaml \<Rightarrow> filesystem \<Rightarrow> options \<Rightarrow> config \<Rightarrow> sys \<Rightarrow> sys \<Rightarrow> bool" where
  "reachable P Y F opts cfg s0 t \<longleftrightarrow> (\<exists>s. launched P Y F opts cfg s0 s \<and> (step P)\<^sup>*\<^sup>* s t)"

lemma reachable_inv:
  assumes "reachable P Y F opts cfg s0 t" and "few_programs cfg" and "fork_gives_fresh_pid P"
  shows "sys_inv (overtaken (objects s0) (processes cfg)) t"
    and "advances (register_processes (get_processes cfg) s0) t"
proof -
  from assms(1) obtain s where s: "launched P Y F opts cfg s0 s" and run: "(step P)\<^sup>*\<^sup>* s t"
    by (auto simp: reachable_def)
  from machine.run_inv [OF run, of "overtaken (objects s0) (processes cfg)"] launched_inv(1) [OF s assms(2)] assms(3)
  have "sys_inv (overtaken (objects s0) (processes cfg)) t" "advances s t" by blast+
  with launched_inv(2) [OF s assms(2)] show "sys_inv (overtaken (objects s0) (processes cfg)) t"
    and "advances (register_processes (get_processes cfg) s0) t"
    by (blast intro: advances_trans)+
qed

lemma reachable_step: "reachable P Y F opts cfg s0 s \<Longrightarrow> (step P)\<^sup>*\<^sup>* s t \<Longrightarrow> reachable P Y F opts cfg s0 t"
  unfolding reachable_def by (meson rtranclp_trans)

lemma reachable_configured:
  assumes "reachable P Y F opts cfg s0 t" and "few_programs cfg"
  shows "configured (cfg, s0)" and "freshly_configured s0" and "distinct (processes cfg)"
    and "r \<in> set (processes cfg) \<longleftrightarrow> objects s0 r \<noteq> None"
proof -
  from assms(1) have "handle_commandline_invocation P Y F opts ProcessHandler = (Inr (Some cfg), s0)"
    by (auto simp: reachable_def launched_def)
  then show cf: "configured (cfg, s0)" by (rule handle_commandline_configured)
  then have pr: "processes cfg = [0..<next_ref s0]" by (simp add: configured_def)
  with assms(2) show "freshly_configured s0" "distinct (processes cfg)"
    using configured_fresh [OF cf] by (simp_all add: few_programs_def)
  show "r \<in> set (processes cfg) \<longleftrightarrow> objects s0 r \<noteq> None"
    using cf pr by (simp add: configured_def)
qed

text \<open>What is waited for has been started, once the waiting process is not blocked any more.\<close>

lemma waited_for_started:
  assumes run: "reachable P Y F opts cfg s0 t" and few: "few_programs cfg" and fork: "fork_gives_fresh_pid P"
    and a: "objects s0 a = Some ca" and b: "objects s0 b = Some cb"
    and dep: "name ca \<in> set (before cb) \<or> name cb \<in> set (after ca)"
    and ontime: "a \<notin> overtaken (objects s0) (processes cfg)"
    and ca': "objects t a = Some ca'" "state ca' \<noteq> BLOCKED"
  shows "\<exists>cb'. objects t b = Some cb' \<and> state cb' \<in> {RUNNING, DONE, CRASHED}"
proof -
  let ?s1 = "register_processes (get_processes cfg) s0"
  have fc: "freshly_configured s0" and mem: "\<And>r. r \<in> set (processes cfg) \<longleftrightarrow> objects s0 r \<noteq> None"
    using reachable_configured [OF run few] by simp_all
  have inv: "sys_inv (overtaken (objects s0) (processes cfg)) t" and adv: "advances ?s1 t"
    using reachable_inv [OF run few fork] by simp_all
  obtain ca1 where ca1: "objects ?s1 a = Some ca1"
    using registered_some [OF a, of "processes cfg"] by (auto simp: get_processes_eq)
  obtain cb1 where cb1: "objects ?s1 b = Some cb1" "graph_id cb1 = graph_id cb"
    using registered_some [OF b, of "processes cfg"] by (auto simp: get_processes_eq static_def)
  have "conditions ca = []" using fc a by (auto simp: freshly_configured_def)
  then have "graph_id cb \<in> cond_ids (objects ?s1) a"
    using registered_cond_ids [OF a, of "processes cfg"] mem a b dep by (auto simp: get_processes_eq)
  then obtain st where cond: "(graph_id cb, st) \<in> set (conditions ca1)"
    using ca1 by (auto simp: cond_ids_def)
  have st: "st \<in> {RUNNING, DONE}"
    using registered_sound [OF fc dependency_states, of "get_processes cfg"] ca1 cond by (force simp: sound_states_def)
  from adv have ev: "evolves (objects ?s1) (objects t)" by (simp add: advances_def)
  from evolves_Some [OF ev ca1] ca'(1) have "conditions ca' = conditions ca1" by (simp add: successor_def)
  with inv cond ca' ontime have "reached t (graph_id cb, st)"
    by (auto simp: sys_inv_def order_respected_def)
  then obtain r other where r: "omap_find (obj_for_id t) (graph_id cb) = Some (Some r)"
    "objects t r = Some other" "lives st (state other)" by (auto simp: reached_def)
  from evolves_Some [OF ev cb1(1)] obtain cb' where cb': "objects t b = Some cb'" "graph_id cb' = graph_id cb"
    using cb1(2) by (auto simp: successor_def)
  from inv have "wired t" by (simp add: sys_inv_def)
  with cb' have "omap_find (obj_for_id t) (graph_id cb) = Some (Some b)"
    unfolding wired_def by metis
  with r cb' st show ?thesis by auto
qed

text \<open>The result of \<open>main\<close>.\<close>

lemma main_result:
  assumes "main_scinit P Y F opts n = (Inr rc, t)"
  obtains (no_config) "rc = -1" "\<not> fs_exists F (opt_config opts)"
    | (served) cfg s0 where "rc = 0" "reachable P Y F opts cfg s0 t" "number_of_running_procs t = 0"
  using assms
proof (cases rule: main_runs)
  case 1
  then show thesis
    by (intro no_config) (auto simp: handle_commandline_invocation_def Let_def sys_call_def split: if_splits sum.splits prod.splits)
next
  case (2 cfg s0 s)
  from assms obtain conf s1 where "handle_commandline_invocation P Y F opts ProcessHandler = (Inr conf, s1)" and
    r: "(case conf of None \<Rightarrow> (Inr (-1), s1)
      | Some cfg \<Rightarrow> enter_eventloop P n (register_processes (get_processes cfg) s1)) = (Inr rc, t)"
    unfolding main_scinit_def andThen_Inr_iff Let_def by blast
  with 2 have "enter_eventloop P n (register_processes (get_processes cfg) s0) = (Inr rc, t)"
    by (simp add: launched_def)
  then obtain u where "event_loop P n u = (Inr rc, t)"
    unfolding enter_eventloop_def andThen_Inr_iff by blast
  from event_loop_result [OF this] 2 show thesis
    by (intro served [of cfg s0]) (auto simp: reachable_def)
qed

section \<open>Starting succeeds when nothing fails\<close>

text \<open>A world in which the calls that start a program succeed.\<close>

definition cooperative :: "platform \<Rightarrow> bool" where
  "cooperative P \<longleftrightarrow>
     (\<forall>tr nm epfd fd ev. ret (os P tr (Log_create nm)) = 0 \<and> ret (os P tr Sys_pipe) \<noteq> -1 \<and> 0 < ret (os P tr Sys_fork) \<and>
        ret (os P tr (Sys_epoll_ctl_add epfd fd ev)) \<noteq> -1)"

lemma open_pipes_succeeds:
  assumes "cooperative P"
  obtains c' tr' where "open_pipes P (c, tr) = (Inr (), (c', tr'))" and "same_but_channels c c'"
proof -
  obtain res c' tr' where op: "open_pipes P (c, tr) = (res, (c', tr'))" by (metis prod.exhaust)
  moreover from op have "res = Inr ()"
    using assms by (auto simp: open_pipes_def syscall_def Let_def cooperative_def)
  moreover have "same_but_channels c c'" using open_pipes_outcome [OF op] by simp
  ultimately show thesis using that by blast
qed

lemma start_program_succeeds:
  assumes coop: "cooperative P" and c: "objects s r = Some c" "state c = READY" "\<not> want_tty c"
    and env: "handle_env P c = Inr environment"
  obtains c' t where "start_program P n (Some r) s = (Inr (), t)" and "objects t = (objects s)(r \<mapsto> c')"
    and "state c' = RUNNING" and "successor c c'" and "obj_for_id t = obj_for_id s" and "all_objs t = all_objs s"
    and "omap_find (id_for_fd t) (fst (stdout c')) = Some (graph_id c)"
    and "omap_find (id_for_fd t) (fst (stderr c')) = Some (graph_id c)"
    and "omap_find (id_for_pid t) (primaryPid c') = Some (graph_id c)"
    and "omap_find (num_fd_for_id t) (graph_id c) = Some 2"
    and "number_of_running_procs t = number_of_running_procs s + 1"
    and "outstanding (calls t) = insert (primaryPid c') (outstanding (calls s))"
proof -
  define tr0 where "tr0 = (Log_create (name c), os P (calls s) (Log_create (name c))) # calls s"
  obtain c1 tr1 where op: "open_pipes P (c, tr0) = (Inr (), (c1, tr1))" and ch: "same_but_channels c c1"
    using open_pipes_succeeds [OF coop] by blast
  have env1: "handle_env P c1 = Inr environment"
    using handle_env_cong [of c1 c P] env by (simp add: same_but_channels_fields [OF ch])
  define pid where "pid = ret (os P tr1 Sys_fork)"
  have pid: "0 < pid" using coop by (simp add: pid_def cooperative_def)
  let ?c' = "c1\<lparr>primaryPid := pid, state := RUNNING\<rparr>"
  have ch1: "open_channels P n (c, tr0) = (Inr (), (c1, tr1))" using op c(3) by (simp add: open_channels_def)
  obtain tr2 where fk: "do_fork P n (c, id_for_pid s, tr0) =
      (Inr (), (?c', omap_insert pid (graph_id c) (id_for_pid s), tr2))"
    using pid c(2) by (auto simp: do_fork_def ch1 env1 Let_def syscall_def same_but_channels_fields [OF ch] simp flip: pid_def)
  obtain m types tr3 where rg: "register_with_epoll P (epoll_fd s) ?c' (id_for_fd s, fd_type s, tr2) = (Inr (), (m, types, tr3))"
    and m: "omap_find m (fst (stdout ?c')) = Some (graph_id ?c')" "omap_find m (fst (stderr ?c')) = Some (graph_id ?c')"
    using coop by (auto simp: register_with_epoll_def syscall_def Let_def cooperative_def)
  have id: "graph_id c1 = graph_id c" by (simp add: same_but_channels_fields [OF ch])
  let ?t = "s\<lparr>objects := (objects s)(r \<mapsto> ?c'),
      id_for_pid := omap_insert pid (graph_id c) (id_for_pid s), calls := tr3, id_for_fd := m, fd_type := types,
      num_fd_for_id := omap_insert (graph_id c) 2 (num_fd_for_id s),
      number_of_running_procs := number_of_running_procs s + 1\<rparr>"
  have ts: "try_start P n r c s = (Inr (), ?t)"
    using coop fk rg id
    by (simp add: try_start_def sys_call_def get_name_def get_id_def cooperative_def Let_def tr0_def)
  then have run: "start_program P n (Some r) s = (Inr (), ?t)"
    using c by (simp add: start_program_def can_start_now_def catch_std_def)
  have sc: "successor c ?c'" using c(2) by (simp add: successor_def same_but_channels_fields [OF ch])
  obtain d where d: "objects ?t = (objects s)(r \<mapsto> d)"
      "outstanding (calls ?t) = insert (primaryPid d) (outstanding (calls s))"
    by (rule try_start_Inr [OF ts])
  from d(1) have "(objects ?t) r = Some d" by simp
  then have "d = ?c'" by simp
  with d(2) have out: "outstanding (calls ?t) = insert (primaryPid ?c') (outstanding (calls s))" by simp
  show thesis by (rule that [OF run, of ?c']) (use m id sc out in simp_all)
qed

end
