(* ===== verification/Stages.thy ===== *)
theory Stages
  imports Guarantees
begin

text \<open>
  The abstract specification of the supervision: a machine that knows of every process only its state and the
  processes it waits for, and the refinement that relates the handler to it. Every step of the handler, with its
  tables, descriptors and system calls, is a finite sequence of moves of this machine.
\<close>

section \<open>The abstract machine\<close>

type_synonym stages = "ref \<rightharpoonup> ProcessState"
type_synonym waits_for = "ref \<Rightarrow> (ref \<times> ProcessState) set"

text \<open>
  A process becomes ready when everything it waits for is in the awaited state, it is started once it is ready,
  and it exits once it is running.
\<close>

inductive stage_move :: "waits_for \<Rightarrow> stages \<Rightarrow> stages \<Rightarrow> bool" for D where
  unblock: "a r = Some BLOCKED \<Longrightarrow> \<forall>(q, st)\<in>D r. a q = Some st \<Longrightarrow> stage_move D a (a(r \<mapsto> READY))"
| started: "a r = Some READY \<Longrightarrow> stage_move D a (a(r \<mapsto> RUNNING))"
| ended: "a r = Some RUNNING \<Longrightarrow> st \<in> {DONE, CRASHED} \<Longrightarrow> stage_move D a (a(r \<mapsto> st))"

text \<open>What a process may still do: an upper bound for the number of its moves.\<close>

primrec moves_left :: "ProcessState \<Rightarrow> nat" where
  "moves_left BLOCKED = 3"
| "moves_left READY = 2"
| "moves_left RUNNING = 1"
| "moves_left DONE = 0"
| "moves_left CRASHED = 0"
| "moves_left BACKOFF = 0"

definition total_moves_left :: "stages \<Rightarrow> nat" where
  "total_moves_left a = (\<Sum>r\<in>dom a. moves_left (the (a r)))"

lemma stage_move_update:
  assumes "stage_move D a b"
  obtains r x y where "a r = Some x" and "b = a(r \<mapsto> y)" and "moves x y"
  using assms
proof cases
  case (unblock r)
  then show thesis by (intro that [of r BLOCKED READY]) simp_all
next
  case (started r)
  then show thesis by (intro that [of r READY RUNNING]) simp_all
next
  case (ended r st)
  then show thesis by (intro that [of r RUNNING st]) auto
qed

lemma stage_move_decreases:
  assumes "stage_move D a b" and fin: "finite (dom a)"
  shows "dom b = dom a" and "total_moves_left b < total_moves_left a"
proof -
  from assms(1) obtain r x y where r: "a r = Some x" and b: "b = a(r \<mapsto> y)" and xy: "moves x y"
    by (rule stage_move_update)
  show dom: "dom b = dom a" using r b by auto
  have "moves_left y < moves_left x" using xy by (cases x) auto
  moreover have "(\<Sum>q\<in>dom a - {r}. moves_left (the (b q))) = (\<Sum>q\<in>dom a - {r}. moves_left (the (a q)))"
    by (rule sum.cong) (auto simp: b)
  ultimately show "total_moves_left b < total_moves_left a"
    using fin r dom by (simp add: total_moves_left_def b sum.remove [of "dom a" r] domI)
qed

text \<open>So a run of the machine has at most that many moves.\<close>

lemma stage_run_length:
  assumes "(stage_move D ^^ k) a b" and "finite (dom a)"
  shows "dom b = dom a \<and> k + total_moves_left b \<le> total_moves_left a"
  using assms(1)
proof (induction k arbitrary: b)
  case (Suc k)
  then obtain c where "(stage_move D ^^ k) a c" and cb: "stage_move D c b" by auto
  with Suc.IH have c: "dom c = dom a" "k + total_moves_left c \<le> total_moves_left a" by simp_all
  then show ?case using stage_move_decreases [OF cb] assms(2) by simp
qed simp

section \<open>Simulation\<close>

text \<open>
  The contract of a refinement: an abstraction function under which every concrete step that starts in a state of the
  invariant is a sequence of abstract steps.
\<close>

locale simulation =
  fixes concrete :: "'s \<Rightarrow> 's \<Rightarrow> bool"
    and abstract :: "'a \<Rightarrow> 'a \<Rightarrow> bool"
    and inv :: "'s \<Rightarrow> bool"
    and abs :: "'s \<Rightarrow> 'a"
  assumes simulates: "inv s \<Longrightarrow> concrete s t \<Longrightarrow> inv t \<and> abstract\<^sup>*\<^sup>* (abs s) (abs t)"

sublocale simulation \<subseteq> preserved concrete inv "\<lambda>s t. abstract\<^sup>*\<^sup>* (abs s) (abs t)"
  using simulates by unfold_locales auto

section \<open>The abstraction of the handler\<close>

definition stages_of :: "sys \<Rightarrow> stages" where
  "stages_of s = (\<lambda>r. map_option state (objects s r))"

definition awaited :: "sys \<Rightarrow> waits_for" where
  "awaited s r = {(q, st). \<exists>c i. objects s r = Some c \<and> (i, st) \<in> set (conditions c) \<and>
     omap_find (obj_for_id s) i = Some (Some q)}"

lemma stages_of_eq: "objects t = objects s \<Longrightarrow> stages_of t = stages_of s"
  by (simp add: stages_of_def)

lemma stages_of_update:
  "objects t = (objects s)(r \<mapsto> c) \<Longrightarrow> stages_of t = (stages_of s)(r \<mapsto> state c)"
  by (auto simp: stages_of_def)

lemma stages_of_same:
  "objects s r = Some c \<Longrightarrow> objects t = (objects s)(r \<mapsto> c') \<Longrightarrow> state c' = state c \<Longrightarrow> stages_of t = stages_of s"
  by (auto simp: stages_of_def)

text \<open>What was awaited at the start is still awaited later on.\<close>

lemma awaited_holds:
  assumes adv: "advances s0 s" and c: "objects s r = Some c"
    and all: "\<forall>cond\<in>set (conditions c). condition_holds (obj_for_id s) (objects s) cond"
    and q: "(q, st) \<in> awaited s0 r"
  shows "stages_of s q = Some st"
proof -
  from q obtain c0 i where c0: "objects s0 r = Some c0" "(i, st) \<in> set (conditions c0)"
    and i: "omap_find (obj_for_id s0) i = Some (Some q)" by (auto simp: awaited_def)
  from adv have ev: "evolves (objects s0) (objects s)" and ko: "keeps_objs s0 s" by (simp_all add: advances_def)
  from evolves_Some [OF ev c0(1)] c c0(2) have "(i, st) \<in> set (conditions c)" by (auto simp: successor_def)
  with all have "condition_holds (obj_for_id s) (objects s) (i, st)" by blast
  moreover have "omap_find (obj_for_id s) i = Some (Some q)" using ko i by (simp add: keeps_objs_def)
  ultimately show ?thesis by (auto simp: condition_holds_def stages_of_def)
qed

section \<open>The operations as moves\<close>

lemma notify_one_moves:
  assumes "advances s0 s"
  shows "(stage_move (awaited s0))\<^sup>*\<^sup>* (stages_of s) (stages_of (notify_one w s))"
proof (cases "lock (objects s) w")
  case None
  then show ?thesis by (simp add: notify_one_def)
next
  case (Some rc)
  then obtain r c where w: "lock (objects s) w = Some (r, c)" and c: "objects s r = Some c"
    by (cases rc) (auto simp: lock_Some_iff)
  let ?c' = "notify_of_state (obj_for_id s) (objects s) c"
  have t: "objects (notify_one w s) = (objects s)(r \<mapsto> ?c')" by (simp add: notify_one_objects w)
  show ?thesis
  proof (cases "state c = BLOCKED \<and> (\<forall>cond\<in>set (conditions c). condition_holds (obj_for_id s) (objects s) cond)")
    case True
    then have "state ?c' = READY" by (simp add: notify_of_state_alt)
    moreover have "stages_of s r = Some BLOCKED" using c True by (simp add: stages_of_def)
    moreover have "\<forall>(q, st)\<in>awaited s0 r. stages_of s q = Some st"
      using awaited_holds [OF assms c] True by auto
    ultimately show ?thesis
      using stages_of_update [OF t] by (auto intro: stage_move.unblock)
  next
    case False
    then have "?c' = c" by (auto simp: notify_of_state_alt)
    then have "stages_of (notify_one w s) = stages_of s" using stages_of_same [OF c t] by simp
    then show ?thesis by simp
  qed
qed

lemma start_program_stages:
  assumes run: "start_program P n w s = (Inr (), t)"
  shows "stages_of t = stages_of s \<or> (\<exists>r. stages_of s r = Some READY \<and> stages_of t = (stages_of s)(r \<mapsto> RUNNING))"
  using run
proof (cases rule: start_program_cases)
  case skipped
  then show ?thesis by simp
next
  case (started r c)
  obtain c' where "objects t = (objects s)(r \<mapsto> c')" "state c' = RUNNING" by (rule try_start_Inr [OF started(3)])
  then have "stages_of t = (stages_of s)(r \<mapsto> RUNNING)" using stages_of_update by metis
  moreover have "stages_of s r = Some READY" using started by (simp add: stages_of_def)
  ultimately show ?thesis by blast
next
  case (caught r c x)
  obtain c' where ch: "same_but_channels c c'" and ob: "objects t = (objects s)(r \<mapsto> c')"
    by (rule try_start_caught [OF caught(3,4,1)])
  have "stages_of t = stages_of s"
    by (rule stages_of_same [OF caught(1) ob]) (simp add: same_but_channels_fields [OF ch])
  then show ?thesis ..
qed

lemma start_program_moves:
  assumes "start_program P n w s = (Inr (), t)"
  shows "(stage_move D)\<^sup>*\<^sup>* (stages_of s) (stages_of t)"
  using start_program_stages [OF assms] by (elim disjE exE conjE) (simp_all add: r_into_rtranclp stage_move.started)

lemma sigchld_received_stages:
  assumes "wired s" and "tracked s" and run: "sigchld_received pid rc s = (res, t)"
  shows "stages_of t = stages_of s \<or>
    (\<exists>r. stages_of s r = Some RUNNING \<and> stages_of t = (stages_of s)(r \<mapsto> (if rc = 0 then DONE else CRASHED)))"
proof (cases "omap_find (id_for_pid s) pid")
  case None
  then show ?thesis using run by (simp add: sigchld_received_def)
next
  case (Some i)
  from tracked_pid [OF assms(2) Some] obtain r c where c: "objects s r = Some c" "state c = RUNNING" "graph_id c = i"
    unfolding running_at_def by blast
  have "omap_find (obj_for_id s) i = Some (Some r)" "omap_find (sig_for_id s) (sint i) = Some [r]"
    using assms(1) c by (auto simp: wired_def)
  then have "objects t = (objects s)(r \<mapsto> handle_process_event EXIT rc c)"
    using run Some c by (auto simp: sigchld_received_def Let_def emit_to_def)
  from stages_of_update [OF this] have "stages_of t = (stages_of s)(r \<mapsto> (if rc = 0 then DONE else CRASHED))" by simp
  moreover have "stages_of s r = Some RUNNING" using c by (simp add: stages_of_def)
  ultimately show ?thesis by blast
qed

lemma sigchld_received_moves:
  assumes "wired s" and "tracked s" and run: "sigchld_received pid rc s = (res, t)"
  shows "(stage_move D)\<^sup>*\<^sup>* (stages_of s) (stages_of t)"
  using sigchld_received_stages [OF assms] by (elim disjE exE conjE) (simp_all add: r_into_rtranclp stage_move.ended)

lemma notify_all_moves:
  assumes "sys_inv E s" and "advances s0 s"
  shows "(stage_move (awaited s0))\<^sup>*\<^sup>* (stages_of s) (stages_of (fold notify_one ws s))"
  using assms
proof (induction ws arbitrary: s)
  case (Cons w ws)
  have "sys_inv E (notify_one w s)" by (rule notify_one_inv [OF Cons.prems(1)])
  moreover have "advances s0 (notify_one w s)" by (rule advances_trans [OF Cons.prems(2) notify_one_advances])
  ultimately have "(stage_move (awaited s0))\<^sup>*\<^sup>* (stages_of (notify_one w s)) (stages_of (fold notify_one (w # ws) s))"
    using Cons.IH by simp
  with notify_one_moves [OF Cons.prems(2)] show ?case by (rule rtranclp_trans)
qed simp

lemma start_programs_moves:
  assumes inv: "sys_inv E s" and adv: "advances s0 s" and run: "start_programs P n s = (Inr (), t)"
  shows "(stage_move (awaited s0))\<^sup>*\<^sup>* (stages_of s) (stages_of t)"
proof -
  let ?u = "fold notify_one (all_objs s) s"
  from run have loop: "for_each (start_program P n) (all_objs s) ?u = (Inr (), t)"
    by (simp add: start_programs_def Let_def)
  show ?thesis
  proof (rule for_each_invariant_Inr [OF _ _ loop, where P = "\<lambda>v. (stage_move (awaited s0))\<^sup>*\<^sup>* (stages_of s) (stages_of v)"])
    show "(stage_move (awaited s0))\<^sup>*\<^sup>* (stages_of s) (stages_of ?u)" by (rule notify_all_moves [OF inv adv])
    show "(stage_move (awaited s0))\<^sup>*\<^sup>* (stages_of s) (stages_of v)"
      if "(stage_move (awaited s0))\<^sup>*\<^sup>* (stages_of s) (stages_of u)" "start_program P n w u = (Inr (), v)" for w u v
      using that(1) start_program_moves [OF that(2)] by (rule rtranclp_trans)
  qed
qed

lemma step_moves:
  assumes "step P s t" and inv: "sys_inv E s" and adv: "advances s0 s"
  shows "(stage_move (awaited s0))\<^sup>*\<^sup>* (stages_of s) (stages_of t)"
  using assms(1)
proof cases
  case (start n)
  then show ?thesis by (rule start_programs_moves [OF inv adv])
next
  case (exited rp u)
  have u: "u = s\<lparr>calls := (Sys_waitpid, rp) # calls s\<rparr>" using exited(1) by (auto simp: sys_call_def)
  have "wired u" "tracked u" using inv by (simp_all add: u sys_inv_def wired_def tracked_def)
  from sigchld_received_moves [OF this exited(3)] show ?thesis by (simp add: u stages_of_def)
next
  case (none_exited rp)
  then have "stages_of t = stages_of s" by (auto simp: sys_call_def stages_of_def)
  then show ?thesis by simp
next
  case (wait fd k ms rp)
  then have "stages_of t = stages_of s" by (auto simp: sys_call_def stages_of_def)
  then show ?thesis by simp
next
  case (event fd ev)
  then have "objects t = objects s" using event_received_bystander by (auto simp: bystander_def)
  then have "stages_of t = stages_of s" by (rule stages_of_eq)
  then show ?thesis by simp
qed

interpretation sup: simulation "step P" "stage_move (awaited s0)"
  "\<lambda>s. fork_gives_fresh_pid P \<and> sys_inv E s \<and> advances s0 s" stages_of for P s0 E
  using step_inv step_moves by unfold_locales (blast intro: advances_trans)

text \<open>
  In the state in which the event loop is entered, a process awaits those that name it in \<open>before\<close> and those that it
  names in \<open>after\<close>, and all of them are blocked or ready.
\<close>

lemma awaited_launched:
  assumes run: "launched P Y F opts cfg s0 s" and few: "few_programs cfg"
    and a: "objects s0 a = Some ca" and b: "objects s0 b = Some cb"
  shows "(\<exists>st. (b, st) \<in> awaited s a) \<longleftrightarrow> name ca \<in> set (before cb) \<or> name cb \<in> set (after ca)"
proof -
  let ?s1 = "register_processes (get_processes cfg) s0"
  have reach: "reachable P Y F opts cfg s0 s" using run by (auto simp: reachable_def)
  have fc: "freshly_configured s0" and mem: "\<And>r. r \<in> set (processes cfg) \<longleftrightarrow> objects s0 r \<noteq> None"
    using reachable_configured [OF reach few] by simp_all
  have ob: "objects s = objects ?s1"
    using run setup_bystander by (fastforce simp: launched_def bystander_def)
  have wd: "wired s" using launched_inv(1) [OF run few] by (simp add: sys_inv_def)
  have known: "omap_find (obj_for_id s) (graph_id d) = Some (Some q)" if "objects s0 q = Some d" for q d
  proof -
    from registered_some [OF that, of "processes cfg"] obtain d' where "objects s q = Some d'" "graph_id d' = graph_id d"
      by (auto simp: ob get_processes_eq static_def)
    with wd show ?thesis unfolding wired_def by metis
  qed
  obtain ca1 where ca1: "objects s a = Some ca1"
    using registered_some [OF a, of "processes cfg"] by (auto simp: ob get_processes_eq)
  have "conditions ca = []" using fc a by (auto simp: freshly_configured_def)
  then have ids: "cond_ids (objects s) a =
      {graph_id d | q d. q \<in> set (processes cfg) \<and> objects s0 q = Some d \<and>
         (name ca \<in> set (before d) \<or> name d \<in> set (after ca))}"
    using registered_cond_ids [OF a, of "processes cfg"] mem a by (simp add: ob get_processes_eq)
  show ?thesis
  proof
    assume "\<exists>st. (b, st) \<in> awaited s a"
    then obtain i where "i \<in> cond_ids (objects s) a" and i: "omap_find (obj_for_id s) i = Some (Some b)"
      using ca1 by (force simp: awaited_def cond_ids_def)
    with ids obtain q d where q: "objects s0 q = Some d" "i = graph_id d"
      and dep: "name ca \<in> set (before d) \<or> name d \<in> set (after ca)" by blast
    have "q = b" using known [OF q(1)] q(2) i by simp
    with q(1) b dep show "name ca \<in> set (before cb) \<or> name cb \<in> set (after ca)" by simp
  next
    assume "name ca \<in> set (before cb) \<or> name cb \<in> set (after ca)"
    moreover have "b \<in> set (processes cfg)" using mem b by simp
    ultimately have "graph_id cb \<in> cond_ids (objects s) a" using ids b by blast
    then obtain st where "(graph_id cb, st) \<in> set (conditions ca1)" using ca1 by (auto simp: cond_ids_def)
    with ca1 known [OF b] show "\<exists>st. (b, st) \<in> awaited s a" by (auto simp: awaited_def)
  qed
qed

lemma stages_launched:
  assumes run: "launched P Y F opts cfg s0 s" and few: "few_programs cfg"
  shows "dom (stages_of s) = set (processes cfg)" and "total_moves_left (stages_of s) \<le> 3 * length (processes cfg)"
proof -
  let ?s1 = "register_processes (get_processes cfg) s0"
  have reach: "reachable P Y F opts cfg s0 s" using run by (auto simp: reachable_def)
  have mem: "\<And>r. r \<in> set (processes cfg) \<longleftrightarrow> objects s0 r \<noteq> None" and dist: "distinct (processes cfg)"
    using reachable_configured [OF reach few] by simp_all
  have ob: "objects s = objects ?s1"
    using run setup_bystander by (fastforce simp: launched_def bystander_def)
  have "objects s r = None \<longleftrightarrow> objects s0 r = None" for r
    using reg.fold_keeps [of "get_processes cfg" "get_processes cfg" "objects s0" r]
    by (simp add: ob) (metis map_option_is_None)
  then show dom: "dom (stages_of s) = set (processes cfg)" using mem by (auto simp: stages_of_def dom_def)
  have "moves_left x \<le> 3" for x by (cases x) simp_all
  then have "total_moves_left (stages_of s) \<le> card (dom (stages_of s)) * 3"
    using sum_bounded_above [of "dom (stages_of s)" "\<lambda>r. moves_left (the (stages_of s r))" 3]
    by (simp add: total_moves_left_def)
  then show "total_moves_left (stages_of s) \<le> 3 * length (processes cfg)"
    using dom dist by (simp add: distinct_card)
qed

lemma launched_moves:
  assumes "launched P Y F opts cfg s0 s" and "few_programs cfg" and "fork_gives_fresh_pid P" and "(step P)\<^sup>*\<^sup>* s t"
  shows "(stage_move (awaited s))\<^sup>*\<^sup>* (stages_of s) (stages_of t)"
proof -
  have "fork_gives_fresh_pid P \<and> sys_inv (overtaken (objects s0) (processes cfg)) s \<and> advances s s"
    using launched_inv(1) [OF assms(1,2)] assms(3) by simp
  from sup.run_inv [OF assms(4) this] show ?thesis ..
qed

end
