(* ===== verification/Starts.thy ===== *)
theory Starts
  imports Stages
begin

text \<open>
  How often a program is started. The forks that the trace records are counted against the objects that have been
  started: in every state of a run there is exactly one fork for each of them.
\<close>

section \<open>Counting\<close>

definition started :: "sys \<Rightarrow> ref set" where
  "started s = {r. \<exists>c. objects s r = Some c \<and> state c \<in> {RUNNING, DONE, CRASHED}}"

definition forks_match :: "sys \<Rightarrow> bool" where
  "forks_match s \<longleftrightarrow> finite (dom (objects s)) \<and> count_calls Sys_fork (calls s) = card (started s)"

lemma count_quiet: "quiet_ext tr tr' \<Longrightarrow> count_calls Sys_fork tr' = count_calls Sys_fork tr"
proof -
  have "count_calls Sys_fork (es @ tr) = count_calls Sys_fork tr" if "\<forall>e\<in>set es. quiet_call (fst e)" for es
    using that by (induction es) (auto simp: quiet_call_def)
  then show "quiet_ext tr tr' \<Longrightarrow> count_calls Sys_fork tr' = count_calls Sys_fork tr"
    by (auto simp: quiet_ext_def)
qed

lemma started_stages: "started s = {r. stages_of s r \<in> Some ` {RUNNING, DONE, CRASHED}}"
  by (auto simp: started_def stages_of_def)

lemma started_finite: "finite (dom (objects s)) \<Longrightarrow> finite (started s)"
  by (rule finite_subset [of _ "dom (objects s)"]) (auto simp: started_def)

lemma dom_evolves: "evolves h h' \<Longrightarrow> dom h' = dom h"
  by (auto dest: evolves_Some evolves_Some_back)

text \<open>An operation that neither starts an object nor forks keeps the count.\<close>

lemma forks_match_same:
  assumes "forks_match s" and "dom (objects t) = dom (objects s)" and "started t = started s"
    and "count_calls Sys_fork (calls t) = count_calls Sys_fork (calls s)"
  shows "forks_match t"
  using assms by (simp add: forks_match_def)

section \<open>The operations\<close>

lemma notify_one_forks:
  assumes "forks_match s"
  shows "forks_match (notify_one w s)"
proof (rule forks_match_same [OF assms])
  show "dom (objects (notify_one w s)) = dom (objects s)"
    using notify_one_advances [of s w] by (simp add: advances_def dom_evolves)
  have "state (notify_of_state procs h c) \<in> {RUNNING, DONE, CRASHED} \<longleftrightarrow> state c \<in> {RUNNING, DONE, CRASHED}" for procs h c
    by (auto simp: notify_of_state_alt)
  then show "started (notify_one w s) = started s"
    by (auto simp: started_def notify_one_objects lock_Some_iff split: option.splits)
qed simp

lemma start_program_forks:
  assumes fm: "forks_match s" and run: "start_program P n w s = (Inr (), t)"
  shows "forks_match t"
  using run
proof (cases rule: start_program_cases)
  case skipped
  with fm show ?thesis by simp
next
  case (started r c)
  obtain c' tr1 where ob: "objects t = (objects s)(r \<mapsto> c')" "state c' = RUNNING"
    and q: "quiet_ext (calls s) tr1" "quiet_ext ((Sys_fork, os P tr1 Sys_fork) # tr1) (calls t)"
    by (rule try_start_Inr [OF started(3)])
  have "started t = insert r (started s)" "r \<notin> started s"
    using ob started(1,2) by (auto simp: started_def)
  moreover have "count_calls Sys_fork (calls t) = Suc (count_calls Sys_fork (calls s))"
    using count_quiet [OF q(1)] count_quiet [OF q(2)] by simp
  ultimately show ?thesis
    using fm started_finite [of s] started(1) ob(1) by (simp add: forks_match_def)
next
  case (caught r c x)
  obtain c' where ch: "same_but_channels c c'" and ob: "objects t = (objects s)(r \<mapsto> c')"
    and q: "quiet_ext (calls s) (calls t)"
    by (rule try_start_caught [OF caught(3,4,1)])
  have "stages_of t = stages_of s"
    by (rule stages_of_same [OF caught(1) ob]) (simp add: same_but_channels_fields [OF ch])
  then have "started t = started s" by (simp add: started_stages)
  moreover have "dom (objects t) = dom (objects s)" using ob caught(1) by auto
  ultimately show ?thesis using forks_match_same [OF fm] count_quiet [OF q] by simp
qed

lemma start_programs_forks:
  assumes fm: "forks_match s" and run: "start_programs P n s = (Inr (), t)"
  shows "forks_match t"
proof -
  let ?u = "fold notify_one (all_objs s) s"
  from run have loop: "for_each (start_program P n) (all_objs s) ?u = (Inr (), t)"
    by (simp add: start_programs_def Let_def)
  have "forks_match (fold notify_one ws s)" if "forks_match s" for ws s
    using that by (induction ws arbitrary: s) (simp_all add: notify_one_forks)
  from this [OF fm] show ?thesis
    by (rule for_each_invariant_Inr [OF _ _ loop, where P = forks_match, rotated]) (rule start_program_forks)
qed

lemma sigchld_received_forks:
  assumes fm: "forks_match s" and wt: "wired s" "tracked s" and run: "sigchld_received pid rc s = (res, t)"
  shows "forks_match t"
proof (cases "omap_find (id_for_pid s) pid")
  case None
  then have "t = s" using run by (simp add: sigchld_received_def)
  with fm show ?thesis by simp
next
  case (Some i)
  from tracked_pid [OF wt(2) Some] obtain r c where c: "objects s r = Some c" "state c = RUNNING" "graph_id c = i"
    unfolding running_at_def by blast
  have "omap_find (obj_for_id s) i = Some (Some r)" "omap_find (sig_for_id s) (sint i) = Some [r]"
    using wt(1) c by (auto simp: wired_def)
  then have ob: "objects t = (objects s)(r \<mapsto> handle_process_event EXIT rc c)"
    using run Some c by (auto simp: sigchld_received_def Let_def emit_to_def)
  have "started t = started s" "dom (objects t) = dom (objects s)" using ob c by (auto simp: started_def)
  then show ?thesis using forks_match_same [OF fm] sigchld_received_frame [OF run] by simp
qed

lemma forks_match_calls:
  "forks_match s \<Longrightarrow> c \<noteq> Sys_fork \<Longrightarrow> forks_match (s\<lparr>calls := (c, r) # calls s\<rparr>)"
  by (simp add: forks_match_def started_def)

lemma step_forks:
  assumes "step P s t" and inv: "sys_inv E s" and fm: "forks_match s"
  shows "forks_match t"
  using assms(1)
proof cases
  case (start n)
  then show ?thesis by (rule start_programs_forks [OF fm])
next
  case (exited rp u)
  have u: "u = s\<lparr>calls := (Sys_waitpid, rp) # calls s\<rparr>" using exited(1) by (auto simp: sys_call_def)
  have "wired u" "tracked u" using inv by (simp_all add: u sys_inv_def wired_def tracked_def)
  moreover have "forks_match u" using forks_match_calls [OF fm] by (simp add: u)
  ultimately show ?thesis using sigchld_received_forks exited(3) by blast
next
  case (none_exited rp)
  then show ?thesis using forks_match_calls [OF fm] by (auto simp: sys_call_def)
next
  case (wait fd k ms rp)
  then show ?thesis using forks_match_calls [OF fm] by (auto simp: sys_call_def)
next
  case (event fd ev)
  from event_received_bystander [OF this] have "objects t = objects s" "quiet_ext (calls s) (calls t)"
    by (simp_all add: bystander_def)
  then show ?thesis using forks_match_same [OF fm] count_quiet by (simp add: started_def)
qed

interpretation once: preserved "step P" "\<lambda>s. fork_gives_fresh_pid P \<and> sys_inv E s \<and> forks_match s" advances for P E
  using step_inv step_forks by unfold_locales (blast intro: advances_trans advances_refl)+

section \<open>Runs\<close>

lemma launched_forks:
  assumes run: "launched P Y F opts cfg s0 s" and few: "few_programs cfg"
  shows "forks_match s"
proof -
  let ?s1 = "register_processes (get_processes cfg) s0"
  have h: "handle_commandline_invocation P Y F opts ProcessHandler = (Inr (Some cfg), s0)"
    using run by (simp add: launched_def)
  have reach: "reachable P Y F opts cfg s0 s" using run by (auto simp: reachable_def)
  have bs: "bystander ?s1 s" using run by (auto simp: launched_def dest: setup_bystander)
  have "quiet_ext [] (calls s0)" using handle_commandline_configured [OF h] by (simp add: configured_def)
  then have "quiet_ext [] (calls s)"
    using bs by (auto simp: bystander_def register_processes_def Let_def intro: quiet_ext_trans)
  then have "count_calls Sys_fork (calls s) = 0" using count_quiet [of "[]" "calls s"] by simp
  moreover have "dom (objects s) = set (processes cfg)"
    using stages_launched(1) [OF run few] by (auto simp: stages_of_def dom_def)
  moreover have "started s = {}"
  proof -
    have fresh: "\<And>r c. objects s0 r = Some c \<Longrightarrow> state c = BLOCKED \<and> conditions c = []"
      using reachable_configured(2) [OF reach few] by (simp add: freshly_configured_def)
    have ob: "objects s = objects (register_processes (map Some (processes cfg)) s0)"
      using bs by (simp add: bystander_def get_processes_eq)
    have "state c \<in> {BLOCKED, READY}" if "objects s r = Some c" for r c
      using registered_state [OF fresh reachable_configured(3) [OF reach few] that [unfolded ob]] by auto
    then show ?thesis by (force simp: started_def)
  qed
  ultimately show ?thesis by (simp add: forks_match_def)
qed

lemma reachable_forks:
  assumes "reachable P Y F opts cfg s0 t" and few: "few_programs cfg" and fork: "fork_gives_fresh_pid P"
  shows "forks_match t" and "card (started t) \<le> length (processes cfg)"
proof -
  from assms(1) obtain s where s: "launched P Y F opts cfg s0 s" and run: "(step P)\<^sup>*\<^sup>* s t"
    by (auto simp: reachable_def)
  from once.run_inv [OF run] launched_inv(1) [OF s few] launched_forks [OF s few] fork
  have fm: "forks_match t" and adv: "advances s t" by blast+
  then show "forks_match t" by simp
  have "dom (objects t) = dom (objects s)" using adv by (simp add: advances_def dom_evolves)
  then have dom: "dom (objects t) = set (processes cfg)"
    using stages_launched(1) [OF s few] by (auto simp: stages_of_def dom_def)
  have "started t \<subseteq> set (processes cfg)" using dom by (auto simp: started_def)
  then have "card (started t) \<le> card (set (processes cfg))" by (simp add: card_mono)
  also have "\<dots> \<le> length (processes cfg)" by (rule card_length)
  finally show "card (started t) \<le> length (processes cfg)" .
qed

end
