(* ===== verification/Descriptors.thy ===== *)
theory Descriptors
  imports Stages
begin

text \<open>
  The tables for file descriptors: a descriptor that the handler watches for a child has a type, and its number leads
  to an object that exists. So the branches of \<open>handle_child_output\<close> that report a bug, and the exceptions of
  \<open>std::map::at\<close>, cannot be reached from a descriptor that is registered.
\<close>

section \<open>The invariant\<close>

definition leads_to_object :: "sys \<Rightarrow> u32 \<Rightarrow> bool" where
  "leads_to_object s i \<longleftrightarrow>
     (\<exists>r c. omap_find (obj_for_id s) i = Some (Some r) \<and> objects s r = Some c \<and> graph_id c = i)"

text \<open>The number 0 is exempt in the table of counts, since the hang-up of an unknown descriptor is charged to it.\<close>

definition fds_ok :: "sys \<Rightarrow> bool" where
  "fds_ok s \<longleftrightarrow>
     (\<forall>fd. omap_find (id_for_fd s) fd = None \<longleftrightarrow> omap_find (fd_type s) fd = None) \<and>
     (\<forall>fd i. omap_find (id_for_fd s) fd = Some i \<longrightarrow> leads_to_object s i) \<and>
     (\<forall>i n. omap_find (num_fd_for_id s) i = Some n \<longrightarrow> i \<noteq> 0 \<longrightarrow> leads_to_object s i)"

lemma leads_to_advances:
  assumes "leads_to_object s i" and adv: "advances s t"
  shows "leads_to_object t i"
proof -
  from assms(1) obtain r c where r: "omap_find (obj_for_id s) i = Some (Some r)" and c: "objects s r = Some c" "graph_id c = i"
    by (auto simp: leads_to_object_def)
  from adv have ev: "evolves (objects s) (objects t)" and ko: "keeps_objs s t" by (simp_all add: advances_def)
  from evolves_Some [OF ev c(1)] c(2) obtain c' where "objects t r = Some c'" "graph_id c' = i"
    by (auto simp: successor_def)
  with ko r show ?thesis by (auto simp: leads_to_object_def keeps_objs_def)
qed

text \<open>What the tables say keeps its meaning while objects advance.\<close>

lemma fds_ok_later:
  assumes "fds_ok s" and "advances s t"
  shows "(\<forall>fd. omap_find (id_for_fd s) fd = None \<longleftrightarrow> omap_find (fd_type s) fd = None) \<and>
     (\<forall>fd i. omap_find (id_for_fd s) fd = Some i \<longrightarrow> leads_to_object t i) \<and>
     (\<forall>i n. omap_find (num_fd_for_id s) i = Some n \<longrightarrow> i \<noteq> 0 \<longrightarrow> leads_to_object t i)"
  using assms(1) leads_to_advances [OF _ assms(2)] unfolding fds_ok_def by blast

lemma wired_leads: "wired s \<Longrightarrow> objects s r = Some c \<Longrightarrow> leads_to_object s (graph_id c)"
  by (auto simp: wired_def leads_to_object_def)

definition same_fds :: "sys \<Rightarrow> sys \<Rightarrow> bool" where
  "same_fds s t \<longleftrightarrow> id_for_fd t = id_for_fd s \<and> fd_type t = fd_type s \<and> num_fd_for_id t = num_fd_for_id s"

lemma same_fds_refl [simp]: "same_fds s s"
  by (simp add: same_fds_def)

lemma same_fds_trans: "same_fds s t \<Longrightarrow> same_fds t u \<Longrightarrow> same_fds s u"
  by (simp add: same_fds_def)

lemma fds_ok_same: "fds_ok s \<Longrightarrow> advances s t \<Longrightarrow> same_fds s t \<Longrightarrow> fds_ok t"
  using fds_ok_later [of s t] by (simp add: fds_ok_def [of t] same_fds_def)

section \<open>Operations that leave the tables alone\<close>

lemma sys_call_fds: "sys_call P c s = (r, t) \<Longrightarrow> same_fds s t"
  by (auto simp: sys_call_def same_fds_def)

lemma notify_one_fds: "same_fds s (notify_one w s)"
  by (auto simp: notify_one_def same_fds_def split: option.splits)

lemma forward_signal_fds: "same_fds s (forward_signal P sig m s)"
proof (induction P sig m s rule: forward_signal.induct)
  case (2 P sig pair rest s)
  then show ?case using sys_call_fds [of P "Sys_kill (fst pair) sig" s] same_fds_trans
    by (fastforce simp: Let_def split: prod.splits)
qed simp

lemma signal_received_fds: "same_fds s (signal_received P sig s)"
  using forward_signal_fds [of s P _ "id_for_pid s"]
  by (simp add: signal_received_def Let_def same_fds_def)

lemma handle_child_output_fds: "handle_child_output P fd str s = (r, t) \<Longrightarrow> same_fds s t"
  by (auto simp: handle_child_output_def Let_def sys_call_def same_fds_def
      split: option.splits if_splits FDType.splits)

lemma read_signal_fds: "read_signal P s = (r, t) \<Longrightarrow> same_fds s t"
  by (auto simp: read_signal_def Let_def throw_handler_def split: prod.splits if_splits
      dest: sys_call_fds intro: same_fds_trans signal_received_fds)

lemma read_output_fds: "read_output P fd s = (r, t) \<Longrightarrow> same_fds s t"
  by (auto simp: read_output_def Let_def split: prod.splits if_splits sum.splits
      dest: sys_call_fds handle_child_output_fds intro: same_fds_trans)

lemma sigchld_received_fds:
  assumes "sigchld_received pid rc s = (res, t)"
  shows "same_fds s t"
proof -
  have loop: "same_fds s t" if "for_each (emit_to EXIT rc) slots s = (res, t)" for slots s res t
    using that
    by (rule for_each_invariant [where P = "same_fds s", rotated 2])
      (auto simp: emit_to_def same_fds_def split: option.splits)
  show ?thesis using assms
    by (auto simp: sigchld_received_def Let_def split: option.splits elim!: andThen_cases dest!: loop)
      (auto simp: same_fds_def)
qed

section \<open>Operations that change them\<close>

lemma hang_up_fds:
  assumes ok: "fds_ok s" and adv: "advances s t" and run: "hang_up P fd s = (Inr (), t)"
  shows "fds_ok t"
proof -
  define i where "i = (case omap_find (id_for_fd s) fd of Some i \<Rightarrow> i | None \<Rightarrow> 0)"
  define n where "n = (case omap_find (num_fd_for_id s) i of Some n \<Rightarrow> n | None \<Rightarrow> 0)"
  from run have t: "omap_find (id_for_fd t) = (omap_find (id_for_fd s))(fd := None)"
      "omap_find (fd_type t) = (omap_find (fd_type s))(fd := None)"
      "omap_find (num_fd_for_id t) = (omap_find (num_fd_for_id s))(i := Some (n - 1))"
    by (auto simp: hang_up_def Let_def sys_call_def throw_handler_def omap_index_def fun_eq_iff lock_def i_def n_def
        split: option.splits if_splits prod.splits)
  have "leads_to_object t i" if "i \<noteq> 0"
    using that fds_ok_later [OF ok adv] by (cases "omap_find (id_for_fd s) fd") (simp_all add: i_def)
  then show ?thesis
    using fds_ok_later [OF ok adv] by (auto simp: fds_ok_def [of t] t split: if_splits)
qed

lemma try_start_fds:
  assumes "try_start P n r c s = (res, t)"
  shows "same_fds s t \<or> (res = Inr () \<and> (\<exists>out err.
    id_for_fd t = omap_insert err (graph_id c) (omap_insert out (graph_id c) (id_for_fd s)) \<and>
    fd_type t = omap_insert err STDERR (omap_insert out STDOUT (fd_type s)) \<and>
    num_fd_for_id t = omap_insert (graph_id c) 2 (num_fd_for_id s)))"
proof -
  define lg where "lg = os P (calls s) (Log_create (get_name c))"
  define tr0 where "tr0 = (Log_create (get_name c), lg) # calls s"
  have sc: "sys_call P (Log_create (get_name c)) s = (lg, s\<lparr>calls := tr0\<rparr>)"
    by (simp add: sys_call_def lg_def tr0_def)
  obtain res1 c' reg tr where df: "do_fork P n (c, id_for_pid s, tr0) = (res1, (c', reg, tr))"
    by (metis prod.exhaust)
  obtain res2 m types tr2 where rg:
    "register_with_epoll P (epoll_fd s) c' (id_for_fd s, fd_type s, tr) = (res2, (m, types, tr2))"
    by (metis prod.exhaust)
  have id: "graph_id c' = graph_id c" if ok: "res1 = Inr ()"
  proof -
    from do_fork_Inr [OF df [unfolded ok]] obtain c1 tr1 rp where
      op: "open_channels P n (c, tr0) = (Inr (), (c1, tr1))" and
      "rp = os P tr1 Sys_fork" and "c' = c1\<lparr>primaryPid := ret rp, state := RUNNING\<rparr>" and
      "reg = omap_insert (ret rp) (graph_id c) (id_for_pid s)" and "quiet_ext ((Sys_fork, rp) # tr1) tr"
      by metis
    then show ?thesis using open_channels_outcome [OF op] same_but_channels_fields(7) [of c c1] by simp
  qed
  have reg: "if res2 = Inr ()
    then m = omap_insert (fst (stderr c')) (graph_id c') (omap_insert (fst (stdout c')) (graph_id c') (id_for_fd s)) \<and>
      types = omap_insert (fst (stderr c')) STDERR (omap_insert (fst (stdout c')) STDOUT (fd_type s))
    else m = id_for_fd s \<and> types = fd_type s"
    using rg by (auto simp: register_with_epoll_def syscall_def Let_def fail_def split: if_splits)
  show ?thesis
  proof (cases "ret lg = 0 \<and> res1 = Inr () \<and> res2 = Inr ()")
    case True
    then have "res = Inr () \<and> id_for_fd t = m \<and> fd_type t = types \<and>
        num_fd_for_id t = omap_insert (get_id c') 2 (num_fd_for_id s)"
      using assms unfolding try_start_def sc Let_def prod.case by (auto simp: df rg)
    with True id reg show ?thesis
      by (intro disjI2 conjI exI [of _ "fst (stdout c')"] exI [of _ "fst (stderr c')"]) (simp_all add: get_id_def)
  next
    case False
    then show ?thesis
      using assms reg unfolding try_start_def sc Let_def prod.case
      by (auto simp: df rg same_fds_def split: if_splits sum.splits)
  qed
qed

lemma fds_ok_new_object:
  assumes ok: "fds_ok s" and adv: "advances s t" and new: "leads_to_object t i"
    and t: "id_for_fd t = omap_insert err i (omap_insert out i (id_for_fd s))"
      "fd_type t = omap_insert err STDERR (omap_insert out STDOUT (fd_type s))"
      "num_fd_for_id t = omap_insert i 2 (num_fd_for_id s)"
  shows "fds_ok t"
  using fds_ok_later [OF ok adv] new by (auto simp: fds_ok_def [of t] t split: if_splits)

lemma try_start_keeps_fds:
  assumes ok: "fds_ok s" and wd: "wired s" and adv: "advances s t" and c: "objects s r = Some c"
    and run: "try_start P n r c s = (res, t)"
  shows "fds_ok t"
  using try_start_fds [OF run]
proof (elim disjE conjE exE)
  assume "same_fds s t"
  with ok adv show ?thesis by (rule fds_ok_same)
next
  fix out err
  assume "id_for_fd t = omap_insert err (graph_id c) (omap_insert out (graph_id c) (id_for_fd s))"
    "fd_type t = omap_insert err STDERR (omap_insert out STDOUT (fd_type s))"
    "num_fd_for_id t = omap_insert (graph_id c) 2 (num_fd_for_id s)"
  with leads_to_advances [OF wired_leads [OF wd c] adv] show ?thesis by (rule fds_ok_new_object [OF ok adv])
qed

lemma start_program_fds:
  assumes ok: "fds_ok s" and wd: "wired s" and adv: "advances s t" and run: "start_program P n w s = (Inr (), t)"
  shows "fds_ok t"
  using run
proof (cases rule: start_program_cases)
  case skipped
  with ok show ?thesis by simp
next
  case (started r c)
  show ?thesis by (rule try_start_keeps_fds [OF ok wd adv started(1,3)])
next
  case (caught r c x)
  show ?thesis by (rule try_start_keeps_fds [OF ok wd adv caught(1,3)])
qed

lemma start_programs_fds:
  assumes ok: "fds_ok s" and inv: "sys_inv E s" and fork: "fork_gives_fresh_pid P"
    and run: "start_programs P n s = (Inr (), t)"
  shows "fds_ok t"
proof -
  let ?u = "fold notify_one (all_objs s) s"
  from run have loop: "for_each (start_program P n) (all_objs s) ?u = (Inr (), t)"
    by (simp add: start_programs_def Let_def)
  have nt: "same_fds s (fold notify_one ws s)" for ws s
  proof (induction ws arbitrary: s)
    case (Cons w ws)
    from same_fds_trans [OF notify_one_fds Cons] show ?case by simp
  qed simp
  have "sys_inv E t \<and> fds_ok t"
  proof (rule for_each_invariant_Inr [OF _ _ loop, where P = "\<lambda>t. sys_inv E t \<and> fds_ok t"])
    show "sys_inv E ?u \<and> fds_ok ?u"
      using notify_all_inv [OF inv, of "all_objs s"] fds_ok_same [OF ok _ nt] by blast
    fix w u v
    assume u: "sys_inv E u \<and> fds_ok u" and step: "start_program P n w u = (Inr (), v)"
    then have "sys_inv E v" "advances u v" using start_program_inv [OF _ fork step, of E] by simp_all
    with u show "sys_inv E v \<and> fds_ok v"
      using start_program_fds [OF _ _ _ step] by (simp add: sys_inv_def)
  qed
  then show ?thesis ..
qed

lemma step_fds:
  assumes st: "step P s t" and inv: "sys_inv E s" and fork: "fork_gives_fresh_pid P" and ok: "fds_ok s"
  shows "fds_ok t"
proof -
  have adv: "advances s t" using step_inv [OF st inv fork] ..
  note same = fds_ok_same [OF ok adv]
  from st show ?thesis
  proof cases
    case (start n)
    then show ?thesis by (rule start_programs_fds [OF ok inv fork])
  next
    case (exited rp u)
    then show ?thesis using same same_fds_trans [OF sys_call_fds sigchld_received_fds] by blast
  next
    case (none_exited rp)
    then show ?thesis using same sys_call_fds by blast
  next
    case (wait fd k ms rp)
    then show ?thesis using same sys_call_fds by blast
  next
    case (event fd ev)
    then show ?thesis
      using same hang_up_fds [OF ok adv]
      by (auto simp: event_received_def throw_handler_def split: if_splits dest: read_signal_fds read_output_fds)
  qed
qed

interpretation fds: preserved "step P" "\<lambda>s. fork_gives_fresh_pid P \<and> sys_inv E s \<and> fds_ok s" advances for P E
  using step_inv step_fds by unfold_locales (blast intro: advances_trans advances_refl)+

section \<open>Runs\<close>

lemma launched_fds:
  assumes run: "launched P Y F opts cfg s0 s"
  shows "id_for_fd s = []" and "fd_type s = []" and "num_fd_for_id s = []"
proof -
  have h: "handle_commandline_invocation P Y F opts ProcessHandler = (Inr (Some cfg), s0)"
    and su: "setup_signal_handlers P (register_processes (get_processes cfg) s0) = (Inr (), s)"
    using run by (simp_all add: launched_def)
  from su have "same_fds (register_processes (get_processes cfg) s0) s"
    by (auto simp: setup_signal_handlers_def sys_call_def throw_handler_def Let_def same_fds_def split: if_splits)
  moreover have "id_for_fd s0 = [] \<and> fd_type s0 = [] \<and> num_fd_for_id s0 = []"
    using handle_commandline_configured [OF h] by (simp add: configured_def)
  ultimately show "id_for_fd s = []" and "fd_type s = []" and "num_fd_for_id s = []"
    by (simp_all add: same_fds_def register_processes_def Let_def)
qed

lemma reachable_fds:
  assumes "reachable P Y F opts cfg s0 t" and few: "few_programs cfg" and fork: "fork_gives_fresh_pid P"
  shows "fds_ok t"
proof -
  from assms(1) obtain s where s: "launched P Y F opts cfg s0 s" and run: "(step P)\<^sup>*\<^sup>* s t"
    by (auto simp: reachable_def)
  have "fds_ok s" using launched_fds [OF s] by (simp add: fds_ok_def)
  with fds.run_inv [OF run] launched_inv(1) [OF s few] fork show ?thesis by blast
qed

end
