(* ===== verification/Completion.thy ===== *)
theory Completion
  imports Starts Descriptors
begin

text \<open>
  The end of a run. If the programs of the configuration are short-lived and no call fails, the event loop ends, and it
  ends in a state in which nothing is left to do: the abstract machine of theory \<open>Stages\<close> has no further move.
\<close>

section \<open>Hypotheses on the outside world\<close>

text \<open>Whenever scinit asks for an exited child and there is one that has not been reported, one is reported.\<close>

definition short_lived :: "platform \<Rightarrow> bool" where
  "short_lived P \<longleftrightarrow>
     (\<forall>tr. let pid = ret (os P tr Sys_waitpid) in
        if \<exists>p\<in>outstanding tr. 0 < p then pid \<in> outstanding tr \<and> 0 < pid else pid \<le> 0)"

text \<open>The only events are hang-ups, and the descriptor can be removed.\<close>

definition only_hang_ups :: "platform \<Rightarrow> bool" where
  "only_hang_ups P \<longleftrightarrow>
     (\<forall>tr epfd k ms fd ev. (fd, ev) \<in> set (out_events (os P tr (Sys_epoll_wait epfd k ms))) \<longrightarrow>
        ev AND EPOLLIN = 0 \<and> ev AND EPOLLHUP \<noteq> 0) \<and>
     (\<forall>tr epfd fd. ret (os P tr (Sys_epoll_ctl_del epfd fd)) \<noteq> -1)"

text \<open>No program wants a terminal, and the environment of every program can be computed.\<close>

definition startable :: "platform \<Rightarrow> sys \<Rightarrow> bool" where
  "startable P s \<longleftrightarrow>
     (\<forall>r c. objects s r = Some c \<longrightarrow> \<not> want_tty c \<and> (\<exists>environment. handle_env P c = Inr environment))"

lemma settings_startable:
  assumes "settings c' = settings c"
  shows "want_tty c' = want_tty c" and "handle_env P c' = handle_env P c"
  using assms by (auto simp: settings_def intro: handle_env_cong)

lemma startable_advances:
  assumes "startable P s" and adv: "advances s t"
  shows "startable P t"
  unfolding startable_def
proof (intro allI impI)
  fix r c'
  assume c': "objects t r = Some c'"
  from adv have ev: "evolves (objects s) (objects t)" by (simp add: advances_def)
  from evolves_Some_back [OF ev c'] obtain c where c: "objects s r = Some c" and "settings c' = settings c"
    by (auto simp: successor_def)
  with c assms(1) settings_startable [of c' c] show "\<not> want_tty c' \<and> (\<exists>environment. handle_env P c' = Inr environment)"
    by (simp add: startable_def)
qed

lemma startable_launched:
  assumes run: "launched P Y F opts cfg s0 s" and "startable P s0"
  shows "startable P s"
  unfolding startable_def
proof (intro allI impI)
  fix r c'
  assume "objects s r = Some c'"
  then have "objects (register_processes (get_processes cfg) s0) r = Some c'"
    using run setup_bystander by (fastforce simp: launched_def bystander_def)
  then have "fold (register_one (get_processes cfg)) (get_processes cfg) (objects s0) r = Some c'" by simp
  from reg.fold_Some_back [OF this] obtain c where "objects s0 r = Some c" and "settings c' = settings c"
    by (auto simp: static_def)
  with assms(2) settings_startable [of c' c] show "\<not> want_tty c' \<and> (\<exists>environment. handle_env P c' = Inr environment)"
    by (simp add: startable_def)
qed

section \<open>Starting\<close>

text \<open>With these hypotheses a start succeeds, and it changes the state of a ready process and of no other.\<close>

definition stages_after_start :: "weak \<Rightarrow> sys \<Rightarrow> stages" where
  "stages_after_start w s =
     (case w of
        Some r \<Rightarrow> if stages_of s r = Some READY then (stages_of s)(r \<mapsto> RUNNING) else stages_of s
      | None \<Rightarrow> stages_of s)"

lemma start_program_total:
  assumes coop: "cooperative P" and st: "startable P s"
  obtains t where "start_program P n w s = (Inr (), t)" and "stages_of t = stages_after_start w s"
proof (cases "\<exists>r c. w = Some r \<and> objects s r = Some c \<and> state c = READY")
  case True
  then obtain r c where w: "w = Some r" and c: "objects s r = Some c" "state c = READY" by blast
  from st c(1) obtain environment where "\<not> want_tty c" "handle_env P c = Inr environment"
    by (auto simp: startable_def)
  from start_program_succeeds [OF coop c this, of n] obtain c' t where
    t: "start_program P n (Some r) s = (Inr (), t)" "objects t = (objects s)(r \<mapsto> c')" "state c' = RUNNING"
    by metis
  have "stages_of t = stages_after_start w s"
    using stages_of_update [OF t(2)] t(3) c by (simp add: stages_after_start_def w stages_of_def)
  with t(1) w that show thesis by blast
next
  case False
  then have "start_program P n w s = (Inr (), s)"
    by (auto simp: start_program_def lock_def can_start_now_def split: option.splits)
  moreover have "stages_of s = stages_after_start w s"
    using False by (auto simp: stages_after_start_def stages_of_def split: option.splits)
  ultimately show thesis by (rule that)
qed

text \<open>What holds at the head of every pass of the event loop, and between its parts; the last argument but one says whether
  the handler is to quit.\<close>

definition calm :: "platform \<Rightarrow> ref set \<Rightarrow> bool \<Rightarrow> sys \<Rightarrow> bool" where
  "calm P E q s \<longleftrightarrow> sys_inv E s \<and> startable P s \<and> forks_match s \<and> fds_ok s \<and> leads_to_object s 0 \<and> should_quit s = q"

text \<open>The part of it that every step keeps.\<close>

lemma calm_step:
  assumes "calm P E q s" and "step P s t" and "fork_gives_fresh_pid P" and "should_quit t = q"
  shows "calm P E q t \<and> advances s t"
proof -
  have inv: "sys_inv E s" using assms(1) by (simp add: calm_def)
  have "sys_inv E t" and adv: "advances s t" using step_inv [OF assms(2) inv assms(3)] by simp_all
  moreover have "forks_match t" using step_forks [OF assms(2) inv] assms(1) by (simp add: calm_def)
  moreover have "fds_ok t" using step_fds [OF assms(2) inv assms(3)] assms(1) by (simp add: calm_def)
  moreover have "startable P t" "leads_to_object t 0"
    using assms(1) startable_advances [OF _ adv] leads_to_advances [OF _ adv] by (simp_all add: calm_def)
  ultimately show ?thesis using assms(4) by (simp add: calm_def)
qed

lemma notify_one_quit: "should_quit (fold notify_one ws s) = should_quit s"
  by (induction ws arbitrary: s) simp_all

lemma start_program_quit:
  "start_program P n w s = (res, t) \<Longrightarrow> should_quit t = should_quit s"
  by (auto simp: start_program_def try_start_def sys_call_def catch_std_def Let_def
      split: option.splits prod.splits sum.splits stop.splits if_splits)

lemma start_all_total:
  assumes coop: "cooperative P" and fork: "fork_gives_fresh_pid P" and inv: "sys_inv E s" and st: "startable P s"
  obtains t where "for_each (start_program P n) ws s = (Inr (), t)" and "sys_inv E t" and "startable P t"
    and "should_quit t = should_quit s"
proof (rule for_each_total [where xs = ws and f = "start_program P n" and s = s
      and P = "\<lambda>t. sys_inv E t \<and> startable P t \<and> should_quit t = should_quit s"])
  show "sys_inv E s \<and> startable P s \<and> should_quit s = should_quit s" using inv st by simp
  fix w u
  assume u: "sys_inv E u \<and> startable P u \<and> should_quit u = should_quit s"
  then obtain v where v: "start_program P n w u = (Inr (), v)"
    using start_program_total [OF coop, of u n w] by blast
  then have "sys_inv E v" "advances u v" using start_program_inv [OF _ fork v] u by blast+
  with u v show "\<exists>v. start_program P n w u = (Inr (), v) \<and> sys_inv E v \<and> startable P v \<and> should_quit v = should_quit s"
    using startable_advances start_program_quit by blast
qed (use that in blast)

lemma start_programs_total:
  assumes coop: "cooperative P" and fork: "fork_gives_fresh_pid P" and calm: "calm P E q s"
  obtains t where "start_programs P n s = (Inr (), t)" and "calm P E q t" and "advances s t"
proof -
  let ?u = "fold notify_one (all_objs s) s"
  have inv: "sys_inv E s" using calm by (simp add: calm_def)
  have u: "sys_inv E ?u" "advances s ?u" using notify_all_inv [OF inv, of "all_objs s"] by simp_all
  have "startable P ?u" using startable_advances [OF _ u(2)] calm by (simp add: calm_def)
  from start_all_total [OF coop fork u(1) this, of n "all_objs s"] obtain t where
    t: "for_each (start_program P n) (all_objs s) ?u = (Inr (), t)" "should_quit t = should_quit ?u" by blast
  then have run: "start_programs P n s = (Inr (), t)" by (simp add: start_programs_def Let_def)
  have "should_quit t = q" using t(2) calm by (simp add: notify_one_quit calm_def)
  with calm_step [OF calm step.start [OF run] fork] run that show thesis by blast
qed

section \<open>Reaping\<close>

definition pending :: "trace \<Rightarrow> int set" where
  "pending tr = {p \<in> outstanding tr. 0 < p}"

lemma short_lived_reply:
  assumes "short_lived P"
  shows "if pending tr \<noteq> {} then ret (os P tr Sys_waitpid) \<in> pending tr else ret (os P tr Sys_waitpid) \<le> 0"
  using spec [OF assms [unfolded short_lived_def], of tr] by (auto simp: pending_def Let_def split: if_splits)

lemma finite_outstanding: "finite (outstanding tr)"
  by (induction tr rule: outstanding.induct) (auto split: oscall.splits)

lemma card_outstanding: "card (outstanding tr) \<le> count_calls Sys_fork tr"
proof (induction tr rule: outstanding.induct)
  case (2 c r tr)
  have "card (insert (ret r) (outstanding tr)) \<le> Suc (card (outstanding tr))"
    by (rule card_insert_le_m1) simp_all
  moreover have "card (outstanding tr - {ret r}) \<le> card (outstanding tr)"
    by (simp add: card_Diff1_le finite_outstanding)
  ultimately show ?case using 2 by (auto split: oscall.splits)
qed simp

lemma card_pending:
  assumes "forks_match s"
  shows "card (pending (calls s)) \<le> card (dom (objects s))"
proof -
  have "card (pending (calls s)) \<le> card (outstanding (calls s))"
    by (rule card_mono) (auto simp: pending_def finite_outstanding)
  also have "\<dots> \<le> count_calls Sys_fork (calls s)" by (rule card_outstanding)
  also have "\<dots> = card (started s)" using assms by (simp add: forks_match_def)
  also have "\<dots> \<le> card (dom (objects s))"
    using assms by (intro card_mono) (auto simp: forks_match_def started_def)
  finally show ?thesis .
qed

lemma sigchld_received_quit: "sigchld_received pid rc s = (res, t) \<Longrightarrow> should_quit t = should_quit s"
proof -
  assume run: "sigchld_received pid rc s = (res, t)"
  have loop: "should_quit t = should_quit s" if "for_each (emit_to EXIT rc) slots s = (res, t)" for slots s res t
    using that
    by (rule for_each_invariant [where P = "\<lambda>t. should_quit t = should_quit s", rotated 2])
      (auto simp: emit_to_def split: option.splits)
  show ?thesis using run
    by (auto simp: sigchld_received_def Let_def split: option.splits elim!: andThen_cases dest!: loop)
qed

lemma reap_total:
  assumes sl: "short_lived P" and fork: "fork_gives_fresh_pid P" and calm: "calm P E q s"
    and fuel: "card (pending (calls s)) < n"
  shows "\<exists>t. reap P n s = (Inr (), t) \<and> calm P E q t \<and> advances s t \<and> pending (calls t) = {}"
  using calm fuel
proof (induction n arbitrary: s)
  case (Suc n)
  define r where "r = os P (calls s) Sys_waitpid"
  let ?u = "s\<lparr>calls := (Sys_waitpid, r) # calls s\<rparr>"
  have w: "sys_call P Sys_waitpid s = (r, ?u)" by (simp add: sys_call_def r_def)
  have inv: "sys_inv E s" using Suc.prems(1) by (simp add: calm_def)
  show ?case
  proof (cases "0 < ret r")
    case False
    then have "pending (calls s) = {}"
      using short_lived_reply [OF sl, of "calls s"] by (auto simp: r_def pending_def split: if_splits)
    then have "pending (calls ?u) = {}" by (auto simp: pending_def)
    moreover have "reap P (Suc n) s = (Inr (), ?u)" using w False by simp
    moreover have "step P s ?u" using w False by (intro step.none_exited) auto
    then have "calm P E q ?u \<and> advances s ?u" using Suc.prems(1) by (intro calm_step [OF _ _ fork]) (simp_all add: calm_def)
    ultimately show ?thesis by blast
  next
    case True
    then have p: "ret r \<in> pending (calls s)"
      using short_lived_reply [OF sl, of "calls s"] by (simp add: r_def split: if_splits)
    note waited_inv [OF inv w]
    moreover obtain res v where v: "sigchld_received (ret r) (out_num r) ?u = (res, v)" by fastforce
    ultimately have res: "res = Inr ()" using sigchld_received_inv [of ?u E "ret r" "out_num r" res v] by simp
    have "step P s v" using w True v res by (intro step.exited) auto
    moreover have "should_quit v = q" using sigchld_received_quit [OF v] Suc.prems(1) by (simp add: calm_def)
    ultimately have calm': "calm P E q v" and adv: "advances s v"
      using calm_step [OF Suc.prems(1) _ fork] by blast+
    have "pending (calls v) = pending (calls s) - {ret r}"
      using sigchld_received_frame [OF v] by (auto simp: pending_def)
    moreover have "finite (pending (calls s))" using finite_outstanding by (simp add: pending_def)
    ultimately have "card (pending (calls v)) < n" using Suc.prems(2) p card_Diff1_less [of "pending (calls s)" "ret r"] by simp
    from Suc.IH [OF calm' this] obtain t where
      "reap P n v = (Inr (), t)" "calm P E q t" "advances v t" "pending (calls t) = {}" by blast
    moreover have "reap P (Suc n) s = reap P n v" using w True v res by simp
    ultimately show ?thesis using advances_trans [OF adv] by auto
  qed
qed simp

lemma nothing_pending:
  assumes "sys_inv E s" and "pending (calls s) = {}"
  shows "number_of_running_procs s = 0"
proof -
  have "omap_find (id_for_pid s) pid = None" for pid
    using assms by (fastforce simp: sys_inv_def known_pids_def pending_def)
  from this [of "fst (hd (id_for_pid s))"] have "id_for_pid s = []"
    by (cases "id_for_pid s") (auto simp: omap_find_def)
  then show ?thesis using assms(1) by (simp add: sys_inv_def tracked_def)
qed

section \<open>Hang-ups\<close>

lemma hang_up_total:
  assumes "only_hang_ups P" and ok: "fds_ok s" and zero: "leads_to_object s 0"
  shows "\<exists>t. hang_up P fd s = (Inr (), t) \<and> should_quit t = should_quit s"
proof -
  define i where "i = (case omap_find (id_for_fd s) fd of Some i \<Rightarrow> i | None \<Rightarrow> 0)"
  have "leads_to_object s i" using ok zero by (auto simp: i_def fds_ok_def split: option.splits)
  then obtain r c where r: "omap_find (obj_for_id s) i = Some (Some r)" and c: "objects s r = Some c"
    by (auto simp: leads_to_object_def)
  have "ret (os P (calls s) (Sys_epoll_ctl_del (epoll_fd s) fd)) \<noteq> -1" using assms(1) by (simp add: only_hang_ups_def)
  moreover have "fst (omap_index 0 fd (id_for_fd s)) = i" by (simp add: omap_index_value i_def)
  ultimately show ?thesis
    using r c by (auto simp: hang_up_def Let_def sys_call_def lock_def split: prod.splits)
qed

lemma dispatch_total:
  assumes ev: "\<And>fd e. (fd, e) \<in> set evs \<Longrightarrow> e AND EPOLLIN = 0 \<and> e AND EPOLLHUP \<noteq> 0"
    and oh: "only_hang_ups P" and fork: "fork_gives_fresh_pid P" and calm: "calm P E q s"
  obtains t where "dispatch_events P evs s = (Inr (), t)" and "calm P E q t"
proof -
  obtain t where "for_each (\<lambda>(fd, event). event_received P fd event) evs s = (Inr (), t)" "calm P E q t"
  proof (rule for_each_total [where xs = evs and f = "\<lambda>(fd, event). event_received P fd event" and s = s and P = "calm P E q"])
    show "calm P E q s" by (rule calm)
    fix x u
    assume x: "x \<in> set evs" and u: "calm P E q u"
    obtain fd e where xe: "x = (fd, e)" by (cases x)
    from hang_up_total [OF oh] u obtain v where v: "hang_up P fd u = (Inr (), v)" "should_quit v = should_quit u"
      by (auto simp: calm_def)
    have run: "event_received P fd e u = (Inr (), v)" using ev [of fd e] x xe v(1) by (simp add: event_received_def)
    then have "calm P E q v" using calm_step [OF u step.event [OF run] fork] v(2) u by (simp add: calm_def)
    with run xe show "\<exists>v. (case x of (fd, event) \<Rightarrow> event_received P fd event) u = (Inr (), v) \<and> calm P E q v" by simp
  qed blast
  with that show thesis by (simp add: dispatch_events_def)
qed

section \<open>Nothing left to do\<close>

definition conditions_known :: "sys \<Rightarrow> bool" where
  "conditions_known s \<longleftrightarrow>
     (\<forall>r c i st. objects s r = Some c \<longrightarrow> (i, st) \<in> set (conditions c) \<longrightarrow> leads_to_object s i)"

definition all_listed :: "sys \<Rightarrow> bool" where
  "all_listed s \<longleftrightarrow> (\<forall>r. objects s r \<noteq> None \<longrightarrow> Some r \<in> set (all_objs s))"

lemma all_listed_advances: "all_listed s \<Longrightarrow> advances s t \<Longrightarrow> all_listed t"
  by (fastforce simp: all_listed_def advances_def dest: evolves_Some_back)

lemma notify_all_keeps_ready: "stages_of s r = Some READY \<Longrightarrow> stages_of (fold notify_one ws s) r = Some READY"
proof (induction ws arbitrary: s)
  case (Cons w ws)
  have "stages_of (notify_one w s) r = Some READY"
    using Cons.prems
    by (auto simp: stages_of_def notify_one_objects lock_Some_iff notify_of_state_alt split: option.splits)
  from Cons.IH [OF this] show ?case by simp
qed simp

text \<open>If no process is ready after a round of notifications, the round has changed nothing, and every blocked process has
  a condition that does not hold.\<close>

lemma notify_all_idle:
  assumes "\<And>r. stages_of (fold notify_one ws s) r \<noteq> Some READY"
  shows "fold notify_one ws s = s \<and>
    (\<forall>r c. Some r \<in> set ws \<longrightarrow> objects s r = Some c \<longrightarrow> state c = BLOCKED \<longrightarrow>
       (\<exists>cond\<in>set (conditions c). \<not> condition_holds (obj_for_id s) (objects s) cond))"
  using assms
proof (induction ws arbitrary: s)
  case (Cons w ws)
  have blocked: "\<exists>cond\<in>set (conditions c). \<not> condition_holds (obj_for_id s) (objects s) cond"
    if w: "w = Some r" and c: "objects s r = Some c" "state c = BLOCKED" for r c
  proof (rule ccontr)
    assume "\<not> ?thesis"
    then have "state (notify_of_state (obj_for_id s) (objects s) c) = READY" using c by (simp add: notify_of_state_alt)
    then have "stages_of (notify_one w s) r = Some READY"
      using w c by (simp add: stages_of_def notify_one_objects)
    with Cons.prems notify_all_keeps_ready show False by (metis fold_simps(2))
  qed
  have "notify_one w s = s"
  proof (cases "lock (objects s) w")
    case None
    then show ?thesis by (simp add: notify_one_def)
  next
    case (Some rc)
    then obtain r c where w: "w = Some r" and c: "objects s r = Some c" and l: "lock (objects s) w = Some (r, c)"
      by (cases rc) (auto simp: lock_Some_iff)
    have "notify_of_state (obj_for_id s) (objects s) c = c"
      using blocked [OF w c] by (auto simp: notify_of_state_alt)
    then show ?thesis using c by (simp add: notify_one_def l fun_upd_idem)
  qed
  moreover have "fold notify_one ws s = s \<and>
    (\<forall>r c. Some r \<in> set ws \<longrightarrow> objects s r = Some c \<longrightarrow> state c = BLOCKED \<longrightarrow>
       (\<exists>cond\<in>set (conditions c). \<not> condition_holds (obj_for_id s) (objects s) cond))"
    using Cons.prems \<open>notify_one w s = s\<close> by (intro Cons.IH) simp
  ultimately show ?case using blocked by auto
qed simp

text \<open>If no process is running after a round of starts, none was ready before it, and the round has changed nothing.\<close>

lemma start_all_keeps_running:
  assumes coop: "cooperative P" and fork: "fork_gives_fresh_pid P"
  shows "sys_inv E s \<Longrightarrow> startable P s \<Longrightarrow> for_each (start_program P n) ws s = (Inr (), t) \<Longrightarrow>
    stages_of s r = Some RUNNING \<Longrightarrow> stages_of t r = Some RUNNING"
proof (induction ws arbitrary: s)
  case (Cons w ws)
  obtain u where u: "start_program P n w s = (Inr (), u)" "stages_of u = stages_after_start w s"
    by (rule start_program_total [OF coop Cons.prems(2)])
  have "sys_inv E u" "advances s u" using start_program_inv [OF Cons.prems(1) fork u(1)] by simp_all
  moreover have "stages_of u r = Some RUNNING"
    using Cons.prems(4) by (auto simp: u(2) stages_after_start_def split: option.splits)
  ultimately show ?case
    using Cons.IH [of u] Cons.prems(3) startable_advances [OF Cons.prems(2)] u(1) by simp
qed simp

lemma start_all_idle:
  assumes coop: "cooperative P" and fork: "fork_gives_fresh_pid P"
  shows "sys_inv E s \<Longrightarrow> startable P s \<Longrightarrow> for_each (start_program P n) ws s = (Inr (), t) \<Longrightarrow>
    (\<And>r. stages_of t r \<noteq> Some RUNNING) \<Longrightarrow> t = s \<and> (\<forall>r. Some r \<in> set ws \<longrightarrow> stages_of s r \<noteq> Some READY)"
proof (induction ws arbitrary: s)
  case (Cons w ws)
  obtain u where u: "start_program P n w s = (Inr (), u)" "stages_of u = stages_after_start w s"
    by (rule start_program_total [OF coop Cons.prems(2)])
  have inv: "sys_inv E u" "advances s u" using start_program_inv [OF Cons.prems(1) fork u(1)] by simp_all
  have st: "startable P u" by (rule startable_advances [OF Cons.prems(2) inv(2)])
  have rest: "for_each (start_program P n) ws u = (Inr (), t)" using Cons.prems(3) u(1) by simp
  have nr: "\<not> (\<exists>r. w = Some r \<and> stages_of s r = Some READY)"
  proof
    assume "\<exists>r. w = Some r \<and> stages_of s r = Some READY"
    then obtain r where "w = Some r" "stages_of s r = Some READY" by blast
    then have "stages_of u r = Some RUNNING" by (simp add: u(2) stages_after_start_def)
    from start_all_keeps_running [OF coop fork inv(1) st rest this] Cons.prems(4) show False by blast
  qed
  then have "start_program P n w s = (Inr (), s)"
    by (auto simp: start_program_def lock_def can_start_now_def stages_of_def split: option.splits)
  with u(1) have "u = s" by simp
  with Cons.IH [OF inv(1) st rest Cons.prems(4)] nr show ?case by auto
qed simp

lemma running_stages: "running s = {r. stages_of s r = Some RUNNING}"
  by (auto simp: running_def stages_of_def)

lemma none_running:
  assumes "sys_inv E s" and "number_of_running_procs s = 0"
  shows "stages_of s r \<noteq> Some RUNNING"
  using running_count [of s] assms by (auto simp: sys_inv_def running_stages)

lemma idle_stuck:
  assumes coop: "cooperative P" and fork: "fork_gives_fresh_pid P" and calm: "calm P E q s" and listed: "all_listed s"
    and adv: "advances s0 s" and known: "conditions_known s0"
    and run: "start_programs P n s = (Inr (), t)" and none: "number_of_running_procs t = 0"
  shows "\<not> stage_move (awaited s0) (stages_of t) b"
proof -
  let ?u = "fold notify_one (all_objs s) s"
  have inv: "sys_inv E s" "startable P s" using calm by (simp_all add: calm_def)
  have u: "sys_inv E ?u" "advances s ?u" using notify_all_inv [OF inv(1), of "all_objs s"] by simp_all
  have loop: "for_each (start_program P n) (all_objs s) ?u = (Inr (), t)"
    using run by (simp add: start_programs_def Let_def)
  have "sys_inv E t" using start_programs_inv [OF inv(1) fork run] ..
  note nrun = none_running [OF this none]
  from start_all_idle [OF coop fork u(1) startable_advances [OF inv(2) u(2)] loop nrun]
  have tu: "t = ?u" and ready: "\<And>r. Some r \<in> set (all_objs s) \<Longrightarrow> stages_of ?u r \<noteq> Some READY" by simp_all
  have "all_listed ?u" by (rule all_listed_advances [OF listed u(2)])
  then have "Some r \<in> set (all_objs s)" if "stages_of ?u r = Some x" for r x
    using that by (auto simp: all_listed_def stages_of_def)
  with ready have nready: "stages_of ?u r \<noteq> Some READY" for r by blast
  from notify_all_idle [OF this] have us: "?u = s"
    and waits: "\<And>r c. Some r \<in> set (all_objs s) \<Longrightarrow> objects s r = Some c \<Longrightarrow> state c = BLOCKED \<Longrightarrow>
       \<exists>cond\<in>set (conditions c). \<not> condition_holds (obj_for_id s) (objects s) cond" by blast+
  have ts: "t = s" using tu us by simp
  show ?thesis
  proof
    assume "stage_move (awaited s0) (stages_of t) b"
    then show False
    proof cases
      case (unblock r)
      then obtain c where c: "objects s r = Some c" "state c = BLOCKED" by (auto simp: ts stages_of_def)
      then have "Some r \<in> set (all_objs s)" using listed by (auto simp: all_listed_def)
      from waits [OF this c] obtain i st where cond: "(i, st) \<in> set (conditions c)"
        and not: "\<not> condition_holds (obj_for_id s) (objects s) (i, st)" by auto
      from adv have ev: "evolves (objects s0) (objects s)" and ko: "keeps_objs s0 s" by (simp_all add: advances_def)
      from evolves_Some_back [OF ev c(1)] cond obtain c0 where c0: "objects s0 r = Some c0" "(i, st) \<in> set (conditions c0)"
        by (auto simp: successor_def)
      with known have "leads_to_object s0 i" unfolding conditions_known_def by blast
      then obtain q where q: "omap_find (obj_for_id s0) i = Some (Some q)" by (auto simp: leads_to_object_def)
      with c0 have "(q, st) \<in> awaited s0 r" by (auto simp: awaited_def)
      with unblock have "stages_of s q = Some st" by (auto simp: ts)
      moreover have "omap_find (obj_for_id s) i = Some (Some q)" using ko q by (simp add: keeps_objs_def)
      ultimately have "condition_holds (obj_for_id s) (objects s) (i, st)"
        by (auto simp: condition_holds_def stages_of_def)
      with not show False ..
    next
      case (started r)
      with nready [of r] show False by (simp add: tu)
    next
      case (ended r st)
      with nrun [of r] show False by simp
    qed
  qed
qed

end
