(* ===== verification/Ending.thy ===== *)
theory Ending
  imports Completion
begin

text \<open>
  The event loop as a whole: with short-lived programs every pass either ends the loop or uses up one of the moves that the
  processes have left, so the loop ends, within a bound that depends on the number of programs only.
\<close>

section \<open>Moves used up by steps\<close>

lemma moves_used:
  assumes "(stage_move D)\<^sup>*\<^sup>* a b" and fin: "finite (dom a)"
  shows "dom b = dom a \<and> total_moves_left b \<le> total_moves_left a \<and> (a \<noteq> b \<longrightarrow> total_moves_left b < total_moves_left a)"
proof -
  from rtranclp_imp_relpowp [OF assms(1)] obtain k where k: "(stage_move D ^^ k) a b" by blast
  have "k \<noteq> 0" if "a \<noteq> b" using k that by (cases k) simp_all
  with stage_run_length [OF k fin] show ?thesis by auto
qed

lemma steps_use_moves:
  assumes run: "(step P)\<^sup>*\<^sup>* s t" and inv: "sys_inv E s" and fork: "fork_gives_fresh_pid P" and fin: "finite (dom (objects s))"
  shows "dom (objects t) = dom (objects s) \<and> total_moves_left (stages_of t) \<le> total_moves_left (stages_of s) \<and>
    (stages_of s \<noteq> stages_of t \<longrightarrow> total_moves_left (stages_of t) < total_moves_left (stages_of s))"
proof -
  have dom: "dom (stages_of s) = dom (objects s)" for s by (auto simp: stages_of_def dom_def)
  have "fork_gives_fresh_pid P \<and> sys_inv E s \<and> advances s s" using inv fork by simp
  from sup.run_inv [OF run this] have "(stage_move (awaited s))\<^sup>*\<^sup>* (stages_of s) (stages_of t)" ..
  from moves_used [OF this] fin show ?thesis by (simp add: dom)
qed

section \<open>One pass\<close>

lemma epoll_wait_calm:
  assumes "calm P E q s" and fork: "fork_gives_fresh_pid P" and w: "sys_call P (Sys_epoll_wait fd k ms) s = (r, t)"
  shows "calm P E q t \<and> advances s t"
  using calm_step [OF assms(1) step.wait [OF w] fork] w assms(1) by (auto simp: sys_call_def calm_def)

text \<open>The part of a pass before its end: afterwards no process is running.\<close>

lemma pass_body:
  assumes coop: "cooperative P" and fork: "fork_gives_fresh_pid P" and sl: "short_lived P" and oh: "only_hang_ups P"
    and calm: "calm P E q s" and fuel: "card (dom (objects s)) < n"
  obtains t where "loop_pass P n s = loop_end P n t" and "calm P E q t" and "advances s t" and "(step P)\<^sup>*\<^sup>* s t"
    and "number_of_running_procs t = 0"
proof -
  obtain s1 where s1: "start_programs P n s = (Inr (), s1)" "calm P E q s1" "advances s s1"
    by (rule start_programs_total [OF coop fork calm])
  define r where "r = os P (calls s1) (Sys_epoll_wait (epoll_fd s1) MAX_EVENTS 1000)"
  define s2 where "s2 = snd (sys_call P (Sys_epoll_wait (epoll_fd s1) MAX_EVENTS 1000) s1)"
  have w: "sys_call P (Sys_epoll_wait (epoll_fd s1) MAX_EVENTS 1000) s1 = (r, s2)"
    by (simp add: sys_call_def r_def s2_def)
  from epoll_wait_calm [OF s1(2) fork w] have s2: "calm P E q s2" "advances s1 s2" by simp_all
  have "dom (objects s2) = dom (objects s)"
    using dom_evolves s1(3) s2(2) by (metis advances_def)
  then have "card (pending (calls s2)) < n" using card_pending [of s2] s2(1) fuel by (simp add: calm_def)
  from reap_total [OF sl fork s2(1) this] obtain s3 where
    s3: "reap P n s2 = (Inr (), s3)" "calm P E q s3" "advances s2 s3" "pending (calls s3) = {}" by blast
  have none: "number_of_running_procs s3 = 0" using nothing_pending [of E s3] s3(2,4) by (simp add: calm_def)
  let ?evs = "take (nat (ret r)) (out_events r)"
  have ev: "e AND EPOLLIN = 0 \<and> e AND EPOLLHUP \<noteq> 0" if "(fd, e) \<in> set ?evs" for fd e
    using oh in_set_takeD [OF that] by (auto simp: only_hang_ups_def r_def)
  obtain s4 where s4: "(if 0 < ret r then dispatch_events P ?evs s3 else (Inr (), s3)) = (Inr (), s4)"
    "calm P E q s4" "bystander s3 s4" "(step P)\<^sup>*\<^sup>* s3 s4"
  proof (cases "0 < ret r")
    case True
    obtain s4 where "dispatch_events P ?evs s3 = (Inr (), s4)" "calm P E q s4"
      by (rule dispatch_total [OF ev oh fork s3(2)])
    with True that [of s4] dispatch_events_bystander dispatch_steps show thesis by simp
  next
    case False
    with that [of s3] s3(2) show thesis by simp
  qed
  have "loop_pass P n s = loop_end P n s4"
    using s4(1) by (simp add: loop_pass_def s1(1) w s3(1) Let_def)
  moreover have "advances s s4"
    using s1(3) s2(2) s3(3) bystander_advances [OF s4(3)] by (blast intro: advances_trans)
  moreover have "(step P)\<^sup>*\<^sup>* s s4"
  proof -
    have "step P s s1" by (rule step.start [OF s1(1)])
    moreover have "step P s1 s2" by (rule step.wait [OF w])
    ultimately show ?thesis using reap_steps [OF s3(1)] s4(4) by (meson converse_rtranclp_into_rtranclp rtranclp_trans)
  qed
  moreover have "number_of_running_procs s4 = 0" using none s4(3) by (simp add: bystander_def)
  ultimately show thesis using that s4(2) by blast
qed

section \<open>The loop\<close>

lemma event_loop_total:
  assumes coop: "cooperative P" and fork: "fork_gives_fresh_pid P" and sl: "short_lived P" and oh: "only_hang_ups P"
    and known: "conditions_known s0"
  shows "calm P E False s \<Longrightarrow> advances s0 s \<Longrightarrow> all_listed s \<Longrightarrow>
    card (dom (objects s)) + total_moves_left (stages_of s) + 2 \<le> n \<Longrightarrow>
    \<exists>t. event_loop P n s = (Inr 0, t) \<and> (\<forall>b. \<not> stage_move (awaited s0) (stages_of t) b)"
proof (induction n arbitrary: s)
  case (Suc n)
  have inv: "sys_inv E s" and fin: "finite (dom (objects s))"
    using Suc.prems(1) by (simp_all add: calm_def forks_match_def)
  have fuel: "card (dom (objects s)) < n" using Suc.prems(4) by simp
  obtain u where u: "loop_pass P n s = loop_end P n u" "calm P E False u" "advances s u" "(step P)\<^sup>*\<^sup>* s u"
    "number_of_running_procs u = 0"
    by (rule pass_body [OF coop fork sl oh Suc.prems(1) fuel])
  obtain t where t: "start_programs P n u = (Inr (), t)" "calm P E False t" "advances u t"
    by (rule start_programs_total [OF coop fork u(2)])
  have quit: "\<not> should_quit u" using u(2) by (simp add: calm_def)
  have adv: "advances s0 u" by (rule advances_trans [OF Suc.prems(2) u(3)])
  have listed: "all_listed u" by (rule all_listed_advances [OF Suc.prems(3) u(3)])
  show ?case
  proof (cases "number_of_running_procs t = 0")
    case True
    have "\<not> stage_move (awaited s0) (stages_of t) b" for b
      by (rule idle_stuck [OF coop fork u(2) listed adv known t(1) True])
    moreover have "event_loop P (Suc n) s = (Inr 0, t)"
      using u(1) quit t(1) True by (simp add: loop_end_def)
    ultimately show ?thesis by blast
  next
    case False
    have invs: "sys_inv E u" "sys_inv E t" using u(2) t(2) by (simp_all add: calm_def)
    have dom: "dom (objects u) = dom (objects s) \<and> total_moves_left (stages_of u) \<le> total_moves_left (stages_of s)"
      using steps_use_moves [OF u(4) inv fork fin] by blast
    have "running u = {}" using running_count [of u] invs(1) u(5) by (simp add: sys_inv_def)
    moreover have "running t \<noteq> {}" using running_count [of t] invs(2) False by (auto simp: sys_inv_def)
    ultimately have "stages_of u \<noteq> stages_of t" by (metis running_stages)
    moreover have "(step P)\<^sup>*\<^sup>* u t" using step.start [OF t(1)] by blast
    ultimately have "dom (objects t) = dom (objects u) \<and> total_moves_left (stages_of t) < total_moves_left (stages_of u)"
      using steps_use_moves [OF _ invs(1) fork, of t] fin dom by simp
    with dom Suc.prems(4) have "card (dom (objects t)) + total_moves_left (stages_of t) + 2 \<le> n" by simp
    from Suc.IH [OF t(2) advances_trans [OF adv t(3)] all_listed_advances [OF listed t(3)] this] obtain v where
      v: "event_loop P n t = (Inr 0, v)" "\<forall>b. \<not> stage_move (awaited s0) (stages_of v) b" by blast
    have "event_loop P (Suc n) s = event_loop P n t"
      using u(1) quit t(1) False by (simp add: loop_end_def)
    with v show ?thesis by auto
  qed
qed simp

text \<open>When the handler is to quit, this is the last pass.\<close>

lemma loop_pass_quits:
  assumes coop: "cooperative P" and fork: "fork_gives_fresh_pid P" and sl: "short_lived P" and oh: "only_hang_ups P"
    and calm: "calm P E True s" and fuel: "card (dom (objects s)) < n"
  shows "\<exists>t. loop_pass P n s = (Inr (Some 0), t) \<and> (step P)\<^sup>*\<^sup>* s t \<and> number_of_running_procs t = 0"
proof -
  obtain u where u: "loop_pass P n s = loop_end P n u" "calm P E True u" "(step P)\<^sup>*\<^sup>* s u" "number_of_running_procs u = 0"
    using pass_body [OF coop fork sl oh calm fuel] by metis
  then have "loop_pass P n s = (Inr (Some 0), u)" by (simp add: loop_end_def calm_def)
  with u show ?thesis by blast
qed

section \<open>From the command line to the end\<close>

lemma launched_all:
  assumes run: "launched P Y F opts cfg s0 s" and few: "few_programs cfg"
  shows "conditions_known s" and "all_listed s" and "\<not> should_quit s"
    and "processes cfg \<noteq> [] \<Longrightarrow> leads_to_object s 0"
proof -
  have h: "handle_commandline_invocation P Y F opts ProcessHandler = (Inr (Some cfg), s0)"
    and su: "setup_signal_handlers P (register_processes (get_processes cfg) s0) = (Inr (), s)"
    using run by (simp_all add: launched_def)
  have reach: "reachable P Y F opts cfg s0 s" using run by (auto simp: reachable_def)
  have cf: "configured (cfg, s0)" and fc: "freshly_configured s0"
    and mem: "\<And>r. r \<in> set (processes cfg) \<longleftrightarrow> objects s0 r \<noteq> None"
    using reachable_configured [OF reach few] by simp_all
  have bs: "bystander (register_processes (get_processes cfg) s0) s" by (rule setup_bystander [OF su])
  have ob: "objects s = objects (register_processes (map Some (processes cfg)) s0)"
    using bs by (simp add: bystander_def get_processes_eq)
  have wd: "wired s" using launched_inv(1) [OF run few] by (simp add: sys_inv_def)
  have known: "leads_to_object s (graph_id d)" if d: "objects s0 q = Some d" for q d
  proof -
    from registered_some [OF d, of "processes cfg"] obtain d' where "objects s q = Some d'" "graph_id d' = graph_id d"
      by (auto simp: ob static_def)
    with wired_leads [OF wd] show ?thesis by metis
  qed
  show "conditions_known s"
    unfolding conditions_known_def
  proof (intro allI impI)
    fix r c i st
    assume c: "objects s r = Some c" and i: "(i, st) \<in> set (conditions c)"
    have "fold (register_one (map Some (processes cfg))) (map Some (processes cfg)) (objects s0) r = Some c"
      using c by (simp add: ob)
    from reg.fold_Some_back [OF this] obtain c0 where c0: "objects s0 r = Some c0" by blast
    have "conditions c0 = []" using fc c0 by (auto simp: freshly_configured_def)
    from registered_cond_ids [OF c0 this, of "processes cfg"] mem c0
    have "cond_ids (objects s) r \<subseteq> {graph_id d | q d. objects s0 q = Some d}" by (auto simp: ob)
    moreover have "i \<in> cond_ids (objects s) r" using c i by (force simp: cond_ids_def)
    ultimately obtain q d where "i = graph_id d" "objects s0 q = Some d" by blast
    with known show "leads_to_object s i" by simp
  qed
  have "all_objs s = map Some (processes cfg)" using bs by (simp add: bystander_def get_processes_eq)
  moreover have "dom (objects s) = set (processes cfg)"
    using stages_launched(1) [OF run few] by (auto simp: stages_of_def dom_def)
  ultimately show "all_listed s" by (auto simp: all_listed_def dom_def)
  have "should_quit s = should_quit (register_processes (get_processes cfg) s0)"
    using su by (auto simp: setup_signal_handlers_def sys_call_def throw_handler_def Let_def split: if_splits)
  then show "\<not> should_quit s" using cf by (simp add: configured_def register_processes_def Let_def)
  show "leads_to_object s 0" if "processes cfg \<noteq> []"
  proof -
    have "processes cfg = [0..<next_ref s0]" using cf by (simp add: configured_def)
    with that have "0 < next_ref s0" by (cases "next_ref s0") simp_all
    then have "objects s0 0 \<noteq> None" using cf unfolding configured_def by blast
    then obtain d where d: "objects s0 0 = Some d" by blast
    then have "graph_id d = of_nat 0" using cf unfolding configured_def by blast
    with known [OF d] show ?thesis by simp
  qed
qed

lemma main_completes:
  assumes run: "launched P Y F opts cfg s0 s" and few: "few_programs cfg" and fork: "fork_gives_fresh_pid P"
    and coop: "cooperative P" and sl: "short_lived P" and oh: "only_hang_ups P" and st0: "startable P s0"
    and some: "processes cfg \<noteq> []" and fuel: "4 * length (processes cfg) + 2 \<le> n"
  shows "\<exists>t. main_scinit P Y F opts n = (Inr 0, t) \<and> (\<forall>b. \<not> stage_move (awaited s) (stages_of t) b)"
proof -
  let ?E = "overtaken (objects s0) (processes cfg)"
  have reach: "reachable P Y F opts cfg s0 s" using run by (auto simp: reachable_def)
  have inv: "sys_inv ?E s" by (rule launched_inv(1) [OF run few])
  note all = launched_all [OF run few]
  have st: "startable P s" by (rule startable_launched [OF run st0])
  have calm: "calm P ?E False s"
    using inv st launched_forks [OF run few] reachable_fds [OF reach few fork] all(3,4) some by (simp add: calm_def)
  obtain u where u: "start_programs P n s = (Inr (), u)" "calm P ?E False u" "advances s u"
    by (rule start_programs_total [OF coop fork calm])
  have dom: "dom (objects s) = set (processes cfg)"
    using stages_launched(1) [OF run few] by (auto simp: stages_of_def dom_def)
  have "(step P)\<^sup>*\<^sup>* s u" using step.start [OF u(1)] by blast
  from steps_use_moves [OF this inv fork] dom
  have "dom (objects u) = set (processes cfg) \<and> total_moves_left (stages_of u) \<le> total_moves_left (stages_of s)" by simp
  then have "card (dom (objects u)) + total_moves_left (stages_of u) + 2 \<le> n"
    using stages_launched(2) [OF run few] fuel card_length [of "processes cfg"] by simp
  from event_loop_total [OF coop fork sl oh all(1) u(2) u(3) all_listed_advances [OF all(2) u(3)] this]
  obtain t where t: "event_loop P n u = (Inr 0, t)" "\<forall>b. \<not> stage_move (awaited s) (stages_of t) b" by blast
  have "main_scinit P Y F opts n = (Inr 0, t)"
    using run u(1) t(1) by (simp add: main_scinit_def launched_def enter_eventloop_def Let_def)
  with t(2) show ?thesis by blast
qed

section \<open>From any state of a run\<close>

lemma reachable_calm:
  assumes reach: "reachable P Y F opts cfg s0 t" and few: "few_programs cfg" and fork: "fork_gives_fresh_pid P"
    and st0: "startable P s0" and some: "processes cfg \<noteq> []"
  shows "calm P (overtaken (objects s0) (processes cfg)) (should_quit t) t" and "dom (objects t) = set (processes cfg)"
proof -
  obtain s where run: "launched P Y F opts cfg s0 s" and steps: "(step P)\<^sup>*\<^sup>* s t"
    using reach by (auto simp: reachable_def)
  note inv = launched_inv(1) [OF run few]
  have adv: "advances s t" using machine.run_inv [OF steps] inv fork by blast
  have "startable P t" by (rule startable_advances [OF startable_launched [OF run st0] adv])
  moreover have "leads_to_object t 0" by (rule leads_to_advances [OF launched_all(4) [OF run few some] adv])
  ultimately show "calm P (overtaken (objects s0) (processes cfg)) (should_quit t) t"
    using reachable_inv(1) [OF reach few fork] reachable_forks(1) [OF reach few fork] reachable_fds [OF reach few fork]
    by (simp add: calm_def)
  have "dom (objects s) = set (processes cfg)"
    using stages_launched(1) [OF run few] by (auto simp: stages_of_def dom_def)
  with steps_use_moves [OF steps inv fork] show "dom (objects t) = set (processes cfg)" by simp
qed

lemma quit_completes:
  assumes reach: "reachable P Y F opts cfg s0 s" and few: "few_programs cfg" and fork: "fork_gives_fresh_pid P"
    and coop: "cooperative P" and sl: "short_lived P" and oh: "only_hang_ups P" and st0: "startable P s0"
    and some: "processes cfg \<noteq> []" and quit: "should_quit s" and fuel: "length (processes cfg) < n"
  shows "\<exists>t. loop_pass P n s = (Inr (Some 0), t) \<and> event_loop P (Suc n) s = (Inr 0, t) \<and>
    (\<forall>r c. objects t r = Some c \<longrightarrow> state c \<noteq> RUNNING)"
proof -
  note calm = reachable_calm [OF reach few fork st0 some]
  have "card (dom (objects s)) < n" using calm(2) fuel card_length [of "processes cfg"] by simp
  from loop_pass_quits [OF coop fork sl oh _ this] calm(1) quit obtain t where
    t: "loop_pass P n s = (Inr (Some 0), t)" "(step P)\<^sup>*\<^sup>* s t" "number_of_running_procs t = 0" by auto
  have "sys_inv (overtaken (objects s0) (processes cfg)) t"
    by (rule reachable_inv(1) [OF reachable_step [OF reach t(2)] few fork])
  from none_running [OF this t(3)] have "state c \<noteq> RUNNING" if "objects t r = Some c" for r c
    using that by (auto simp: stages_of_def)
  with t(1) show ?thesis by (intro exI [of _ t]) simp
qed

end
