(* ===== verification/Sample_System.thy ===== *)
theory Sample_System
  imports Ending
begin

text \<open>
  A concrete world and a concrete configuration, in which the hypotheses of the properties of the whole
  program hold: a kernel whose calls succeed and that gives every new process a number larger than all
  numbers it has returned, children that exit with a given status as soon as they are waited for, a hang-up of descriptor 3 in every
  round, a signal \<open>SIGTERM\<close> whenever the descriptor for signals is read, and a configuration with a program (object 0) to be started after another (object 1).
\<close>

definition largest :: "trace \<Rightarrow> int" where
  "largest tr = foldr (\<lambda>e m. max (ret (snd e)) m) tr 0"

definition sample_os :: "int \<Rightarrow> trace \<Rightarrow> oscall \<Rightarrow> reply" where
  "sample_os status tr call = (case call of
     Sys_fork \<Rightarrow> ok_reply\<lparr>ret := 1 + largest tr\<rparr>
   | Sys_waitpid \<Rightarrow> ok_reply\<lparr>ret := if outstanding tr = {} then 0 else Max (outstanding tr), out_num := status\<rparr>
   | Sys_epoll_wait fd k ms \<Rightarrow> ok_reply\<lparr>ret := 1, out_events := [(3, EPOLLHUP)]\<rparr>
   | Sys_read fd k \<Rightarrow> ok_reply\<lparr>ret := int k, out_num := 15\<rparr>
   | _ \<Rightarrow> plain_kernel 0 call)"

definition sample_world :: "int \<Rightarrow> platform" where
  "sample_world status = example_platform (sample_os status) []"

abbreviation sample_platform :: platform where
  "sample_platform \<equiv> sample_world 1"

definition sample_document :: document where
  "sample_document = Mapping [(''programs'', Seq
     [Mapping [(''name'', Scalar ''w''), (''path'', Scalar ''/w''), (''uid'', Scalar ''7''), (''default_env'', Scalar ''no''),
        (''after'', Seq [Scalar ''d''])],
      Mapping [(''name'', Scalar ''d''), (''path'', Scalar ''/d''), (''uid'', Scalar ''9''), (''default_env'', Scalar ''no'')]])]"

definition sample_files :: filesystem where
  "sample_files = \<lparr>fs_exists = \<lambda>f. True, fs_is_directory = \<lambda>f. False, fs_regular_files = \<lambda>f. []\<rparr>"

definition sample_options :: options where
  "sample_options = \<lparr>opt_help = False, opt_config = ''config.yml'', opt_verbose = False\<rparr>"

lemma largest_ge: "0 \<le> largest tr" and largest_mem: "e \<in> set tr \<Longrightarrow> ret (snd e) \<le> largest tr"
  by (induction tr) (auto simp: largest_def)

lemma outstanding_in_trace: "pid \<in> outstanding tr \<Longrightarrow> \<exists>e\<in>set tr. ret (snd e) = pid"
  by (induction tr rule: outstanding.induct) (auto split: oscall.splits)

lemma sample_fork: "fork_gives_fresh_pid (sample_world status)"
proof -
  have "1 + largest tr \<notin> outstanding tr" for tr
    using outstanding_in_trace [of "1 + largest tr" tr] largest_mem [of _ tr] by force
  then show ?thesis
    using largest_ge by (simp add: fork_gives_fresh_pid_def sample_world_def sample_os_def add.commute add_pos_nonneg)
qed

lemma sample_env:
  assumes "env_extra_vars c = []"
  shows "\<exists>environment. handle_env (sample_world status) c = Inr environment"
proof -
  have "renders_loop (sample_world status)" by (simp add: sample_world_def)
  moreover obtain vs where "env_vars (sample_world status) c = Inr vs"
    using assms by (simp add: env_vars_def sample_world_def Let_def)
  ultimately show ?thesis by (blast dest: handle_env_lines)
qed

section \<open>Starting with a document\<close>

definition boot :: "int \<Rightarrow> document \<Rightarrow> config option res \<times> sys" where
  "boot status d = handle_commandline_invocation (sample_world status) (document_yaml d) sample_files sample_options ProcessHandler"

definition boot_config :: "int \<Rightarrow> document \<Rightarrow> config" where
  "boot_config status d = the (projr (fst (boot status d)))"

definition boot_setup :: "int \<Rightarrow> document \<Rightarrow> unit res \<times> sys" where
  "boot_setup status d =
     setup_signal_handlers (sample_world status) (register_processes (get_processes (boot_config status d)) (snd (boot status d)))"

abbreviation boots :: "int \<Rightarrow> document \<Rightarrow> sys \<Rightarrow> bool" where
  "boots status d \<equiv> launched (sample_world status) (document_yaml d) sample_files sample_options (boot_config status d) (snd (boot status d))"

definition succeeded :: "'a res \<Rightarrow> bool" where
  "succeeded r = (case r of Inl e \<Rightarrow> False | Inr x \<Rightarrow> True)"

text \<open>What is evaluated of a document with two programs.\<close>

definition boot_check :: "config option res \<times> sys \<Rightarrow> (child \<Rightarrow> bool) \<Rightarrow> (child \<Rightarrow> bool) \<Rightarrow> bool" where
  "boot_check m A B \<longleftrightarrow>
     succeeded (fst m) \<and> projr (fst m) \<noteq> None \<and> processes (the (projr (fst m))) = [0, 1] \<and>
     (case (objects (snd m) 0, objects (snd m) 1) of
        (Some a, Some b) \<Rightarrow> \<not> want_tty a \<and> \<not> want_tty b \<and> env_extra_vars a = [] \<and> env_extra_vars b = [] \<and> A a \<and> B b
      | _ \<Rightarrow> False)"

lemma succeeded_projr: "succeeded r \<Longrightarrow> r = Inr (projr r)"
  by (cases r) (simp_all add: succeeded_def)

lemma succeeded_unit: "succeeded (fst m) \<Longrightarrow> m = (Inr (), snd m)"
  by (cases m; cases "fst m") (auto simp: succeeded_def)

lemma boot_facts:
  assumes "boot_check (boot status d) A B" and done_setup: "succeeded (fst (boot_setup status d))"
  shows "boots status d (snd (boot_setup status d))" and "processes (boot_config status d) = [0, 1]"
    and "few_programs (boot_config status d)"
    and "startable (sample_world status) (snd (boot status d))"
    and "\<exists>a b. objects (snd (boot status d)) = [0 \<mapsto> a, 1 \<mapsto> b] \<and> A a \<and> B b"
proof -
  let ?m = "boot status d" and ?s = "snd (boot_setup status d)"
  have ok: "succeeded (fst ?m)" "projr (fst ?m) \<noteq> None" "processes (boot_config status d) = [0, 1]"
    using assms(1) by (simp_all add: boot_check_def boot_config_def)
  from ok(2) have "projr (fst ?m) = Some (boot_config status d)" unfolding boot_config_def by simp
  with succeeded_projr [OF ok(1)] have "?m = (Inr (Some (boot_config status d)), snd ?m)" by (metis prod.collapse)
  with succeeded_unit [OF done_setup] show run: "boots status d ?s"
    by (simp add: launched_def boot_def [symmetric] boot_setup_def [symmetric])
  show pr: "processes (boot_config status d) = [0, 1]" by (rule ok(3))
  then show few: "few_programs (boot_config status d)" by (simp add: few_programs_def)
  obtain a b where a: "objects (snd ?m) 0 = Some a" and b: "objects (snd ?m) 1 = Some b"
    and ab: "\<not> want_tty a" "\<not> want_tty b" "env_extra_vars a = []" "env_extra_vars b = []" "A a" "B b"
    using assms(1) by (auto simp: boot_check_def split: option.splits)
  have reach: "reachable (sample_world status) (document_yaml d) sample_files sample_options (boot_config status d) (snd ?m) ?s"
    using run by (auto simp: reachable_def)
  have none: "objects (snd ?m) r = None" if "r \<noteq> 0" "r \<noteq> 1" for r
    using reachable_configured(4) [OF reach few, of r] that by (simp add: pr)
  have ob: "objects (snd ?m) = [0 \<mapsto> a, 1 \<mapsto> b]"
  proof
    show "objects (snd ?m) r = [0 \<mapsto> a, 1 \<mapsto> b] r" for r
      using a b none [of r] by (cases "r = 0"; cases "r = 1") simp_all
  qed
  with ab(5,6) show "\<exists>a b. objects (snd (boot status d)) = [0 \<mapsto> a, 1 \<mapsto> b] \<and> A a \<and> B b" by blast
  show "startable (sample_world status) (snd ?m)"
    using sample_env ab ob by (auto simp: startable_def split: if_splits)
qed

section \<open>The program is configured, launched, and runs\<close>

abbreviation sample_boot :: "config option res \<times> sys" where
  "sample_boot \<equiv> boot 1 sample_document"

abbreviation sample_config :: config where
  "sample_config \<equiv> boot_config 1 sample_document"

abbreviation sample_configured :: sys where
  "sample_configured \<equiv> snd sample_boot"

abbreviation sample_setup :: "unit res \<times> sys" where
  "sample_setup \<equiv> boot_setup 1 sample_document"

text \<open>One evaluation of the start, from which the facts about it are read off.\<close>

definition example_object :: "sys \<Rightarrow> ref \<Rightarrow> string \<Rightarrow> u32 \<Rightarrow> ProcessState \<Rightarrow> (u32 \<times> ProcessState) list \<Rightarrow> bool" where
  "example_object s r nm i st cs \<longleftrightarrow>
     (case objects s r of
        None \<Rightarrow> False
      | Some c \<Rightarrow> name c = nm \<and> graph_id c = i \<and> state c = st \<and> conditions c = cs \<and> \<not> want_tty c \<and> env_extra_vars c = [])"

definition sample_check :: "unit res \<times> sys \<Rightarrow> bool" where
  "sample_check m \<longleftrightarrow>
     (case m of (r, s) \<Rightarrow> succeeded r \<and> all_objs s = [Some 0, Some 1] \<and> list_all (\<lambda>e. quiet_call (fst e)) (calls s) \<and>
        example_object s 0 ''w'' 0 BLOCKED [(1, RUNNING)] \<and> example_object s 1 ''d'' 1 READY [])"

lemma sample_check0: "boot_check sample_boot (\<lambda>c. name c = ''w'' \<and> after c = [''d'']) (\<lambda>c. name c = ''d'' \<and> before c = [])"
  by code_simp

lemma sample_check: "sample_check sample_setup"
  by code_simp

abbreviation sample_reach :: "sys \<Rightarrow> bool" where
  "sample_reach \<equiv> reachable sample_platform (document_yaml sample_document) sample_files sample_options sample_config sample_configured"

lemma sample_setup_succeeded: "succeeded (fst sample_setup)"
  using sample_check unfolding sample_check_def case_prod_beta by blast

lemmas sample_facts = boot_facts [OF sample_check0 sample_setup_succeeded]

lemma sample_launched:
  "launched sample_platform (document_yaml sample_document) sample_files sample_options sample_config sample_configured (snd sample_setup)"
  by (rule sample_facts)

lemma sample_boot_ok:
  "handle_commandline_invocation sample_platform (document_yaml sample_document) sample_files sample_options ProcessHandler =
     (Inr (Some sample_config), sample_configured)"
  using sample_launched by (simp add: launched_def)

lemma sample_processes: "processes sample_config = [0, 1]"
  by (rule sample_facts)

lemma sample_few: "few_programs sample_config"
  by (rule sample_facts)

lemma sample_startable: "startable sample_platform sample_configured"
  by (rule sample_facts)

lemma sample_setup_ok: "sample_setup = (Inr (), snd sample_setup)"
  and sample_objs: "all_objs (snd sample_setup) = [Some 0, Some 1]"
  and sample_quiet: "outstanding (calls (snd sample_setup)) = {}"
  and sample_web: "example_object (snd sample_setup) 0 ''w'' 0 BLOCKED [(1, RUNNING)]"
  and sample_db: "example_object (snd sample_setup) 1 ''d'' 1 READY []"
proof -
  have 1: "succeeded (fst sample_setup) \<and> all_objs (snd sample_setup) = [Some 0, Some 1] \<and>
      list_all (\<lambda>e. quiet_call (fst e)) (calls (snd sample_setup)) \<and>
      example_object (snd sample_setup) 0 ''w'' 0 BLOCKED [(1, RUNNING)] \<and> example_object (snd sample_setup) 1 ''d'' 1 READY []"
    using sample_check unfolding sample_check_def case_prod_beta .
  then show "sample_setup = (Inr (), snd sample_setup)" and "all_objs (snd sample_setup) = [Some 0, Some 1]"
    and "example_object (snd sample_setup) 0 ''w'' 0 BLOCKED [(1, RUNNING)]" and "example_object (snd sample_setup) 1 ''d'' 1 READY []"
    using succeeded_unit by blast+
  have "quiet_ext [] (calls (snd sample_setup))" using 1 by (auto simp: quiet_ext_def list_all_iff)
  from outstanding_quiet [OF this] show "outstanding (calls (snd sample_setup)) = {}" by simp
qed

lemma sample_reachable_start: "sample_reach (snd sample_setup)"
  using sample_launched by (auto simp: reachable_def)

lemma sample_cooperative: "cooperative (sample_world status)"
  using largest_ge
  by (auto simp: cooperative_def sample_world_def sample_os_def plain_kernel_def ok_reply_def add_pos_nonneg)

lemma notify_one_same:
  assumes "objects s r = Some c" and "notify_of_state (obj_for_id s) (objects s) c = c"
  shows "notify_one (Some r) s = s"
  using assms by (simp add: notify_one_def fun_upd_idem)

lemma start_program_not_ready: "objects s r = Some c \<Longrightarrow> state c \<noteq> READY \<Longrightarrow> start_program P n (Some r) s = (Inr (), s)"
  by (simp add: start_program_def can_start_now_def)

text \<open>The database is started at once, and the web server in the next round.\<close>

lemma sample_first_round:
  obtains t web db where "start_programs sample_platform 10 (snd sample_setup) = (Inr (), t)" and "sample_reach t"
    and "all_objs t = [Some 0, Some 1]" and "omap_find (obj_for_id t) 1 = Some (Some 1)"
    and "objects t 0 = Some web" and "state web = BLOCKED" and "conditions web = [(1, RUNNING)]"
    and "\<not> want_tty web" and "env_extra_vars web = []" and "objects t 1 = Some db" and "state db = RUNNING"
    and "outstanding (calls t) = {primaryPid db}" and "omap_find (id_for_pid t) (primaryPid db) = Some 1"
    and "omap_find (id_for_fd t) (fst (stdout db)) = Some 1"
proof -
  let ?s = "snd sample_setup"
  obtain web where web: "objects ?s 0 = Some web" "state web = BLOCKED" "conditions web = [(1, RUNNING)]"
      "\<not> want_tty web" "env_extra_vars web = []"
    using sample_web by (auto simp: example_object_def split: option.splits)
  obtain db where db: "objects ?s 1 = Some db" "state db = READY" "graph_id db = 1" "\<not> want_tty db" "env_extra_vars db = []"
    using sample_db by (auto simp: example_object_def split: option.splits)
  have "wired ?s" using reachable_inv(1) [OF sample_reachable_start sample_few sample_fork] by (simp add: sys_inv_def)
  then have o: "omap_find (obj_for_id ?s) 1 = Some (Some 1)" using db unfolding wired_def by metis
  have "notify_of_state (obj_for_id ?s) (objects ?s) web = web" "notify_of_state (obj_for_id ?s) (objects ?s) db = db"
    using web db o by (simp_all add: notify_of_state_alt condition_holds_def)
  then have n: "fold notify_one [Some 0, Some 1] ?s = ?s"
    using notify_one_same web(1) db(1) by simp
  obtain environment where "handle_env sample_platform db = Inr environment" using sample_env db(5) by blast
  from start_program_succeeds [OF sample_cooperative db(1,2,4) this, of 10] obtain db' t where
    t: "start_program sample_platform 10 (Some 1) ?s = (Inr (), t)" "objects t = (objects ?s)(1 \<mapsto> db')"
      "state db' = RUNNING" "obj_for_id t = obj_for_id ?s" "all_objs t = all_objs ?s"
      "outstanding (calls t) = insert (primaryPid db') (outstanding (calls ?s))"
      "omap_find (id_for_pid t) (primaryPid db') = Some (graph_id db)"
      "omap_find (id_for_fd t) (fst (stdout db')) = Some (graph_id db)"
    by metis
  have run: "start_programs sample_platform 10 ?s = (Inr (), t)"
    using n t(1) start_program_not_ready [OF web(1)] web(2) by (simp add: start_programs_def sample_objs)
  have "sample_reach t"
    by (rule reachable_step [OF sample_reachable_start r_into_rtranclp [of "step sample_platform"]]) (rule step.start [OF run])
  with run t web o show thesis by (intro that [of t web db']) (simp_all add: sample_objs sample_quiet db)
qed

lemma sample_second_round:
  obtains t web db where "sample_reach t" and "objects t 0 = Some web" and "state web = RUNNING"
    and "objects t 1 = Some db" and "state db = RUNNING"
proof -
  obtain s web db where s: "sample_reach s" and objs: "all_objs s = [Some 0, Some 1]" and
    o: "omap_find (obj_for_id s) 1 = Some (Some 1)" and
    web: "objects s 0 = Some web" "state web = BLOCKED" "conditions web = [(1, RUNNING)]"
      "\<not> want_tty web" "env_extra_vars web = []" and
    db: "objects s 1 = Some db" "state db = RUNNING"
    using sample_first_round by metis
  let ?web = "web\<lparr>state := READY\<rparr>"
  define u where "u = notify_one (Some 0) s"
  have nw: "notify_of_state (obj_for_id s) (objects s) web = ?web"
    using web db o by (simp add: notify_of_state_alt condition_holds_def)
  have u: "objects u = (objects s)(0 \<mapsto> ?web)" using web(1) nw by (simp add: u_def notify_one_objects)
  have "notify_one (Some 1) u = u"
  proof (rule notify_one_same)
    show "objects u 1 = Some db" using u db(1) by simp
    show "notify_of_state (obj_for_id u) (objects u) db = db" using db(2) by (simp add: notify_of_state_alt)
  qed
  then have n: "fold notify_one [Some 0, Some 1] s = u" by (simp add: u_def)
  obtain environment where "handle_env sample_platform ?web = Inr environment" using sample_env [of ?web 1] web(5) by auto
  moreover have p: "objects u 0 = Some ?web" "state ?web = READY" "\<not> want_tty ?web" using u web(4) by simp_all
  ultimately obtain web' t where
    t: "start_program sample_platform 10 (Some 0) u = (Inr (), t)" "objects t = (objects u)(0 \<mapsto> web')" "state web' = RUNNING"
    using start_program_succeeds [OF sample_cooperative [of 1] p, of environment 10] by metis
  have "all_objs u = [Some 0, Some 1]" by (simp add: u_def objs)
  then have run: "start_programs sample_platform 10 s = (Inr (), t)"
    using n t start_program_not_ready [of t 1 db] db u by (simp add: start_programs_def objs)
  have "sample_reach t"
    by (rule reachable_step [OF s r_into_rtranclp [of "step sample_platform"]]) (rule step.start [OF run])
  with t u db show thesis by (intro that [of t web' db]) simp_all
qed

text \<open>In another run the database fails before the web server has been looked at again.\<close>

lemma sample_crash:
  obtains t web db where "sample_reach t" and "objects t 0 = Some web" and "state web = BLOCKED"
    and "conditions web = [(1, RUNNING)]" and "omap_find (obj_for_id t) 1 = Some (Some 1)"
    and "objects t 1 = Some db" and "state db = CRASHED"
proof -
  obtain s web db where s: "sample_reach s" and o: "omap_find (obj_for_id s) 1 = Some (Some 1)" and
    web: "objects s 0 = Some web" "state web = BLOCKED" "conditions web = [(1, RUNNING)]" and
    db: "objects s 1 = Some db" "state db = RUNNING" and
    out: "outstanding (calls s) = {primaryPid db}" and pid: "omap_find (id_for_pid s) (primaryPid db) = Some 1"
    using sample_first_round by metis
  have inv: "wired s" "known_pids s"
    using reachable_inv(1) [OF s sample_few sample_fork] by (simp_all add: sys_inv_def)
  then have pos: "0 < primaryPid db" using pid by (auto simp: known_pids_def)
  have "graph_id db = 1"
  proof -
    have "omap_find (id_for_pid s) (primaryPid db) = Some (graph_id db)"
      using reachable_inv(1) [OF s sample_few sample_fork] db by (auto simp: sys_inv_def running_at_def intro!: tracked_running)
    with pid show ?thesis by simp
  qed
  moreover have "omap_find (sig_for_id s) (sint (graph_id db)) = Some [1]"
    using inv(1) db(1) unfolding wired_def by blast
  ultimately have sg: "omap_find (sig_for_id s) 1 = Some [1]" by simp
  let ?r = "ok_reply\<lparr>ret := primaryPid db, out_num := 1\<rparr>"
  let ?u = "s\<lparr>calls := (Sys_waitpid, ?r) # calls s\<rparr>"
  have w: "sys_call sample_platform Sys_waitpid s = (?r, ?u)"
    using out by (simp add: sys_call_def sample_world_def sample_os_def)
  obtain t where t: "sigchld_received (primaryPid db) 1 ?u = (Inr (), t)" "objects t = (objects s)(1 \<mapsto> db\<lparr>state := CRASHED\<rparr>)"
      "obj_for_id t = obj_for_id s"
    using pid o sg db by (auto simp: sigchld_received_def emit_to_def Let_def)
  have "sample_reach t"
    by (rule reachable_step [OF s r_into_rtranclp [of "step sample_platform"]], rule step.exited [OF w]) (use pos t in simp_all)
  with t web o show thesis by (intro that [of t web "db\<lparr>state := CRASHED\<rparr>"]) simp_all
qed

lemma sample_configured_objects:
  obtains ca cb where "objects sample_configured 0 = Some ca" and "objects sample_configured 1 = Some cb"
    and "name ca = ''w''" and "after ca = [''d'']" and "name cb = ''d''" and "before cb = []"
  using sample_facts(5) by auto

text \<open>The hypotheses of the theorem on the end of a run.\<close>

lemma sample_short_lived: "short_lived (sample_world status)"
proof -
  have "Max (outstanding tr) \<in> outstanding tr \<and> 0 < Max (outstanding tr)" if p: "p \<in> outstanding tr" "0 < p" for p tr
  proof
    show "Max (outstanding tr) \<in> outstanding tr" using p(1) by (intro Max_in finite_outstanding) blast
    have "p \<le> Max (outstanding tr)" using finite_outstanding p(1) by (rule Max_ge)
    with p(2) show "0 < Max (outstanding tr)" by simp
  qed
  moreover have "Max (outstanding tr) \<le> 0" if "outstanding tr \<noteq> {}" "\<not> (\<exists>p\<in>outstanding tr. 0 < p)" for tr
    using that finite_outstanding [of tr] by (simp add: not_less)
  ultimately show ?thesis
    by (auto simp: short_lived_def Let_def sample_world_def sample_os_def ok_reply_def)
qed

lemma sample_hang_ups: "only_hang_ups (sample_world status)"
  by (auto simp: only_hang_ups_def sample_world_def sample_os_def plain_kernel_def ok_reply_def EPOLLIN_def EPOLLHUP_def)


text \<open>A signal that makes the handler quit.\<close>

lemma sample_quit:
  obtains t where "sample_reach t" and "should_quit t"
proof -
  let ?s = "snd sample_setup"
  define r where "r = os sample_platform (calls ?s) (Sys_read (signal_fd ?s) sizeof_signalfd_siginfo)"
  define u where "u = ?s\<lparr>calls := (Sys_read (signal_fd ?s) sizeof_signalfd_siginfo, r) # calls ?s\<rparr>"
  define t where "t = signal_received sample_platform 15 u"
  have "ret r = int sizeof_signalfd_siginfo" "out_num r = 15" by (simp_all add: r_def sample_world_def sample_os_def)
  then have run: "event_received sample_platform (signal_fd ?s) EPOLLIN ?s = (Inr (), t)"
    by (simp add: event_received_def read_signal_def sys_call_def r_def [symmetric] u_def [symmetric] t_def EPOLLIN_def)
  have "should_quit t"
    by (simp add: t_def signal_received_def Let_def low_bits SIGCHLD_def SIGINT_def SIGTERM_def)
  moreover have "sample_reach t"
    by (rule reachable_step [OF sample_reachable_start r_into_rtranclp [of "step sample_platform"]]) (rule step.event [OF run])
  ultimately show thesis by (rule that [rotated])
qed

end
