(* ===== verification/Outcomes.thy ===== *)
theory Outcomes
  imports Ending
begin

text \<open>
  What becomes of the programs of a configuration, in terms of their dependencies alone: those on a cycle are never
  started, and if there is no cycle and every program is a oneshot that succeeds, all of them are run, each once.
\<close>

section \<open>The dependencies of a configuration\<close>

text \<open>The pairs of processes of which the first has to wait for the second.\<close>

definition dependencies :: "sys \<Rightarrow> (ref \<times> ref) set" where
  "dependencies s =
     {(a, b). \<exists>ca cb. objects s a = Some ca \<and> objects s b = Some cb \<and> (name ca \<in> set (before cb) \<or> name cb \<in> set (after ca))}"

lemma dependencies_dom: "(a, b) \<in> dependencies s \<Longrightarrow> objects s a \<noteq> None \<and> objects s b \<noteq> None"
  by (auto simp: dependencies_def)

text \<open>A process waits for those it depends on, in a state that is allowed by the types of the processes.\<close>

lemma launched_awaits:
  assumes run: "launched P Y F opts cfg s0 s" and few: "few_programs cfg"
    and types: "\<And>r c. objects s0 r = Some c \<Longrightarrow> dependency_state c \<in> A"
  shows "(\<exists>st. (b, st) \<in> awaited s a) \<longleftrightarrow> (a, b) \<in> dependencies s0" and "(b, st) \<in> awaited s a \<Longrightarrow> st \<in> A"
proof -
  let ?s1 = "register_processes (get_processes cfg) s0"
  have reach: "reachable P Y F opts cfg s0 s" using run by (auto simp: reachable_def)
  have fc: "freshly_configured s0" using reachable_configured [OF reach few] by simp
  have ob: "objects s = objects ?s1"
    using run setup_bystander by (fastforce simp: launched_def bystander_def)
  have sound: "sound_states A (objects s)" unfolding ob using fc types by (rule registered_sound)
  show "st \<in> A" if "(b, st) \<in> awaited s a" for st
    using that sound unfolding awaited_def sound_states_def by fastforce
  have dom: "objects s r = None \<longleftrightarrow> objects s0 r = None" for r
  proof -
    have "r \<in> dom (stages_of s) \<longleftrightarrow> r \<in> set (processes cfg)" by (simp add: stages_launched(1) [OF run few])
    with reachable_configured(4) [OF reach few] have "objects s r \<noteq> None \<longleftrightarrow> objects s0 r \<noteq> None"
      by (simp add: stages_of_def domIff)
    then show ?thesis by blast
  qed
  have "objects s0 a \<noteq> None \<and> objects s0 b \<noteq> None" if w: "(b, st) \<in> awaited s a" for st
  proof -
    from w obtain c i where c: "objects s a = Some c" "(i, st) \<in> set (conditions c)"
      and i: "omap_find (obj_for_id s) i = Some (Some b)" by (auto simp: awaited_def)
    have "leads_to_object s i" using launched_all(1) [OF run few] c unfolding conditions_known_def by blast
    with i have "objects s b \<noteq> None" by (auto simp: leads_to_object_def)
    moreover have "objects s a \<noteq> None" using c by simp
    ultimately show ?thesis using dom [of a] dom [of b] by simp
  qed
  then have "objects s0 a \<noteq> None \<and> objects s0 b \<noteq> None" if "(\<exists>st. (b, st) \<in> awaited s a) \<or> (a, b) \<in> dependencies s0"
    using that dependencies_dom by blast
  moreover have "(\<exists>st. (b, st) \<in> awaited s a) \<longleftrightarrow> (a, b) \<in> dependencies s0"
    if "objects s0 a = Some ca" "objects s0 b = Some cb" for ca cb
    using awaited_launched [OF run few that] that by (simp add: dependencies_def)
  ultimately show "(\<exists>st. (b, st) \<in> awaited s a) \<longleftrightarrow> (a, b) \<in> dependencies s0" by blast
qed

section \<open>Cycles\<close>

text \<open>In the abstract machine, a set of blocked processes each of which waits for another one of them stays blocked.\<close>

lemma stuck_together:
  assumes "(stage_move D)\<^sup>*\<^sup>* a b" and blocked: "\<And>r. r \<in> C \<Longrightarrow> a r = Some BLOCKED"
    and waits: "\<And>r. r \<in> C \<Longrightarrow> \<exists>q\<in>C. \<exists>st. (q, st) \<in> D r \<and> st \<noteq> BLOCKED"
    and "r \<in> C"
  shows "b r = Some BLOCKED"
proof -
  have "\<forall>r\<in>C. b r = Some BLOCKED"
    using assms(1)
  proof (induction rule: rtranclp_induct)
    case base
    then show ?case using blocked by simp
  next
    case (step b c)
    show ?case using step(2)
    proof cases
      case (unblock r)
      have "r \<notin> C"
      proof
        assume "r \<in> C"
        from waits [OF this] obtain q st where "q \<in> C" "(q, st) \<in> D r" "st \<noteq> BLOCKED" by blast
        with unblock(3) step.IH show False by fastforce
      qed
      with unblock step.IH show ?thesis by auto
    qed (use step.IH in auto)
  qed
  with \<open>r \<in> C\<close> show ?thesis by blast
qed

lemma launched_states:
  assumes run: "launched P Y F opts cfg s0 s" and few: "few_programs cfg" and c: "objects s r = Some c"
  shows "state c \<in> {BLOCKED, READY}"
proof -
  have reach: "reachable P Y F opts cfg s0 s" using run by (auto simp: reachable_def)
  have fc: "freshly_configured s0" and dist: "distinct (processes cfg)"
    using reachable_configured [OF reach few] by simp_all
  have "objects (register_processes (map Some (processes cfg)) s0) r = Some c"
    using run c setup_bystander by (fastforce simp: launched_def bystander_def get_processes_eq)
  from registered_state [OF _ dist this] fc show ?thesis by (auto simp: freshly_configured_def)
qed

lemma cycle_blocked:
  assumes reach: "reachable P Y F opts cfg s0 t" and few: "few_programs cfg" and fork: "fork_gives_fresh_pid P"
    and cyc: "\<And>a. a \<in> C \<Longrightarrow> a \<notin> overtaken (objects s0) (processes cfg) \<and> (\<exists>b\<in>C. (a, b) \<in> dependencies s0)"
    and "a \<in> C"
  shows "\<exists>c. objects t a = Some c \<and> state c = BLOCKED"
proof -
  obtain s where run: "launched P Y F opts cfg s0 s" and steps: "(step P)\<^sup>*\<^sup>* s t"
    using reach by (auto simp: reachable_def)
  have rs: "reachable P Y F opts cfg s0 s" using run by (auto simp: reachable_def)
  note aw = launched_awaits [OF run few, where A = "{RUNNING, DONE}", OF dependency_states]
  have blocked: "stages_of s r = Some BLOCKED" if r: "r \<in> C" for r
  proof -
    from cyc [OF r] obtain b where b: "b \<in> C" "(r, b) \<in> dependencies s0" and ot: "r \<notin> overtaken (objects s0) (processes cfg)"
      by blast
    then obtain cr cb where c: "objects s0 r = Some cr" "objects s0 b = Some cb"
      and dep: "name cr \<in> set (before cb) \<or> name cb \<in> set (after cr)" by (auto simp: dependencies_def)
    from aw(1) [of b r] b(2) obtain c' where c': "objects s r = Some c'" by (auto simp: awaited_def)
    have "state c' = BLOCKED"
    proof (rule ccontr)
      assume "state c' \<noteq> BLOCKED"
      from waited_for_started [OF rs few fork c dep ot c' this] launched_states [OF run few] show False by fastforce
    qed
    with c' show ?thesis by (simp add: stages_of_def)
  qed
  have waits: "\<exists>q\<in>C. \<exists>st. (q, st) \<in> awaited s r \<and> st \<noteq> BLOCKED" if r: "r \<in> C" for r
  proof -
    from cyc [OF r] obtain b where b: "b \<in> C" "(r, b) \<in> dependencies s0" by blast
    with aw(1) [of b r] obtain st where "(b, st) \<in> awaited s r" by blast
    with aw(2) [of b st r] b(1) show ?thesis by force
  qed
  from stuck_together [OF launched_moves [OF run few fork steps] blocked waits \<open>a \<in> C\<close>]
  show ?thesis by (auto simp: stages_of_def)
qed

section \<open>Programs that succeed\<close>

text \<open>Every child that is reported has exited with status 0.\<close>

definition clean_exits :: "platform \<Rightarrow> bool" where
  "clean_exits P \<longleftrightarrow> (\<forall>tr. 0 < ret (os P tr Sys_waitpid) \<longrightarrow> out_num (os P tr Sys_waitpid) = 0)"

definition no_failures :: "sys \<Rightarrow> bool" where
  "no_failures s \<longleftrightarrow> (\<forall>r x. stages_of s r = Some x \<longrightarrow> x \<in> {BLOCKED, READY, RUNNING, DONE})"

lemma no_failures_update:
  "no_failures s \<Longrightarrow> stages_of t = (stages_of s)(r \<mapsto> x) \<Longrightarrow> x \<in> {BLOCKED, READY, RUNNING, DONE} \<Longrightarrow> no_failures t"
  by (simp add: no_failures_def)

lemma no_failures_same: "no_failures s \<Longrightarrow> stages_of t = stages_of s \<Longrightarrow> no_failures t"
  by (simp add: no_failures_def)

lemma notify_one_failures:
  assumes "no_failures s"
  shows "no_failures (notify_one w s)"
proof (cases "lock (objects s) w")
  case None
  then show ?thesis using assms by (simp add: notify_one_def)
next
  case (Some rc)
  then obtain r c where w: "lock (objects s) w = Some (r, c)" and c: "objects s r = Some c"
    by (cases rc) (auto simp: lock_Some_iff)
  have "objects (notify_one w s) = (objects s)(r \<mapsto> notify_of_state (obj_for_id s) (objects s) c)"
    by (simp add: notify_one_objects w)
  note upd = stages_of_update [OF this]
  have "stages_of s r = Some (state c)" using c by (simp add: stages_of_def)
  then have "state c \<in> {BLOCKED, READY, RUNNING, DONE}" using assms by (simp add: no_failures_def)
  then have "state (notify_of_state (obj_for_id s) (objects s) c) \<in> {BLOCKED, READY, RUNNING, DONE}"
    by (auto simp: notify_of_state_alt)
  from no_failures_update [OF assms upd this] show ?thesis .
qed

lemma start_program_failures: "start_program P n w s = (Inr (), t) \<Longrightarrow> no_failures s \<Longrightarrow> no_failures t"
  by (drule start_program_stages) (elim disjE exE conjE, simp_all add: no_failures_def)

lemma start_programs_failures:
  assumes ok: "no_failures s" and run: "start_programs P n s = (Inr (), t)"
  shows "no_failures t"
proof -
  let ?u = "fold notify_one (all_objs s) s"
  have loop: "for_each (start_program P n) (all_objs s) ?u = (Inr (), t)"
    using run by (simp add: start_programs_def Let_def)
  have "no_failures (fold notify_one ws s)" for ws
    using ok by (induction ws arbitrary: s) (simp_all add: notify_one_failures)
  then have "no_failures ?u" .
  then show ?thesis
    by (rule for_each_invariant_Inr [OF _ _ loop, where P = no_failures, rotated]) (rule start_program_failures)
qed

lemma step_failures:
  assumes "step P s t" and inv: "sys_inv E s" and clean: "clean_exits P" and ok: "no_failures s"
  shows "no_failures t"
  using assms(1)
proof cases
  case (start n)
  then show ?thesis by (rule start_programs_failures [OF ok])
next
  case (exited rp u)
  have u: "u = s\<lparr>calls := (Sys_waitpid, rp) # calls s\<rparr>" and rp: "rp = os P (calls s) Sys_waitpid"
    using exited(1) by (auto simp: sys_call_def)
  have "wired u" "tracked u" using inv by (simp_all add: u sys_inv_def wired_def tracked_def)
  note st = sigchld_received_stages [OF this exited(3)]
  have "out_num rp = 0" using clean exited(2) by (simp add: clean_exits_def rp)
  moreover have "no_failures u" by (rule no_failures_same [OF ok]) (simp add: u stages_of_def)
  ultimately show ?thesis using st by (elim disjE exE conjE) (simp_all add: no_failures_def)
next
  case (none_exited rp)
  then have "stages_of t = stages_of s" by (auto simp: sys_call_def stages_of_def)
  with ok show ?thesis by (rule no_failures_same)
next
  case (wait fd k ms rp)
  then have "stages_of t = stages_of s" by (auto simp: sys_call_def stages_of_def)
  with ok show ?thesis by (rule no_failures_same)
next
  case (event fd ev)
  then have "objects t = objects s" using event_received_bystander by (auto simp: bystander_def)
  from no_failures_same [OF ok stages_of_eq [OF this]] show ?thesis .
qed

interpretation clean: preserved "step P" "\<lambda>s. (fork_gives_fresh_pid P \<and> sys_inv E s) \<and> clean_exits P \<and> no_failures s"
  "\<lambda>s t. True" for P E
  using step_inv step_failures by unfold_locales blast+

section \<open>Everything is run\<close>

text \<open>A state of the abstract machine without a move, in which nothing has failed and everything awaited is success.\<close>

lemma stuck_all_done:
  assumes stuck: "\<forall>b. \<not> stage_move D a b" and fin: "finite (dom a)"
    and states: "\<And>r x. a r = Some x \<Longrightarrow> x \<in> {BLOCKED, READY, RUNNING, DONE}"
    and awaits: "\<And>r q st. (q, st) \<in> D r \<Longrightarrow> st = DONE \<and> a q \<noteq> None \<and> (r, q) \<in> R"
    and R: "acyclic R" "R \<subseteq> dom a \<times> dom a"
    and "a r \<noteq> None"
  shows "a r = Some DONE"
proof -
  have "finite R" using R(2) fin by (meson finite_SigmaI finite_subset)
  with R(1) have "wf (R\<inverse>)" by (simp add: finite_acyclic_wf_converse)
  then show ?thesis using \<open>a r \<noteq> None\<close>
  proof (induction r)
    case (less r)
    obtain x where x: "a r = Some x" using less.prems by blast
    have "x \<noteq> READY" using stage_move.started [of a r D] stuck x by blast
    moreover have "x \<noteq> RUNNING" using stage_move.ended [of a r DONE D] stuck x by blast
    moreover have "x \<noteq> BLOCKED"
    proof
      assume "x = BLOCKED"
      moreover have "\<forall>(q, st)\<in>D r. a q = Some st" using awaits less.IH by fastforce
      ultimately show False using stage_move.unblock [of a r D] stuck x by blast
    qed
    ultimately show ?case using states [OF x] x by simp
  qed
qed

lemma all_oneshots_succeed:
  assumes run: "launched P Y F opts cfg s0 s" and few: "few_programs cfg" and fork: "fork_gives_fresh_pid P"
    and coop: "cooperative P" and sl: "short_lived P" and oh: "only_hang_ups P" and st: "startable P s0"
    and clean: "clean_exits P"
    and oneshots: "\<forall>r c. objects s0 r = Some c \<longrightarrow> ptype c = ONESHOT" and acyc: "acyclic (dependencies s0)"
    and some: "processes cfg \<noteq> []" and fuel: "4 * length (processes cfg) + 2 \<le> n"
  shows "\<exists>t. main_scinit P Y F opts n = (Inr 0, t) \<and> reachable P Y F opts cfg s0 t \<and>
    (\<forall>r\<in>set (processes cfg). \<exists>c. objects t r = Some c \<and> state c = DONE)"
proof -
  obtain t where t: "main_scinit P Y F opts n = (Inr 0, t)" and stuck: "\<forall>b. \<not> stage_move (awaited s) (stages_of t) b"
    using main_completes [OF run few fork coop sl oh st some fuel] by blast
  have reach: "reachable P Y F opts cfg s0 s" using run by (auto simp: reachable_def)
  note conf = reachable_configured [OF reach few]
  have steps: "(step P)\<^sup>*\<^sup>* s t" and rt: "reachable P Y F opts cfg s0 t"
  proof -
    have "reachable P Y F opts cfg s0 t \<and> (step P)\<^sup>*\<^sup>* s t"
      using t
    proof (cases rule: main_result)
      case (served cfg' s0')
      then obtain s' where "launched P Y F opts cfg' s0' s'" "(step P)\<^sup>*\<^sup>* s' t" by (auto simp: reachable_def)
      with run served(2) show ?thesis by (auto simp: launched_def)
    qed simp
    then show "(step P)\<^sup>*\<^sup>* s t" "reachable P Y F opts cfg s0 t" by simp_all
  qed
  have dom: "dom (stages_of t) = set (processes cfg)"
  proof -
    have "finite (dom (objects s))" and d: "dom (objects s) = set (processes cfg)"
      using stages_launched(1) [OF run few] by (auto simp: stages_of_def dom_def)
    with steps_use_moves [OF steps launched_inv(1) [OF run few] fork] show ?thesis
      by (auto simp: stages_of_def dom_def)
  qed
  have "no_failures s"
    using launched_states [OF run few] by (fastforce simp: no_failures_def stages_of_def)
  with clean.run_inv [OF steps] launched_inv(1) [OF run few] fork clean have nf: "no_failures t" by blast
  have aw: "(\<exists>st. (b, st) \<in> awaited s a) \<longleftrightarrow> (a, b) \<in> dependencies s0" "(b, st) \<in> awaited s a \<Longrightarrow> st \<in> {DONE}" for a b st
    by (rule launched_awaits [OF run few, where A = "{DONE}"]; simp add: dependency_state_def oneshots)+
  have "stages_of t r = Some DONE" if r: "r \<in> set (processes cfg)" for r
  proof (rule stuck_all_done [OF stuck _ _ _ acyc])
    show "finite (dom (stages_of t))" "stages_of t r \<noteq> None" using dom r by auto
    show "x \<in> {BLOCKED, READY, RUNNING, DONE}" if "stages_of t r = Some x" for r x
      using nf that by (simp add: no_failures_def)
    have mem: "objects s0 r \<noteq> None \<longleftrightarrow> stages_of t r \<noteq> None" for r
      using conf(4) [of r] dom by (auto simp: dom_def)
    show "dependencies s0 \<subseteq> dom (stages_of t) \<times> dom (stages_of t)"
    proof
      fix e assume "e \<in> dependencies s0"
      then obtain a b where e: "e = (a, b)" "(a, b) \<in> dependencies s0" by (cases e) simp
      with dependencies_dom [OF e(2)] mem show "e \<in> dom (stages_of t) \<times> dom (stages_of t)" by (simp add: domIff)
    qed
    show "st = DONE \<and> stages_of t q \<noteq> None \<and> (r, q) \<in> dependencies s0" if "(q, st) \<in> awaited s r" for r q st
    proof -
      have "(r, q) \<in> dependencies s0" using aw(1) [of q r] that by blast
      then show ?thesis using aw(2) [OF that] dependencies_dom [of r q s0] mem [of q] by simp
    qed
  qed
  with t rt show ?thesis by (auto simp: stages_of_def)
qed

end
