(* ===== verification/Sample_Outcomes.thy ===== *)
theory Sample_Outcomes
  imports Sample_System Outcomes
begin

text \<open>
  More configurations for the examples: two oneshots of which one waits for the other, in a world in which every child
  exits with status 0; one program in a world in which \<open>fork\<close> returns 0, and in one in which it fails; no program, and a
  set-up that fails; and two programs that wait for each other.
\<close>

section \<open>Two oneshots\<close>

definition oneshot_document :: document where
  "oneshot_document = Mapping [(''programs'', Seq
     [Mapping [(''name'', Scalar ''w''), (''path'', Scalar ''/w''), (''type'', Scalar ''oneshot''), (''uid'', Scalar ''7''),
        (''default_env'', Scalar ''no''), (''after'', Seq [Scalar ''d''])],
      Mapping [(''name'', Scalar ''d''), (''path'', Scalar ''/d''), (''type'', Scalar ''oneshot''), (''uid'', Scalar ''9''),
        (''default_env'', Scalar ''no'')]])]"

definition oneshot_program :: "string \<Rightarrow> string list \<Rightarrow> child \<Rightarrow> bool" where
  "oneshot_program n af c \<longleftrightarrow> ptype c = ONESHOT \<and> name c = n \<and> before c = [] \<and> after c = af"

lemma oneshot_check: "boot_check (boot 0 oneshot_document) (oneshot_program ''w'' [''d'']) (oneshot_program ''d'' [])"
  by code_simp

lemma oneshot_setup: "succeeded (fst (boot_setup 0 oneshot_document))"
  by code_simp

lemmas oneshot_facts = boot_facts [OF oneshot_check oneshot_setup]

lemma oneshot_types: "\<forall>r c. objects (snd (boot 0 oneshot_document)) r = Some c \<longrightarrow> ptype c = ONESHOT"
  using oneshot_facts(5) by (auto simp: oneshot_program_def split: if_splits)

lemma oneshot_acyclic: "acyclic (dependencies (snd (boot 0 oneshot_document)))"
proof -
  have "dependencies (snd (boot 0 oneshot_document)) \<subseteq> {(0, 1)}"
    using oneshot_facts(5) by (auto simp: dependencies_def oneshot_program_def split: if_splits)
  moreover have "acyclic {(0 :: nat, 1 :: nat)}" by (simp add: acyclic_insert) (simp add: acyclic_def)
  ultimately show ?thesis by (rule acyclic_subset [rotated])
qed

lemma clean_world: "clean_exits (sample_world 0)"
  by (simp add: clean_exits_def sample_world_def sample_os_def)

section \<open>A program that is executed\<close>

text \<open>In a world in which \<open>fork\<close> returns 0, one sees the run of the child.\<close>

definition last_call_executes :: "string \<Rightarrow> trace \<Rightarrow> bool" where
  "last_call_executes p tr \<longleftrightarrow>
     (case tr of [] \<Rightarrow> False | e # es \<Rightarrow> (case fst e of Sys_execvpe program av envp \<Rightarrow> program = p | _ \<Rightarrow> False))"

definition child_document :: document where
  "child_document = Mapping [(''programs'', Seq
     [Mapping [(''name'', Scalar ''d''), (''path'', Scalar ''/d''), (''uid'', Scalar ''9''), (''default_env'', Scalar ''no'')]])]"

definition plain_world :: "int \<Rightarrow> platform" where
  "plain_world pid = example_platform (\<lambda>tr. plain_kernel pid) []"

abbreviation child_world :: platform where
  "child_world \<equiv> plain_world 0"

lemma child_check:
  "last_call_executes ''/d'' (calls (snd (main_scinit child_world (document_yaml child_document) sample_files sample_options 1)))"
  by code_simp

section \<open>A program that cannot be forked\<close>

text \<open>The same program in a world in which \<open>fork\<close> fails: one evaluation of the start and of the first attempt.\<close>

definition failing_boot :: "config option res \<times> sys" where
  "failing_boot = handle_commandline_invocation (plain_world (-1)) (document_yaml child_document) sample_files sample_options ProcessHandler"

definition failing_setup :: "unit res \<times> sys" where
  "failing_setup = setup_signal_handlers (plain_world (-1))
     (register_processes (get_processes (the (projr (fst failing_boot)))) (snd failing_boot))"

definition failing_start :: "unit res \<times> sys" where
  "failing_start = start_programs (plain_world (-1)) 1 (snd failing_setup)"

lemma failing_check:
  "succeeded (fst failing_boot) \<and> projr (fst failing_boot) \<noteq> None \<and> succeeded (fst failing_setup) \<and>
   succeeded (fst failing_start) \<and> list_ex (\<lambda>e. fst e = Sys_fork \<and> ret (snd e) = -1) (calls (snd failing_start))"
  by code_simp

lemma failing_reachable:
  obtains cfg s0 t r where
    "reachable (plain_world (-1)) (document_yaml child_document) sample_files sample_options cfg s0 t"
    and "(Sys_fork, r) \<in> set (calls t)" and "ret r = -1"
proof -
  let ?cfg = "the (projr (fst failing_boot))"
  have "failing_boot = (Inr (Some ?cfg), snd failing_boot)"
    using failing_check succeeded_projr [of "fst failing_boot"] by (metis option.collapse prod.collapse)
  moreover have su: "failing_setup = (Inr (), snd failing_setup)" and st: "failing_start = (Inr (), snd failing_start)"
    using failing_check succeeded_unit by blast+
  ultimately have run: "launched (plain_world (-1)) (document_yaml child_document) sample_files sample_options ?cfg (snd failing_boot)
      (snd failing_setup)"
    by (simp add: launched_def failing_boot_def [symmetric] failing_setup_def [symmetric])
  have "step (plain_world (-1)) (snd failing_setup) (snd failing_start)"
    by (rule step.start [of _ 1], subst failing_start_def [symmetric], rule st)
  with run have "reachable (plain_world (-1)) (document_yaml child_document) sample_files sample_options ?cfg (snd failing_boot)
      (snd failing_start)"
    by (auto simp: reachable_def)
  moreover obtain r where "(Sys_fork, r) \<in> set (calls (snd failing_start))" "ret r = -1"
    using failing_check by (auto simp: list_ex_iff)
  ultimately show thesis by (rule that)
qed

section \<open>A set-up that fails\<close>

definition refusing_world :: platform where
  "refusing_world = (sample_world 1)\<lparr>os := \<lambda>tr call. case call of
     Sys_sigprocmask_block sigs \<Rightarrow> ok_reply\<lparr>ret := -1\<rparr> | _ \<Rightarrow> sample_os 1 tr call\<rparr>"

definition idle_document :: document where
  "idle_document = Mapping [(''programs'', Seq [])]"

lemma refusing_fork: "fork_gives_fresh_pid refusing_world"
  using sample_fork [of 1] by (simp add: fork_gives_fresh_pid_def refusing_world_def sample_world_def)

lemma refusing_check:
  "isl (fst (main_scinit refusing_world (document_yaml idle_document) sample_files sample_options 1)) \<and>
   succeeded (fst (handle_commandline_invocation refusing_world (document_yaml idle_document) sample_files sample_options ProcessHandler)) \<and>
   map_option processes (projr (fst (handle_commandline_invocation refusing_world (document_yaml idle_document) sample_files
     sample_options ProcessHandler))) = Some []"
  by code_simp

section \<open>Two programs that wait for each other\<close>

definition ring_document :: document where
  "ring_document = Mapping [(''programs'', Seq
     [Mapping [(''name'', Scalar ''w''), (''path'', Scalar ''/w''), (''uid'', Scalar ''7''), (''default_env'', Scalar ''no''),
        (''after'', Seq [Scalar ''d''])],
      Mapping [(''name'', Scalar ''d''), (''path'', Scalar ''/d''), (''uid'', Scalar ''9''), (''default_env'', Scalar ''no''),
        (''after'', Seq [Scalar ''w''])]])]"

definition ring_program :: "string \<Rightarrow> string \<Rightarrow> child \<Rightarrow> bool" where
  "ring_program n other c \<longleftrightarrow> name c = n \<and> before c = [] \<and> after c = [other]"

lemma ring_check: "boot_check (boot 1 ring_document) (ring_program ''w'' ''d'') (ring_program ''d'' ''w'')"
  by code_simp

lemma ring_setup: "succeeded (fst (boot_setup 1 ring_document))"
  by code_simp

lemmas ring_facts = boot_facts [OF ring_check ring_setup]

lemma ring_reachable:
  "reachable sample_platform (document_yaml ring_document) sample_files sample_options (boot_config 1 ring_document)
     (snd (boot 1 ring_document)) (snd (boot_setup 1 ring_document))"
  using ring_facts(1) by (auto simp: reachable_def)

lemma ring_cycle:
  "a \<in> {0, 1} \<Longrightarrow> a \<notin> overtaken (objects (snd (boot 1 ring_document))) (processes (boot_config 1 ring_document)) \<and>
     (\<exists>b\<in>{0, 1}. (a, b) \<in> dependencies (snd (boot 1 ring_document)))"
proof -
  obtain a0 a1 where ob: "objects (snd (boot 1 ring_document)) = [0 \<mapsto> a0, 1 \<mapsto> a1]"
    and p: "ring_program ''w'' ''d'' a0" "ring_program ''d'' ''w'' a1"
    using ring_facts(5) by blast
  have "before_list (objects (snd (boot 1 ring_document))) q = []" for q
    using ob p by (auto simp: before_list_def ring_program_def split: option.splits)
  moreover assume "a \<in> {0, 1}"
  ultimately show ?thesis
    using ob p by (auto simp: ring_facts(2) dependencies_def ring_program_def)
qed

end
