(* ===== verification/Contracts.thy ===== *)
theory Contracts
  imports Event_Loop
begin

text \<open>
  From contracts of the operations to a contract of the event loop. What a client has to show is what one start of
  programs, one reaped child and one event do; the loops and the order of the parts of a pass are dealt with here.
\<close>

locale loop_contract =
  fixes P :: platform
    and I :: "sys \<Rightarrow> bool"
    and Q :: "stop \<Rightarrow> sys \<Rightarrow> bool"
  assumes starts: "upholds I Q (start_programs P n)"
    and waits: "I s \<Longrightarrow> sys_call P (Sys_epoll_wait fd k ms) s = (r, t) \<Longrightarrow> I t"
    and none_exits: "I s \<Longrightarrow> sys_call P Sys_waitpid s = (r, t) \<Longrightarrow> ret r \<le> 0 \<Longrightarrow> I t"
    and exits: "I s \<Longrightarrow> sys_call P Sys_waitpid s = (r, u) \<Longrightarrow> 0 < ret r \<Longrightarrow>
      sigchld_received (ret r) (out_num r) u = (res, t) \<Longrightarrow> (case res of Inl e \<Rightarrow> Q e t | Inr x \<Rightarrow> I t)"
    and events: "upholds I Q (event_received P fd ev)"
    and fuel: "I s \<Longrightarrow> Q No_fuel s"
begin

lemma reap_upholds: "upholds I Q (reap P n)"
proof (induction n)
  case 0
  show ?case by (rule upholdsI) (auto intro: fuel)
next
  case (Suc n)
  have after: "case res of Inl e \<Rightarrow> Q e t | Inr x \<Rightarrow> I t" if "I s" "reap P (Suc n) s = (res, t)" for s res t
  proof -
    obtain r u where w: "sys_call P Sys_waitpid s = (r, u)" by fastforce
    show ?thesis
    proof (cases "0 < ret r")
      case False
      with that w none_exits show ?thesis by auto
    next
      case True
      obtain res1 v where v: "sigchld_received (ret r) (out_num r) u = (res1, v)" by fastforce
      note after1 = exits [OF that(1) w True v]
      from that(2) w True v have "andThen (res1, v) (\<lambda>_. reap P n) = (res, t)" by simp
      with after1 show ?thesis
        using upholds_Inr [OF Suc] upholds_Inl [OF Suc] by (cases res1; cases res) auto
    qed
  qed
  then show ?case by (auto simp: upholds_def)
qed

lemma dispatch_upholds: "upholds I Q (dispatch_events P evs)"
proof -
  have "upholds I Q (\<lambda>s. event_received P fd ev s)" for fd ev by (rule events)
  then have "upholds I Q (case e of (fd, ev) \<Rightarrow> event_received P fd ev)" for e by (cases e) simp
  then show ?thesis unfolding dispatch_events_def by (rule upholds_for_each)
qed

lemma loop_end_upholds: "upholds I Q (loop_end P n)"
  unfolding loop_end_def by (intro upholds_rules starts)

lemma loop_pass_upholds: "upholds I Q (loop_pass P n)"
proof -
  let ?rest = "\<lambda>r s. andThen (reap P n s) (\<lambda>_ s.
      andThen (if 0 < ret r then dispatch_events P (take (nat (ret r)) (out_events r)) s else (Inr (), s)) (\<lambda>_ s. loop_end P n s))"
  have rest: "upholds I Q (?rest r)" for r
    by (intro upholds_rules reap_upholds dispatch_upholds loop_end_upholds)
  have "upholds I Q (\<lambda>s. let (r, s) = sys_call P (Sys_epoll_wait (epoll_fd s) MAX_EVENTS 1000) s in ?rest r s)"
    unfolding upholds_def
  proof (intro allI impI)
    fix s res t
    assume s: "I s"
    obtain r u where w: "sys_call P (Sys_epoll_wait (epoll_fd s) MAX_EVENTS 1000) s = (r, u)" by fastforce
    assume "(let (r, s) = sys_call P (Sys_epoll_wait (epoll_fd s) MAX_EVENTS 1000) s in ?rest r s) = (res, t)"
    then have "?rest r u = (res, t)" using w by simp
    with rest [of r] waits [OF s w] show "case res of Inl e \<Rightarrow> Q e t | Inr x \<Rightarrow> I t" unfolding upholds_def by blast
  qed
  then have "upholds I Q (\<lambda>s. andThen (start_programs P n s) (\<lambda>_ s.
      let (r, s) = sys_call P (Sys_epoll_wait (epoll_fd s) MAX_EVENTS 1000) s in ?rest r s))"
    by (intro upholds_rules starts)
  moreover have "loop_pass P n = (\<lambda>s. andThen (start_programs P n s) (\<lambda>_ s.
      let (r, s) = sys_call P (Sys_epoll_wait (epoll_fd s) MAX_EVENTS 1000) s in ?rest r s))"
    by (rule ext) (simp add: loop_pass_def Let_def)
  ultimately show ?thesis by simp
qed

lemma event_loop_upholds: "upholds I Q (event_loop P n)"
proof (induction n)
  case 0
  show ?case by (rule upholdsI) (auto intro: fuel)
next
  case (Suc n)
  have "upholds I Q (\<lambda>s. case result of Some rc \<Rightarrow> (Inr rc, s) | None \<Rightarrow> event_loop P n s)" for result
    using Suc upholds_return by (cases result) simp_all
  then have "upholds I Q (\<lambda>s. andThen (loop_pass P n s) (\<lambda>result s. case result of Some rc \<Rightarrow> (Inr rc, s) | None \<Rightarrow> event_loop P n s))"
    by (intro upholds_rules loop_pass_upholds)
  moreover have "event_loop P (Suc n) = (\<lambda>s. andThen (loop_pass P n s) (\<lambda>result s.
      case result of Some rc \<Rightarrow> (Inr rc, s) | None \<Rightarrow> event_loop P n s))"
    by (simp add: fun_eq_iff)
  ultimately show ?case by simp
qed

lemma enter_upholds: "upholds I Q (setup_signal_handlers P) \<Longrightarrow> upholds I Q (enter_eventloop P n)"
  unfolding enter_eventloop_def by (intro upholds_rules starts event_loop_upholds)

end

end
