(* ===== verification/Execution.thy ===== *)
theory Execution
  imports Guarantees Contracts
begin

text \<open>
  What scinit executes, whatever the kernel replies: only programs of the configuration, with their own arguments and
  environment, after the privileges have been dropped. This is a contract that every operation fulfils, with rules for
  its composition, so that it holds for the whole of \<open>main\<close>.
\<close>

section \<open>The contract\<close>

definition no_exec :: "trace \<Rightarrow> bool" where
  "no_exec tr \<longleftrightarrow> (\<forall>program av envp r. (Sys_execvpe program av envp, r) \<notin> set tr)"

lemma no_exec_Nil [simp]: "no_exec []"
  by (simp add: no_exec_def)

lemma no_exec_Cons [simp]: "no_exec ((call, r) # tr) \<longleftrightarrow> (\<forall>program av envp. call \<noteq> Sys_execvpe program av envp) \<and> no_exec tr"
  by (auto simp: no_exec_def)

lemma no_exec_quiet: "quiet_ext tr tr' \<Longrightarrow> no_exec tr \<Longrightarrow> no_exec tr'"
  using quiet_no_exec by (fastforce simp: quiet_ext_def no_exec_def)

lemma no_exec_suffix: "suffix tr tr' \<Longrightarrow> no_exec tr' \<Longrightarrow> no_exec tr"
  by (auto simp: suffix_def no_exec_def)

type_synonym settings_map = "ref \<rightharpoonup> child_settings"

definition settings_of :: "store \<Rightarrow> settings_map" where
  "settings_of h = (\<lambda>q. map_option settings (h q))"

text \<open>Nothing has been executed, and the settings are those of the configuration.\<close>

definition untouched :: "settings_map \<Rightarrow> sys \<Rightarrow> bool" where
  "untouched S s \<longleftrightarrow> no_exec (calls s) \<and> settings_of (objects s) = S"

text \<open>The last call, and no other, is the execution of a program of the configuration, in a process that has dropped its privileges.\<close>

definition executed :: "platform \<Rightarrow> settings_map \<Rightarrow> sys \<Rightarrow> bool" where
  "executed P S t \<longleftrightarrow> (\<exists>q c envp r rf before_fork tr.
     S q = Some (settings c) \<and> handle_env P c = Inr envp \<and> calls t = (Sys_execvpe (c_string (path c)) (argv c) (map c_string envp), r) # tr \<and> no_exec tr \<and>
     suffix ((Sys_fork, rf) # before_fork) tr \<and> ret rf = 0 \<and> dropped_to c ((Sys_fork, rf) # before_fork) tr)"

text \<open>How an operation may stop: before anything has been executed, or for good.\<close>

definition stopped :: "platform \<Rightarrow> settings_map \<Rightarrow> stop \<Rightarrow> sys \<Rightarrow> bool" where
  "stopped P S e t \<longleftrightarrow> untouched S t \<or> (executed P S t \<and> (\<forall>x. e \<noteq> Throw x))"

abbreviation confined :: "platform \<Rightarrow> settings_map \<Rightarrow> (sys \<Rightarrow> 'a res \<times> sys) \<Rightarrow> bool" where
  "confined P S \<equiv> upholds (untouched S) (stopped P S)"

definition final :: "'a res \<Rightarrow> bool" where
  "final res \<longleftrightarrow> (case res of Inl e \<Rightarrow> (\<forall>x. e \<noteq> Throw x) | Inr x \<Rightarrow> False)"

lemma confined_iff:
  "confined P S f \<longleftrightarrow> (\<forall>s res t. untouched S s \<longrightarrow> f s = (res, t) \<longrightarrow> untouched S t \<or> (executed P S t \<and> final res))"
  unfolding upholds_def by (intro iff_allI imp_cong refl) (auto simp: stopped_def final_def split: sum.split)

lemma confined_harmless:
  assumes "\<And>s res t. f s = (res, t) \<Longrightarrow> no_exec (calls s) \<Longrightarrow> no_exec (calls t) \<and> settings_of (objects t) = settings_of (objects s)"
  shows "confined P S f"
  using assms by (auto simp: confined_iff untouched_def)

lemma bystander_harmless: "bystander s t \<Longrightarrow> no_exec (calls s) \<Longrightarrow> no_exec (calls t) \<and> settings_of (objects t) = settings_of (objects s)"
  by (auto simp: bystander_def no_exec_quiet)

section \<open>Starting a program\<close>

lemma settings_cong:
  assumes "settings c' = settings c"
  shows "handle_env P c' = handle_env P c" and "dropped_to c' = dropped_to c" and "path c' = path c" and "argv c' = argv c"
  using assms by (auto simp: settings_def argv_def intro: handle_env_cong dropped_to_cong)

lemma do_fork_settings:
  assumes "do_fork P n (c, reg, tr) = (res, (c', reg', tr'))"
  shows "settings c' = settings c"
proof -
  obtain res1 c1 tr1 where op: "open_channels P n (c, tr) = (res1, (c1, tr1))"
    by (metis prod.exhaust)
  have "same_but_channels c c1" using open_channels_outcome [OF op] by simp
  then have "settings c1 = settings c" by (simp add: settings_def same_but_channels_fields)
  with assms op show ?thesis
    by (auto simp: do_fork_def fail_def Let_def split: if_splits sum.splits prod.splits)
qed

text \<open>If the program is executed, or the attempt fails, the process that did it does not return.\<close>

lemma do_fork_executes:
  assumes run: "do_fork P n (c, reg, tr) = (res, (c', reg', tr'))" and none: "no_exec tr"
  shows "no_exec tr' \<or> (final res \<and> (\<exists>envp r rf before_fork tr2.
     handle_env P c = Inr envp \<and> tr' = (Sys_execvpe (c_string (path c)) (argv c) (map c_string envp), r) # tr2 \<and> no_exec tr2 \<and>
     suffix ((Sys_fork, rf) # before_fork) tr2 \<and> ret rf = 0 \<and> dropped_to c ((Sys_fork, rf) # before_fork) tr2))"
proof -
  have fin: "final res" if "\<not> no_exec tr'"
  proof (cases res)
    case (Inl e)
    have "e \<noteq> Throw x" for x
    proof
      assume "e = Throw x"
      from do_fork_Throw [OF run [unfolded Inl this]] have "quiet_ext tr tr'" by simp
      with that none no_exec_quiet show False by blast
    qed
    with Inl show ?thesis by (simp add: final_def)
  next
    case (Inr u)
    then have ok: "res = Inr ()" by simp
    obtain tr1 r where "quiet_ext tr tr1" "quiet_ext ((Sys_fork, r) # tr1) tr'"
    proof (rule do_fork_Inr [OF run [unfolded ok]])
      fix c1 tr1 environment r
      assume "open_channels P n (c, tr) = (Inr (), (c1, tr1))" "quiet_ext ((Sys_fork, r) # tr1) tr'"
      with open_channels_outcome that show thesis by blast
    qed
    with none have "no_exec tr'" by (metis no_exec_Cons no_exec_quiet oscall.distinct)
    with that show ?thesis by simp
  qed
  from do_fork_exec [OF run] consider (quiet) "quiet_ext tr tr'"
    | (parent) tr1 r where "quiet_ext tr tr1" "quiet_ext ((Sys_fork, r) # tr1) tr'"
    | (child) tr1 rf environment tr2 r2 where "quiet_ext tr tr1" "ret rf = 0" "handle_env P c = Inr environment"
        "tr' = (Sys_execvpe (c_string (path c)) (argv c) (map c_string environment), r2) # tr2"
        "quiet_ext ((Sys_fork, rf) # tr1) tr2" "dropped_to c ((Sys_fork, rf) # tr1) tr2"
    by auto
  then show ?thesis
  proof cases
    case quiet
    with none no_exec_quiet show ?thesis by blast
  next
    case parent
    have "no_exec tr1" by (rule no_exec_quiet [OF parent(1) none])
    then have "no_exec ((Sys_fork, r) # tr1)" by simp
    with no_exec_quiet [OF parent(2)] show ?thesis by blast
  next
    case child
    have "no_exec tr1" by (rule no_exec_quiet [OF child(1) none])
    then have "no_exec ((Sys_fork, rf) # tr1)" by simp
    from no_exec_quiet [OF child(5) this] have n2: "no_exec tr2" .
    have "\<not> no_exec tr'" by (simp add: child(4))
    with fin child n2 quiet_ext_suffix [OF child(5)] show ?thesis by blast
  qed
qed

lemma settings_of_update: "objects s r = Some c \<Longrightarrow> settings c' = settings c \<Longrightarrow>
    settings_of ((objects s)(r \<mapsto> c')) = settings_of (objects s)"
  by (auto simp: settings_of_def)

lemma untouched_update:
  assumes "untouched S s" and "objects s r = Some c" and "settings c' = settings c"
    and "objects t = (objects s)(r \<mapsto> c')" and "no_exec (calls t)"
  shows "untouched S t"
  using assms settings_of_update [of s r c c'] by (simp add: untouched_def)

lemma try_start_confined:
  assumes s: "untouched S s" and c: "objects s r = Some c" and run: "try_start P n r c s = (res, t)"
  shows "untouched S t \<or> (executed P S t \<and> final res)"
proof -
  define lg where "lg = os P (calls s) (Log_create (get_name c))"
  define tr0 where "tr0 = (Log_create (get_name c), lg) # calls s"
  have sc: "sys_call P (Log_create (get_name c)) s = (lg, s\<lparr>calls := tr0\<rparr>)"
    by (simp add: sys_call_def lg_def tr0_def)
  have none: "no_exec tr0" using s by (simp add: tr0_def untouched_def)
  obtain res1 c' reg tr where df: "do_fork P n (c, id_for_pid s, tr0) = (res1, (c', reg, tr))"
    by (metis prod.exhaust)
  obtain res2 m types tr2 where rg:
    "register_with_epoll P (epoll_fd s) c' (id_for_fd s, fd_type s, tr) = (res2, (m, types, tr2))"
    by (metis prod.exhaust)
  have st: "settings c' = settings c" by (rule do_fork_settings [OF df])
  have q: "quiet_ext tr tr2" using register_with_epoll_outcome [OF rg] by simp
  show ?thesis
  proof (cases "ret lg = 0")
    case False
    then have "objects t = objects s" "calls t = tr0" using run by (auto simp: try_start_def sc Let_def)
    with s none show ?thesis by (simp add: untouched_def)
  next
    case True
    have ob: "objects t = (objects s)(r \<mapsto> c')" and tr: "(case res1 of Inl e \<Rightarrow> calls t = tr \<and> res = Inl e | Inr u \<Rightarrow> calls t = tr2)"
      using run True unfolding try_start_def sc Let_def prod.case by (auto simp: df rg split: sum.splits)
    show ?thesis
    proof (cases "no_exec tr")
      case True
      then have "no_exec (calls t)" using tr no_exec_quiet [OF q] by (auto split: sum.splits)
      with untouched_update [OF s c st ob] show ?thesis by blast
    next
      case False
      with do_fork_executes [OF df none] obtain envp r' rf before_fork tr3 where fin: "final res1"
        and x: "handle_env P c = Inr envp" "tr = (Sys_execvpe (c_string (path c)) (argv c) (map c_string envp), r') # tr3" "no_exec tr3"
          "suffix ((Sys_fork, rf) # before_fork) tr3" "ret rf = 0" "dropped_to c ((Sys_fork, rf) # before_fork) tr3"
        by blast
      from fin tr have "calls t = tr" "final res" by (auto simp: final_def split: sum.splits)
      moreover have "S r = Some (settings c)" using s c by (auto simp: untouched_def settings_of_def)
      ultimately show ?thesis using x unfolding executed_def by blast
    qed
  qed
qed

lemma start_program_confined: "confined P S (start_program P n w)"
  unfolding confined_iff
proof (intro allI impI)
  fix s res t
  assume s: "untouched S s" and run: "start_program P n w s = (res, t)"
  show "untouched S t \<or> (executed P S t \<and> final res)"
  proof (cases "\<exists>r c. lock (objects s) w = Some (r, c) \<and> can_start_now c")
    case False
    then have "t = s" using run by (auto simp: start_program_def split: option.splits if_splits)
    with s show ?thesis by simp
  next
    case True
    then obtain r c where w: "lock (objects s) w = Some (r, c)" "can_start_now c" by blast
    then have c: "objects s r = Some c" by (simp add: lock_Some_iff)
    obtain res1 u where ts: "try_start P n r c s = (res1, u)" by fastforce
    with w run have "catch_std (res1, u) = (res, t)" by (simp add: start_program_def)
    then have "u = t" "final res1 \<Longrightarrow> res = res1"
      by (auto simp: catch_std_def final_def split: sum.splits stop.splits if_splits)
    with try_start_confined [OF s c ts] show ?thesis by auto
  qed
qed

section \<open>The other operations\<close>

lemma sys_call_harmless:
  "sys_call P call s = (r, t) \<Longrightarrow> no_exec (calls s) \<Longrightarrow> (\<And>program av envp. call \<noteq> Sys_execvpe program av envp) \<Longrightarrow>
   no_exec (calls t) \<and> objects t = objects s"
  by (auto simp: sys_call_def)

lemma notify_one_harmless: "calls (notify_one w s) = calls s \<and> settings_of (objects (notify_one w s)) = settings_of (objects s)"
  by (auto simp: notify_one_objects lock_Some_iff settings_of_update split: option.splits)

lemma start_programs_confined: "confined P S (start_programs P n)"
  unfolding confined_iff
proof (intro allI impI)
  fix s res t
  assume s: "untouched S s" and run: "start_programs P n s = (res, t)"
  have keep: "calls (fold notify_one ws s) = calls s \<and> settings_of (objects (fold notify_one ws s)) = settings_of (objects s)" for ws
    by (induction ws arbitrary: s) (simp_all add: notify_one_harmless)
  have "untouched S (fold notify_one (all_objs s) s)" using s keep by (simp add: untouched_def)
  moreover have "for_each (start_program P n) (all_objs s) (fold notify_one (all_objs s) s) = (res, t)"
    using run by (simp add: start_programs_def Let_def)
  moreover have "confined P S (for_each (start_program P n) (all_objs s))" by (intro upholds_rules start_program_confined)
  ultimately show "untouched S t \<or> (executed P S t \<and> final res)" unfolding confined_iff by blast
qed

lemma sigchld_received_confined: "confined P S (sigchld_received pid rc)"
proof (rule confined_harmless)
  fix s res t
  assume run: "sigchld_received pid rc s = (res, t)" and none: "no_exec (calls s)"
  have loop: "settings_of (objects t) = settings_of (objects s)" if "for_each (emit_to EXIT rc) slots s = (res, t)" for slots s res t
    using that
    by (rule for_each_invariant [where P = "\<lambda>t. settings_of (objects t) = settings_of (objects s)", rotated 2])
      (auto simp: emit_to_def settings_of_update split: option.splits)
  have "settings_of (objects t) = settings_of (objects s)"
    using run by (auto simp: sigchld_received_def Let_def split: option.splits elim!: andThen_cases dest!: loop)
  with none show "no_exec (calls t) \<and> settings_of (objects t) = settings_of (objects s)"
    using sigchld_received_frame [OF run] by simp
qed

lemma event_received_confined: "confined P S (event_received P fd ev)"
  by (rule confined_harmless) (auto dest!: event_received_bystander dest: bystander_harmless)

lemma setup_signal_handlers_confined: "confined P S (setup_signal_handlers P)"
  by (rule confined_harmless)
    (auto simp: setup_signal_handlers_def sys_call_def throw_handler_def Let_def split: if_splits)

section \<open>The whole program\<close>

interpretation exec: loop_contract P "untouched S" "stopped P S" for P S
proof
  have call: "untouched S t" if "untouched S s" "sys_call P call s = (r, t)" "\<And>program av envp. call \<noteq> Sys_execvpe program av envp"
    for s t call r
    using that sys_call_harmless [OF that(2)] by (simp add: untouched_def)
  show "upholds (untouched S) (stopped P S) (start_programs P n)" for n by (rule start_programs_confined)
  show "upholds (untouched S) (stopped P S) (event_received P fd ev)" for fd ev by (rule event_received_confined)
  show "untouched S t" if "untouched S s" "sys_call P (Sys_epoll_wait fd k ms) s = (r, t)" for s fd k ms r t
    using call [OF that] by simp
  show "untouched S t" if "untouched S s" "sys_call P Sys_waitpid s = (r, t)" for s r t
    using call [OF that] by simp
  show "case res of Inl e \<Rightarrow> stopped P S e t | Inr x \<Rightarrow> untouched S t"
    if "untouched S s" "sys_call P Sys_waitpid s = (r, u)" "0 < ret r" "sigchld_received (ret r) (out_num r) u = (res, t)"
    for s r u res t
  proof -
    have "untouched S u" using call [OF that(1,2)] by simp
    with sigchld_received_confined [where P = P and S = S and pid = "ret r" and rc = "out_num r"] that(4) show ?thesis unfolding upholds_def by blast
  qed
  show "stopped P S No_fuel s" if "untouched S s" for s using that by (simp add: stopped_def)
qed

lemma handle_commandline_quiet:
  assumes "handle_commandline_invocation P Y F options ProcessHandler = (res, s)"
  shows "quiet_ext [] (calls s)"
proof -
  obtain lg u where u: "sys_call P (Log_create ''scinit'') ProcessHandler = (lg, u)" by fastforce
  have cu: "configured (empty_config, u)"
    by (rule sys_call_configured [OF configured_start _ u]) (simp add: quiet_call_def)
  have quiet: "quiet_ext [] (calls s)" if "configured (cfg, s)" for cfg s
    using that by (simp add: configured_def)
  have "quiet_ext [] (calls u)" by (rule quiet [OF cu])
  moreover have "quiet_ext [] (calls ProcessHandler)" by (rule quiet [OF configured_start])
  ultimately show ?thesis
    using assms cu
    by (auto simp: handle_commandline_invocation_def u Let_def split: if_splits sum.splits prod.splits
        dest!: Config_files_configured Config_path_configured intro: quiet)
qed

lemma register_settings: "settings_of (objects (register_processes refs s)) = settings_of (objects s)"
proof -
  have "map_option static (fold (register_one refs) refs (objects s) q) = map_option static (objects s q)" for q
    by (rule reg.fold_keeps)
  moreover have "settings_of h = (\<lambda>q. map_option (\<lambda>x. snd (snd (snd x))) (map_option static (h q)))" for h
    by (simp add: settings_of_def option.map_comp comp_def static_def)
  ultimately show ?thesis by simp
qed

lemma main_executes:
  assumes run: "main_scinit P Y F opts n = (res, t)"
  shows "no_exec (calls t) \<or> (\<exists>cfg s0. handle_commandline_invocation P Y F opts ProcessHandler = (Inr (Some cfg), s0) \<and>
    executed P (settings_of (objects s0)) t)"
proof -
  obtain conf s0 where boot: "handle_commandline_invocation P Y F opts ProcessHandler = (conf, s0)" by fastforce
  have none: "no_exec (calls s0)" by (rule no_exec_quiet [OF handle_commandline_quiet [OF boot]]) simp
  show ?thesis
  proof (cases "\<exists>cfg. conf = Inr (Some cfg)")
    case False
    then have "t = s0" using run boot by (cases conf) (auto simp: main_scinit_def split: option.splits)
    with none show ?thesis by simp
  next
    case True
    then obtain cfg where cfg: "conf = Inr (Some cfg)" by blast
    let ?s1 = "register_processes (get_processes cfg) s0"
    have "enter_eventloop P n ?s1 = (res, t)" using run by (simp add: main_scinit_def boot cfg Let_def)
    moreover have "untouched (settings_of (objects s0)) ?s1"
      using none by (simp add: untouched_def register_settings del: register_processes_simps(1))
    ultimately show ?thesis
      using exec.enter_upholds [OF setup_signal_handlers_confined, of "settings_of (objects s0)" P n] boot cfg unfolding confined_iff untouched_def by blast
  qed
qed

end
