(* ===== verification/Accounting.thy ===== *)
theory Accounting
  imports Guarantees
begin

text \<open>
  What the counter of running processes is worth when nothing is assumed about the kernel, not even that \<open>fork\<close> succeeds
  or returns new numbers: it never falls below the number of children that are still to be waited for, and a failed \<open>fork\<close>
  counts as a child for ever.
\<close>

section \<open>The invariant\<close>

text \<open>A number in the table of process ids is a child that can still be waited for, or what a failed \<open>fork\<close> returned.\<close>

definition own_pid :: "trace \<Rightarrow> int \<Rightarrow> bool" where
  "own_pid tr pid \<longleftrightarrow> 0 < pid \<and> pid \<in> outstanding tr \<or> pid < 0 \<and> (\<exists>r. (Sys_fork, r) \<in> set tr \<and> ret r = pid)"

definition accounted :: "sys \<Rightarrow> bool" where
  "accounted s \<longleftrightarrow>
     omap_ok (id_for_pid s) \<and> int (length (id_for_pid s)) \<le> number_of_running_procs s \<and>
     (\<forall>pid\<in>outstanding (calls s). omap_find (id_for_pid s) pid \<noteq> None) \<and>
     (\<forall>r. (Sys_fork, r) \<in> set (calls s) \<longrightarrow> ret r \<le> 0 \<longrightarrow> omap_find (id_for_pid s) (ret r) \<noteq> None) \<and>
     (\<forall>pid. omap_find (id_for_pid s) pid \<noteq> None \<longrightarrow> own_pid (calls s) pid)"

lemma own_pid_waited: "own_pid tr pid \<Longrightarrow> (0 < ret r \<Longrightarrow> pid \<noteq> ret r) \<Longrightarrow> own_pid ((Sys_waitpid, r) # tr) pid"
  by (auto simp: own_pid_def)

lemma accounted_positive: "accounted s \<Longrightarrow> omap_find (id_for_pid s) pid \<noteq> None \<Longrightarrow> 0 < number_of_running_procs s"
  by (cases "id_for_pid s") (auto simp: accounted_def)

lemma accounted_zero:
  assumes "accounted s" and "number_of_running_procs s = 0"
  shows "outstanding (calls s) = {} \<and> (\<forall>r. (Sys_fork, r) \<in> set (calls s) \<longrightarrow> 0 < ret r)"
proof -
  have "omap_find (id_for_pid s) pid = None" for pid
    using accounted_positive [OF assms(1), of pid] assms(2) by (cases "omap_find (id_for_pid s) pid") simp_all
  with assms(1) show ?thesis by (force simp: accounted_def)
qed

lemma quiet_forks: "quiet_ext tr tr' \<Longrightarrow> (Sys_fork, r) \<in> set tr' \<longleftrightarrow> (Sys_fork, r) \<in> set tr"
  by (fastforce simp: quiet_ext_def quiet_call_def)

lemma accounted_quiet:
  assumes "accounted s" and "id_for_pid t = id_for_pid s" and "number_of_running_procs t = number_of_running_procs s"
    and q: "quiet_ext (calls s) (calls t)"
  shows "accounted t"
  using assms(1-3) outstanding_quiet [OF q] quiet_forks [OF q] by (simp add: accounted_def own_pid_def)

lemma accounted_bystander: "accounted s \<Longrightarrow> bystander s t \<Longrightarrow> accounted t"
  using accounted_quiet [of s t] unfolding bystander_def by blast

lemma omap_size_insert_le: "length (omap_insert k v m) \<le> Suc (length m)"
  by (induction k v m rule: omap_insert.induct) auto

section \<open>Every operation keeps it\<close>

lemma notify_all_accounted:
  assumes "accounted s"
  shows "accounted (fold notify_one ws s)"
proof -
  have "id_for_pid (fold notify_one ws s) = id_for_pid s \<and> calls (fold notify_one ws s) = calls s \<and>
      number_of_running_procs (fold notify_one ws s) = number_of_running_procs s"
    by (induction ws arbitrary: s) simp_all
  with assms show ?thesis by (intro accounted_quiet [OF assms]) simp_all
qed

lemma start_program_accounted:
  assumes ok: "accounted s" and run: "start_program P n w s = (Inr (), t)"
  shows "accounted t"
  using run
proof (cases rule: start_program_cases)
  case skipped
  with ok show ?thesis by simp
next
  case (started r c)
  obtain tr1 and c' :: child where q1: "quiet_ext (calls s) tr1" and pid: "primaryPid c' = ret (os P tr1 Sys_fork)"
    and q2: "quiet_ext ((Sys_fork, os P tr1 Sys_fork) # tr1) (calls t)"
    and out: "outstanding (calls t) = insert (primaryPid c') (outstanding (calls s))"
    and ids: "id_for_pid t = omap_insert (primaryPid c') (graph_id c) (id_for_pid s)"
    and num: "number_of_running_procs t = number_of_running_procs s + 1" and nz: "primaryPid c' \<noteq> 0"
    by (rule try_start_Inr [OF started(3)]) (rule that)
  have forks: "(Sys_fork, r') \<in> set (calls t)" if "r' = os P tr1 Sys_fork \<or> (Sys_fork, r') \<in> set (calls s)" for r'
    using that quiet_forks [OF q2] quiet_forks [OF q1] by auto
  have "int (length (id_for_pid t)) \<le> number_of_running_procs t"
    using ok omap_size_insert_le [of "primaryPid c'" "graph_id c" "id_for_pid s"] by (simp add: accounted_def ids num)
  moreover have "omap_find (id_for_pid t) (ret r') \<noteq> None" if "(Sys_fork, r') \<in> set (calls t)" "ret r' \<le> 0" for r'
  proof -
    have "r' = os P tr1 Sys_fork \<or> (Sys_fork, r') \<in> set (calls s)"
      using that(1) quiet_forks [OF q2] quiet_forks [OF q1] by auto
    then show ?thesis using ok that(2) by (auto simp: accounted_def ids pid)
  qed
  moreover have "omap_find (id_for_pid t) p \<noteq> None" if "p \<in> outstanding (calls t)" for p
    using ok that by (auto simp: accounted_def ids out)
  moreover have "omap_ok (id_for_pid t)" using ok by (simp add: accounted_def ids)
  moreover have "own_pid (calls t) p" if "omap_find (id_for_pid t) p \<noteq> None" for p
  proof (cases "p = primaryPid c'")
    case True
    with nz show ?thesis using forks [of "os P tr1 Sys_fork"] pid out by (force simp: own_pid_def)
  next
    case False
    with that ok have "own_pid (calls s) p" by (simp add: accounted_def ids)
    with forks out show ?thesis by (auto simp: own_pid_def)
  qed
  ultimately show ?thesis unfolding accounted_def by blast
next
  case (caught r c x)
  from try_start_caught [OF caught(3,4,1)] show ?thesis
    using accounted_quiet [OF ok] by metis
qed

lemma start_programs_accounted:
  assumes ok: "accounted s" and run: "start_programs P n s = (Inr (), t)"
  shows "accounted t"
proof -
  let ?u = "fold notify_one (all_objs s) s"
  have loop: "for_each (start_program P n) (all_objs s) ?u = (Inr (), t)"
    using run by (simp add: start_programs_def Let_def)
  show ?thesis
    by (rule for_each_invariant_Inr [where P = accounted, OF _ notify_all_accounted [OF ok] loop])
      (rule start_program_accounted)
qed

lemma sigchld_received_table:
  assumes run: "sigchld_received pid rc s = (Inr (), t)"
  shows "calls t = calls s" and "omap_find (id_for_pid s) pid = None \<Longrightarrow> t = s"
    and "omap_find (id_for_pid s) pid \<noteq> None \<Longrightarrow>
      id_for_pid t = omap_erase pid (id_for_pid s) \<and> number_of_running_procs t = number_of_running_procs s - 1"
proof -
  show "calls t = calls s" using sigchld_received_frame [OF run] by simp
  show "t = s" if "omap_find (id_for_pid s) pid = None" using run that by (simp add: sigchld_received_def)
  have loop: "id_for_pid v = id_for_pid u \<and> number_of_running_procs v = number_of_running_procs u"
    if "for_each (emit_to EXIT rc) slots u = (res, v)" for slots u res v
    using that
    by (rule for_each_invariant [where P = "\<lambda>v. id_for_pid v = id_for_pid u \<and> number_of_running_procs v = number_of_running_procs u",
          rotated 2]) (auto simp: emit_to_def split: option.splits)
  show "id_for_pid t = omap_erase pid (id_for_pid s) \<and> number_of_running_procs t = number_of_running_procs s - 1"
    if "omap_find (id_for_pid s) pid \<noteq> None"
    using run that by (auto simp: sigchld_received_def Let_def andThen_Inr_iff split: option.splits dest!: loop)
qed

lemma reaped_accounted:
  assumes ok: "accounted s" and w: "sys_call P Sys_waitpid s = (r, u)" and pos: "0 < ret r"
    and run: "sigchld_received (ret r) rc u = (Inr (), t)"
  shows "accounted t"
proof -
  have u: "u = s\<lparr>calls := (Sys_waitpid, r) # calls s\<rparr>" using w by (auto simp: sys_call_def)
  note t = sigchld_received_table [OF run]
  show ?thesis
  proof (cases "omap_find (id_for_pid u) (ret r) = None")
    case True
    with t(2) ok show ?thesis by (auto simp: accounted_def u intro!: own_pid_waited)
  next
    case False
    with t(3) have ids: "id_for_pid t = omap_erase (ret r) (id_for_pid s)"
      and num: "number_of_running_procs t = number_of_running_procs s - 1" by (simp_all add: u)
    have "Suc (length (omap_erase (ret r) (id_for_pid s))) = length (id_for_pid s)"
      using ok False by (intro omap_size_erase) (auto simp: accounted_def u)
    then have "int (length (id_for_pid t)) \<le> number_of_running_procs t"
      using ok unfolding accounted_def ids num by linarith
    then show ?thesis using ok pos t(1) by (auto simp: accounted_def ids u intro!: own_pid_waited split: if_splits)
  qed
qed

lemma step_accounted:
  assumes "step P s t" and ok: "accounted s"
  shows "accounted t"
  using assms(1)
proof cases
  case (start n)
  then show ?thesis by (rule start_programs_accounted [OF ok])
next
  case (exited rp u)
  then show ?thesis by (rule reaped_accounted [OF ok])
next
  case (none_exited rp)
  then have "t = s\<lparr>calls := (Sys_waitpid, rp) # calls s\<rparr>" by (auto simp: sys_call_def)
  with ok none_exited show ?thesis by (auto simp: accounted_def intro!: own_pid_waited)
next
  case (wait fd k ms rp)
  then have "t = s\<lparr>calls := (Sys_epoll_wait fd k ms, rp) # calls s\<rparr>" by (auto simp: sys_call_def)
  with ok show ?thesis by (intro accounted_quiet [OF ok]) (simp_all add: quiet_rules)
next
  case (event fd ev)
  then show ?thesis using accounted_bystander [OF ok] event_received_bystander by blast
qed

interpretation book: preserved "step P" accounted "\<lambda>s t. True" for P
  using step_accounted by unfold_locales auto

section \<open>Runs\<close>

lemma launched_accounted:
  assumes "launched P Y F opts cfg s0 s"
  shows "accounted s"
proof -
  have boot: "handle_commandline_invocation P Y F opts ProcessHandler = (Inr (Some cfg), s0)"
    and su: "setup_signal_handlers P (register_processes (get_processes cfg) s0) = (Inr (), s)"
    using assms by (simp_all add: launched_def)
  have "quiet_ext [] (calls s0)" "id_for_pid s0 = []" "number_of_running_procs s0 = 0"
    using handle_commandline_configured [OF boot] by (simp_all add: configured_def)
  then have "accounted (register_processes (get_processes cfg) s0)"
    using outstanding_quiet [of "[]"] quiet_forks [of "[]"] by (simp add: accounted_def)
  then show ?thesis using setup_bystander [OF su] by (rule accounted_bystander)
qed

lemma reachable_accounted:
  assumes "reachable P Y F opts cfg s0 t"
  shows "accounted t"
proof -
  from assms obtain s where "launched P Y F opts cfg s0 s" and "(step P)\<^sup>*\<^sup>* s t" by (auto simp: reachable_def)
  with book.run_inv launched_accounted show ?thesis by blast
qed

end
