(* ===== verification/Control.thy ===== *)
theory Control
  imports Guarantees Contracts
begin

text \<open>
  How the supervision can stop. Once the configuration has been read, scinit itself neither calls \<open>exit\<close> nor is replaced by
  a program, and its behaviour is defined, as long as \<open>fork\<close> works and the loggers it looks up exist: it stops with an
  exception or not at all.
\<close>

definition permitted :: "stop \<Rightarrow> sys \<Rightarrow> bool" where
  "permitted e t \<longleftrightarrow>
     (case e of
        Throw x \<Rightarrow> True
      | No_fuel \<Rightarrow> True
      | Undefined_behaviour x \<Rightarrow> (\<exists>nm r tr. calls t = (Log_get nm, r) # tr \<and> ret r = 0)
      | Exit_process n \<Rightarrow> False
      | Image_replaced \<Rightarrow> False)"

lemma permitted_simps [simp]: "permitted (Throw x) t" "permitted No_fuel t"
  by (simp_all add: permitted_def)

section \<open>The operations\<close>

lemma do_fork_stops:
  assumes "do_fork P n (c, reg, tr) = (Inl e, (c', reg', tr'))" and "fork_gives_fresh_pid P"
  shows "permitted e t"
proof -
  obtain res1 c1 tr1 where op: "open_channels P n (c, tr) = (res1, (c1, tr1))"
    by (metis prod.exhaust)
  have "ret (os P tr1 Sys_fork) \<noteq> 0" using assms(2) by (simp add: fork_gives_fresh_pid_def less_imp_neq [symmetric])
  moreover have "\<forall>e. res1 = Inl e \<longrightarrow> permitted e t" using open_channels_outcome [OF op] by auto
  ultimately show ?thesis
    using assms(1) op by (auto simp: do_fork_def fail_def Let_def syscall_def split: if_splits sum.splits)
qed

lemma start_program_stops:
  assumes run: "start_program P n w s = (Inl e, t)" and fork: "fork_gives_fresh_pid P"
  shows "permitted e t"
proof -
  obtain r c where w: "lock (objects s) w = Some (r, c)" "can_start_now c"
    using run by (auto simp: start_program_def split: option.splits if_splits)
  define lg where "lg = os P (calls s) (Log_create (get_name c))"
  define tr0 where "tr0 = (Log_create (get_name c), lg) # calls s"
  have sc: "sys_call P (Log_create (get_name c)) s = (lg, s\<lparr>calls := tr0\<rparr>)"
    by (simp add: sys_call_def lg_def tr0_def)
  obtain res1 c' reg tr where df: "do_fork P n (c, id_for_pid s, tr0) = (res1, (c', reg, tr))"
    by (metis prod.exhaust)
  obtain res2 m types tr2 where rg:
    "register_with_epoll P (epoll_fd s) c' (id_for_fd s, fd_type s, tr) = (res2, (m, types, tr2))"
    by (metis prod.exhaust)
  have 1: "permitted e t" if "res1 = Inl e" for e using do_fork_stops [OF df [unfolded that] fork] .
  have 2: "permitted e t" if "res2 = Inl e" for e using register_with_epoll_outcome [OF rg] that by auto
  obtain res u where ts: "try_start P n r c s = (res, u)" by fastforce
  have "permitted e' t" if "res = Inl e'" for e'
    using ts that 1 2 unfolding try_start_def sc Let_def prod.case by (auto simp: df rg split: if_splits sum.splits)
  moreover have "catch_std (res, u) = (Inl e, t)" using run w ts by (simp add: start_program_def)
  ultimately show ?thesis by (auto simp: catch_std_def split: sum.splits stop.splits if_splits)
qed

lemma event_received_stops: "event_received P fd ev s = (Inl e, t) \<Longrightarrow> permitted e t"
  by (auto simp: event_received_def read_signal_def read_output_def handle_child_output_def hang_up_def throw_handler_def
      sys_call_def permitted_def Let_def split: if_splits sum.splits option.splits FDType.splits prod.splits)

lemma setup_signal_handlers_stops: "setup_signal_handlers P s = (Inl e, t) \<Longrightarrow> permitted e t"
  by (auto simp: setup_signal_handlers_def throw_handler_def sys_call_def Let_def split: if_splits)

section \<open>The loop\<close>

interpretation control: loop_contract P "\<lambda>s. fork_gives_fresh_pid P \<and> sys_inv E s" permitted for P E
proof
  let ?I = "\<lambda>s. fork_gives_fresh_pid P \<and> sys_inv E s"
  show "upholds ?I permitted (start_programs P n)" for n
  proof (rule upholdsI)
    show "?I t" if "?I s" "start_programs P n s = (Inr x, t)" for s x t
      using that start_programs_inv [of E s P n t] by simp
    show "permitted e t" if s: "?I s" and run: "start_programs P n s = (Inl e, t)" for s e t
    proof -
      have "upholds ?I permitted (start_program P n w)" for w
        by (rule upholdsI) (use start_program_inv start_program_stops in fastforce)+
      then have "upholds ?I permitted (for_each (start_program P n) (all_objs s))" by (rule upholds_for_each)
      moreover have "?I (fold notify_one (all_objs s) s)" using s notify_all_inv by blast
      moreover have "for_each (start_program P n) (all_objs s) (fold notify_one (all_objs s) s) = (Inl e, t)"
        using run by (simp add: start_programs_def Let_def)
      ultimately show ?thesis by (rule upholds_Inl)
    qed
  qed
  show "upholds ?I permitted (event_received P fd ev)" for fd ev
    by (rule upholdsI) (use bystander_inv event_received_bystander event_received_stops in blast)+
  show "?I t" if "?I s" "sys_call P (Sys_epoll_wait fd k ms) s = (r, t)" for s fd k ms r t
    using step_inv [OF step.wait [OF that(2)]] that(1) by blast
  show "?I t" if "?I s" "sys_call P Sys_waitpid s = (r, t)" "ret r \<le> 0" for s r t
    using step_inv [OF step.none_exited [OF that(2,3)]] that(1) by blast
  show "case res of Inl e \<Rightarrow> permitted e t | Inr x \<Rightarrow> ?I t"
    if "?I s" "sys_call P Sys_waitpid s = (r, u)" "0 < ret r" "sigchld_received (ret r) (out_num r) u = (res, t)"
    for s r u res t
    using sigchld_received_inv [OF waited_inv(1-4) [OF conjunct2 [OF that(1)] that(2)] that(4)] that(1) by auto
qed simp

text \<open>So neither \<open>exit\<close> nor undefined behaviour, but for loggers, once the configuration has been read.\<close>

lemma main_stops:
  assumes run: "main_scinit P Y F opts n = (Inl e, t)" and fork: "fork_gives_fresh_pid P"
    and boot: "handle_commandline_invocation P Y F opts ProcessHandler = (Inr (Some cfg), s0)" and few: "few_programs cfg"
  shows "permitted e t"
proof -
  let ?s1 = "register_processes (get_processes cfg) s0" and ?E = "overtaken (objects s0) (processes cfg)"
  have cf: "configured (cfg, s0)" by (rule handle_commandline_configured [OF boot])
  then have pr: "processes cfg = [0..<next_ref s0]" by (simp add: configured_def)
  with few have "freshly_configured s0" "distinct (processes cfg)"
    using configured_fresh [OF cf] by (simp_all add: few_programs_def)
  then have inv: "sys_inv ?E ?s1" using registered_inv [of s0 "processes cfg"] by (simp add: get_processes_eq)
  have "upholds (\<lambda>s. fork_gives_fresh_pid P \<and> sys_inv ?E s) permitted (setup_signal_handlers P)"
    by (rule upholdsI) (use setup_bystander bystander_inv setup_signal_handlers_stops in blast)+
  note enter = control.enter_upholds [OF this, of n]
  have "enter_eventloop P n ?s1 = (Inl e, t)" using run boot by (simp add: main_scinit_def Let_def)
  with enter inv fork show ?thesis by (intro upholds_Inl [OF enter, of ?s1]) simp_all
qed

end
