(* ===== verification/Runs.thy ===== *)
theory Runs
  imports Stages
begin

text \<open>
  Runs of the handler as lists of states, cut so finely that between two neighbours at most one state of one process is
  assigned: every single notification, start, exit and event. Along such a run the changes of state can be counted.
\<close>

section \<open>Small steps\<close>

inductive small_step :: "platform \<Rightarrow> sys \<Rightarrow> sys \<Rightarrow> bool" for P where
  notify: "small_step P s (notify_one w s)"
| program: "start_program P n w s = (Inr (), t) \<Longrightarrow> small_step P s t"
| reaped: "sys_call P Sys_waitpid s = (r, u) \<Longrightarrow> 0 < ret r \<Longrightarrow>
     sigchld_received (ret r) (out_num r) u = (Inr (), t) \<Longrightarrow> small_step P s t"
| none_reaped: "sys_call P Sys_waitpid s = (r, t) \<Longrightarrow> ret r \<le> 0 \<Longrightarrow> small_step P s t"
| waited: "sys_call P (Sys_epoll_wait fd k ms) s = (r, t) \<Longrightarrow> small_step P s t"
| dispatched: "event_received P fd ev s = (Inr (), t) \<Longrightarrow> small_step P s t"

text \<open>Every step of the handler is a sequence of small steps.\<close>

lemma notify_all_small_steps: "(small_step P)\<^sup>*\<^sup>* s (fold notify_one ws s)"
proof (induction ws arbitrary: s)
  case (Cons w ws)
  have "small_step P s (notify_one w s)" by (rule small_step.notify)
  with Cons show ?case by (simp add: converse_rtranclp_into_rtranclp)
qed simp

lemma start_programs_small_steps:
  assumes "start_programs P n s = (Inr (), t)"
  shows "(small_step P)\<^sup>*\<^sup>* s t"
proof -
  let ?u = "fold notify_one (all_objs s) s"
  from assms have loop: "for_each (start_program P n) (all_objs s) ?u = (Inr (), t)"
    by (simp add: start_programs_def Let_def)
  show ?thesis
    by (rule for_each_invariant_Inr [where P = "(small_step P)\<^sup>*\<^sup>* s", OF _ notify_all_small_steps loop])
      (auto intro: small_step.program rtranclp.rtrancl_into_rtrancl)
qed

lemma step_small_steps:
  assumes "step P s t"
  shows "(small_step P)\<^sup>*\<^sup>* s t"
  using assms
proof cases
  case start
  then show ?thesis by (rule start_programs_small_steps)
qed (auto intro: small_step.intros)

lemma rtranclp_successively:
  assumes "R\<^sup>*\<^sup>* s t"
  obtains ss where "successively R (s # ss)" and "last (s # ss) = t"
  using assms
proof (induction arbitrary: thesis rule: converse_rtranclp_induct)
  case base
  show ?case by (rule base [of "[]"]) simp_all
next
  case (step s u)
  from step.IH obtain ss where "successively R (u # ss)" "last (u # ss) = t" .
  with step show ?case by (intro step.prems [of "u # ss"]) simp_all
qed

text \<open>So every state that the handler reaches is the end of such a run.\<close>

lemma steps_are_runs:
  assumes "(step P)\<^sup>*\<^sup>* s t"
  obtains ss where "successively (small_step P) (s # ss)" and "last (s # ss) = t"
proof -
  have "(small_step P)\<^sup>*\<^sup>* s t" using assms
    by (induction rule: rtranclp_induct) (auto dest: step_small_steps intro: rtranclp_trans)
  then show thesis by (rule rtranclp_successively) (rule that)
qed

section \<open>Counting changes\<close>

text \<open>How often the state of a process differs between neighbours of a run.\<close>

fun state_changes :: "ref \<Rightarrow> sys list \<Rightarrow> nat" where
  "state_changes r (s # t # ss) = (if stages_of s r = stages_of t r then 0 else 1) + state_changes r (t # ss)"
| "state_changes r ss = 0"

definition left_for :: "sys \<Rightarrow> ref \<Rightarrow> nat" where
  "left_for s r = (case stages_of s r of None \<Rightarrow> 0 | Some x \<Rightarrow> moves_left x)"

lemma left_for_bound: "left_for s r \<le> 3"
proof -
  have "moves_left x \<le> 3" for x by (cases x) simp_all
  then show ?thesis by (simp add: left_for_def split: option.split)
qed

lemma left_for_same: "stages_of t = stages_of s \<Longrightarrow> left_for t r = left_for s r"
  by (simp add: left_for_def)

definition forward :: "sys \<Rightarrow> sys \<Rightarrow> bool" where
  "forward s t \<longleftrightarrow> stages_of t = stages_of s \<or>
     (\<exists>r x y. stages_of s r = Some x \<and> stages_of t = (stages_of s)(r \<mapsto> y) \<and> moves_left y < moves_left x)"

lemma forward_counts:
  assumes "forward s t"
  shows "(if stages_of s r = stages_of t r then 0 else 1) + left_for t r \<le> left_for s r"
proof (cases "stages_of t r = stages_of s r")
  case True
  then show ?thesis by (simp add: left_for_def)
next
  case False
  with assms obtain q x y where "stages_of s q = Some x" "stages_of t = (stages_of s)(q \<mapsto> y)" "moves_left y < moves_left x"
    by (auto simp: forward_def)
  with False show ?thesis by (cases "q = r") (simp_all add: left_for_def)
qed

lemma forward_update:
  "stages_of s r = Some x \<Longrightarrow> stages_of t = (stages_of s)(r \<mapsto> y) \<Longrightarrow> moves_left y < moves_left x \<Longrightarrow> forward s t"
  unfolding forward_def by blast

lemma notify_one_forward: "forward s (notify_one w s)"
proof (cases "lock (objects s) w")
  case None
  then show ?thesis by (simp add: forward_def notify_one_def)
next
  case (Some rc)
  then obtain r c where w: "lock (objects s) w = Some (r, c)" and c: "objects s r = Some c"
    by (cases rc) (auto simp: lock_Some_iff)
  let ?c' = "notify_of_state (obj_for_id s) (objects s) c"
  have t: "objects (notify_one w s) = (objects s)(r \<mapsto> ?c')" by (simp add: notify_one_objects w)
  note st = stages_of_update [OF t]
  show ?thesis
  proof (cases "?c' = c")
    case True
    with stages_of_same [OF c t] show ?thesis by (simp add: forward_def)
  next
    case False
    then have "state c = BLOCKED" "state ?c' = READY" by (auto simp: notify_of_state_alt split: if_splits)
    with st c show ?thesis by (intro forward_update [of s r BLOCKED _ READY]) (simp_all add: stages_of_def)
  qed
qed

lemma small_step_forward:
  assumes "small_step P s t" and inv: "sys_inv E s" and fork: "fork_gives_fresh_pid P"
  shows "sys_inv E t \<and> forward s t"
  using assms(1)
proof cases
  case (notify w)
  then show ?thesis using notify_one_inv [OF inv] notify_one_forward by simp
next
  case (program n w)
  have "forward s t" using start_program_stages [OF program] by (fastforce simp: forward_def)
  with start_program_inv [OF inv fork program] show ?thesis by simp
next
  case (reaped rp u)
  have u: "u = s\<lparr>calls := (Sys_waitpid, rp) # calls s\<rparr>" using reaped(1) by (auto simp: sys_call_def)
  have "wired u" "tracked u" using inv by (simp_all add: u sys_inv_def wired_def tracked_def)
  from sigchld_received_stages [OF this reaped(3)]
  have "forward u t"
  proof (elim disjE exE conjE)
    assume "stages_of t = stages_of u"
    then show ?thesis by (simp add: forward_def)
  next
    fix r
    assume "stages_of u r = Some RUNNING" "stages_of t = (stages_of u)(r \<mapsto> (if out_num rp = 0 then DONE else CRASHED))"
    then show ?thesis by (rule forward_update) simp
  qed
  moreover have "stages_of u = stages_of s" by (simp add: u stages_of_def)
  ultimately have "forward s t" by (simp add: forward_def)
  with step_inv [OF step.exited [OF reaped] inv fork] show ?thesis by simp
next
  case (none_reaped rp)
  then have "stages_of t = stages_of s" by (auto simp: sys_call_def stages_of_def)
  then have "forward s t" by (simp add: forward_def)
  with step_inv [OF step.none_exited [OF none_reaped] inv fork] show ?thesis by simp
next
  case (waited fd k ms rp)
  then have "stages_of t = stages_of s" by (auto simp: sys_call_def stages_of_def)
  then have "forward s t" by (simp add: forward_def)
  with step_inv [OF step.wait [OF waited] inv fork] show ?thesis by simp
next
  case (dispatched fd ev)
  then have "objects t = objects s" using event_received_bystander by (auto simp: bystander_def)
  then have "stages_of t = stages_of s" by (rule stages_of_eq)
  then have "forward s t" by (simp add: forward_def)
  with step_inv [OF step.event [OF dispatched] inv fork] show ?thesis by simp
qed

lemma run_changes:
  assumes "successively (small_step P) (s # ss)" and "sys_inv E s" and fork: "fork_gives_fresh_pid P"
  shows "state_changes r (s # ss) + left_for (last (s # ss)) r \<le> left_for s r"
  using assms(1,2)
proof (induction ss arbitrary: s)
  case (Cons t ss)
  then have "small_step P s t" and rest: "successively (small_step P) (t # ss)" by simp_all
  from small_step_forward [OF this(1) Cons.prems(2) fork] have "sys_inv E t" "forward s t" by simp_all
  with Cons.IH [OF rest] forward_counts [of s t r] show ?case by simp
qed simp

lemma launched_changes:
  assumes "launched P Y F opts cfg s0 s" and "few_programs cfg" and "fork_gives_fresh_pid P"
    and "successively (small_step P) (s # ss)"
  shows "state_changes r (s # ss) \<le> 3"
proof -
  have "sys_inv (overtaken (objects s0) (processes cfg)) s" using launched_inv(1) [OF assms(1,2)] .
  from run_changes [OF assms(4) this assms(3), of r] left_for_bound [of s r] show ?thesis by simp
qed

end
