(* ===== verification/Failing_Calls.thy ===== *)
theory Failing_Calls
  imports Contracts
begin

text \<open>
  System calls whose failure the code turns into an exception of its own. Those exceptions are not accessibly derived from
  \<open>std::exception\<close>, so the handler around the start of a program does not take them: the first such failure, wherever in
  the event loop it happens, is the last call that is made, and the exception leaves the event loop.
\<close>

section \<open>Failures and what they do to a trace\<close>

definition fatal :: "oscall \<Rightarrow> reply \<Rightarrow> bool" where
  "fatal call r =
     (case call of
        Sys_pipe \<Rightarrow> ret r = -1
      | Sys_openpty attrs win \<Rightarrow> ret r < 0
      | Sys_sigprocmask_block signals \<Rightarrow> ret r = -1
      | Sys_signalfd signals \<Rightarrow> ret r = -1
      | Sys_epoll_create \<Rightarrow> ret r = -1
      | Sys_epoll_ctl_add epfd fd ev \<Rightarrow> ret r = -1
      | Sys_epoll_ctl_del epfd fd \<Rightarrow> ret r = -1
      | _ \<Rightarrow> False)"

definition own_exception :: "exn \<Rightarrow> bool" where
  "own_exception x \<longleftrightarrow> (\<exists>msg. x = ChildProcessException msg \<or> x = ProcessHandlerException msg)"

lemma own_exception_simps [simp]:
  "own_exception (ChildProcessException msg)" "own_exception (ProcessHandlerException msg)"
  "own_exception x \<Longrightarrow> \<not> caught_as_std_exception x"
  by (auto simp: own_exception_def)

definition unharmed :: "trace \<Rightarrow> trace \<Rightarrow> bool" where
  "unharmed tr0 tr \<longleftrightarrow> (\<exists>es. tr = es @ tr0 \<and> (\<forall>(call, r)\<in>set es. \<not> fatal call r))"

definition ended_by_failure :: "trace \<Rightarrow> stop \<Rightarrow> trace \<Rightarrow> bool" where
  "ended_by_failure tr0 e tr \<longleftrightarrow>
     (\<exists>x. e = Throw x \<and> own_exception x) \<and> (\<exists>call r tr1. tr = (call, r) # tr1 \<and> fatal call r \<and> unharmed tr0 tr1)"

definition surfaced :: "trace \<Rightarrow> stop \<Rightarrow> trace \<Rightarrow> bool" where
  "surfaced tr0 e tr \<longleftrightarrow> unharmed tr0 tr \<or> ended_by_failure tr0 e tr"

definition outcome :: "trace \<Rightarrow> 'a res \<Rightarrow> trace \<Rightarrow> bool" where
  "outcome tr0 res tr \<longleftrightarrow> (case res of Inl e \<Rightarrow> surfaced tr0 e tr | Inr x \<Rightarrow> unharmed tr0 tr)"

lemma unharmed_refl [simp]: "unharmed tr tr"
  by (simp add: unharmed_def)

lemma unharmed_Cons: "unharmed tr0 tr \<Longrightarrow> \<not> fatal call r \<Longrightarrow> unharmed tr0 ((call, r) # tr)"
  unfolding unharmed_def by (metis (mono_tags, lifting) append_Cons case_prodI set_ConsD)

lemma failed_Cons:
  "unharmed tr0 tr \<Longrightarrow> fatal call r \<Longrightarrow> own_exception x \<Longrightarrow> surfaced tr0 (Throw x) ((call, r) # tr)"
  unfolding surfaced_def ended_by_failure_def by blast

lemma outcome_simps [simp]:
  "outcome tr0 (Inr x) tr = unharmed tr0 tr"
  "outcome tr0 (Inl e) tr = surfaced tr0 e tr"
  by (simp_all add: outcome_def)

lemma unharmed_surfaced [simp]: "unharmed tr0 tr \<Longrightarrow> surfaced tr0 e tr"
  by (simp add: surfaced_def)

lemma unharmed_outcome [simp]: "unharmed tr0 tr \<Longrightarrow> outcome tr0 res tr"
  by (cases res) simp_all

lemmas failure_rules = unharmed_Cons failed_Cons fatal_def

section \<open>The start of a program\<close>

lemma ttyname_loop_unharmed: "unharmed tr0 tr \<Longrightarrow> unharmed tr0 (snd (ttyname_loop P n fd buf tr))"
  by (induction P n fd buf tr rule: ttyname_loop.induct) (auto simp: syscall_def Let_def failure_rules)

lemma dup2_loop_unharmed: "unharmed tr0 tr \<Longrightarrow> unharmed tr0 (snd (dup2_loop P n old new tr))"
  by (induction P n old new tr rule: dup2_loop.induct) (auto simp: syscall_def Let_def failure_rules)

lemma raise_ambient_unharmed: "unharmed tr0 tr \<Longrightarrow> unharmed tr0 (snd (raise_ambient P caps s tr))"
  by (induction P caps s tr rule: raise_ambient.induct) (simp_all add: syscall_def Let_def failure_rules)

lemma chown_ptys_unharmed: "unharmed tr0 tr \<Longrightarrow> unharmed tr0 (snd (chown_ptys P c tr))"
  by (auto simp: chown_ptys_def syscall_def Let_def failure_rules)

lemma switch_user_unharmed: "unharmed tr0 tr \<Longrightarrow> unharmed tr0 (snd (switch_user P c tr))"
  by (auto simp: switch_user_def syscall_def Let_def failure_rules)

lemma final_caps_unharmed: "unharmed tr0 tr \<Longrightarrow> unharmed tr0 (snd (final_caps P s tr))"
  by (auto simp: final_caps_def syscall_def Let_def failure_rules)

lemma handle_caps_unharmed:
  assumes "unharmed tr0 tr"
  shows "unharmed tr0 (snd (handle_caps P c tr))"
proof -
  let ?tr1 = "snd (chown_ptys P c tr)"
  let ?tr2 = "snd (switch_user P c ?tr1)"
  let ?tr3 = "(Sys_prctl_ambient_clear_all, os P ?tr2 Sys_prctl_ambient_clear_all) # ?tr2"
  have u: "unharmed tr0 ?tr1" "unharmed tr0 ?tr2" "unharmed tr0 ?tr3"
    using assms by (simp_all add: chown_ptys_unharmed switch_user_unharmed failure_rules)
  then show ?thesis
    using raise_ambient_unharmed [OF u(3), of P "capabilities c" "[]"]
    by (auto simp: handle_caps_def syscall_def Let_def split: prod.splits option.splits
        dest: final_caps_unharmed [of tr0 _ P])
qed

lemma exec_child_unharmed:
  assumes "unharmed tr0 tr"
  shows "unharmed tr0 (snd (exec_child P n c environment tr))"
proof -
  let ?tr1 = "snd (dup2_loop P n (snd (stdout c)) 1 tr)"
  let ?tr2 = "snd (dup2_loop P n (snd (stderr c)) 2 ?tr1)"
  let ?tr3 = "snd (syscall P (Sys_close (snd (stderr c))) (snd (syscall P (Sys_close (snd (stdout c))) ?tr2)))"
  have "unharmed tr0 ?tr1" "unharmed tr0 ?tr2" using assms by (simp_all add: dup2_loop_unharmed)
  moreover from this have "unharmed tr0 (snd (handle_caps P c ?tr3))"
    by (intro handle_caps_unharmed) (simp add: failure_rules)
  ultimately show ?thesis
    by (auto simp: exec_child_def syscall_def Let_def failure_rules split: prod.splits sum.splits)
qed

lemma open_pipes_failure:
  assumes "open_pipes P (c, tr) = (res, (c', tr'))" and "unharmed tr0 tr"
  shows "outcome tr0 res tr'"
  using assms by (auto simp: open_pipes_def syscall_def Let_def fail_def failure_rules split: if_splits)

lemma tty_properties_unharmed: "unharmed tr0 tr \<Longrightarrow> unharmed tr0 (snd (tty_properties P tr))"
  by (simp add: tty_properties_def syscall_def Let_def failure_rules)

lemma open_ptys_failure:
  assumes run: "open_ptys P n (c, tr) = (res, (c', tr'))" and ok: "unharmed tr0 tr"
  shows "outcome tr0 res tr'"
proof -
  obtain attrs win tr1 where tty: "tty_properties P tr = ((attrs, win), tr1)"
    by (metis prod.exhaust)
  have u1: "unharmed tr0 tr1" using tty_properties_unharmed [OF ok, of P] tty by simp
  define r1 where "r1 = os P tr1 (Sys_openpty attrs win)"
  define tr2 where "tr2 = (Sys_openpty attrs win, r1) # tr1"
  define r2 where "r2 = os P tr2 (Sys_openpty attrs win)"
  define tr3 where "tr3 = (Sys_openpty attrs win, r2) # tr2"
  obtain res1 tr4 where tn1: "ttyname_loop P n (snd (fds r1)) (reserve 64 (stdoutPTYName c)) tr3 = (res1, tr4)"
    by (metis prod.exhaust)
  obtain res2 tr5 where tn2: "ttyname_loop P n (snd (fds r1)) (reserve 64 (stderrPTYName c)) tr4 = (res2, tr5)"
    by (metis prod.exhaust)
  have s1: "syscall P (Sys_openpty attrs win) tr1 = (r1, tr2)" and s2: "syscall P (Sys_openpty attrs win) tr2 = (r2, tr3)"
    by (simp_all add: syscall_def r1_def tr2_def r2_def tr3_def)
  consider (first) "ret r1 < 0" | (second) "0 \<le> ret r1" "ret r2 < 0" | (both) "0 \<le> ret r1" "0 \<le> ret r2" by linarith
  then show ?thesis
  proof cases
    case first
    then have "res = Inl (Throw (ChildProcessException ''Couldn't allocate stdout pty!''))" "tr' = tr2"
      using run by (auto simp: open_ptys_def tty s1 fail_def)
    with first u1 show ?thesis by (auto simp: tr2_def failure_rules)
  next
    case second
    then have "res = Inl (Throw (ChildProcessException ''Couldn't allocate stderr pty!''))" "tr' = tr3"
      using run by (auto simp: open_ptys_def tty s1 s2 fail_def Let_def)
    moreover have "unharmed tr0 tr2" using second u1 by (simp add: tr2_def failure_rules)
    ultimately show ?thesis using second by (auto simp: tr3_def failure_rules)
  next
    case both
    then have "unharmed tr0 tr2" using u1 by (simp add: tr2_def failure_rules)
    then have "unharmed tr0 tr3" using both by (simp add: tr3_def failure_rules)
    then have "unharmed tr0 tr4" using ttyname_loop_unharmed [of tr0 tr3 P n "snd (fds r1)"] tn1 by (metis snd_conv)
    moreover from this have "unharmed tr0 tr5" using ttyname_loop_unharmed [of tr0 tr4 P n "snd (fds r1)"] tn2 by (metis snd_conv)
    moreover have "tr' = tr4 \<or> tr' = tr5"
      using run both by (auto simp: open_ptys_def tty s1 s2 fail_def Let_def tn1 tn2 split: sum.splits if_splits)
    ultimately show ?thesis by auto
  qed
qed

lemma open_channels_failure:
  assumes "open_channels P n (c, tr) = (res, (c', tr'))" and "unharmed tr0 tr"
  shows "outcome tr0 res tr'"
  using assms open_pipes_failure open_ptys_failure by (fastforce simp: open_channels_def split: if_splits)

lemma do_fork_failure:
  assumes run: "do_fork P n (c, reg, tr) = (res, (c', reg', tr'))" and ok: "unharmed tr0 tr"
  shows "outcome tr0 res tr'"
proof (cases "state c = READY")
  case False
  with run ok show ?thesis by (auto simp: do_fork_def fail_def)
next
  case rd: True
  obtain res1 c1 tr1 where op: "open_channels P n (c, tr) = (res1, (c1, tr1))"
    by (metis prod.exhaust)
  note o1 = open_channels_failure [OF op ok]
  show ?thesis
  proof (cases res1)
    case (Inl e)
    with run rd op have "res = Inl e" "tr' = tr1" by (auto simp: do_fork_def)
    with o1 Inl show ?thesis by simp
  next
    case (Inr x)
    with o1 have u1: "unharmed tr0 tr1" by simp
    then have "unharmed tr0 ((Sys_fork, os P tr1 Sys_fork) # tr1)" by (simp add: failure_rules)
    note u2 = this exec_child_unharmed [OF this, of P n]
    have "unharmed tr0 tr'"
      using run rd op Inr u1 u2
      by (auto simp: do_fork_def syscall_def Let_def failure_rules split: sum.splits prod.splits if_splits)
        (metis snd_conv)
    then show ?thesis by simp
  qed
qed

lemma register_with_epoll_failure:
  assumes "register_with_epoll P epfd c (m, types, tr) = (res, (m', types', tr'))" and "unharmed tr0 tr"
  shows "outcome tr0 res tr'"
  using assms by (auto simp: register_with_epoll_def syscall_def Let_def fail_def failure_rules split: if_splits)

section \<open>The handler\<close>

definition unharmed_since :: "trace \<Rightarrow> sys \<Rightarrow> bool" where
  "unharmed_since tr0 s = unharmed tr0 (calls s)"

definition surfaced_since :: "trace \<Rightarrow> stop \<Rightarrow> sys \<Rightarrow> bool" where
  "surfaced_since tr0 e s = surfaced tr0 e (calls s)"

abbreviation surfaces :: "trace \<Rightarrow> (sys \<Rightarrow> 'a res \<times> sys) \<Rightarrow> bool" where
  "surfaces tr0 \<equiv> upholds (unharmed_since tr0) (surfaced_since tr0)"

lemma surfacesI:
  assumes "\<And>s res t. unharmed tr0 (calls s) \<Longrightarrow> f s = (res, t) \<Longrightarrow> outcome tr0 res (calls t)"
  shows "surfaces tr0 f"
  unfolding upholds_def
proof (intro allI impI)
  fix s res t
  assume "unharmed_since tr0 s" and "f s = (res, t)"
  with assms have "outcome tr0 res (calls t)" by (simp add: unharmed_since_def)
  then show "case res of Inl e \<Rightarrow> surfaced_since tr0 e t | Inr x \<Rightarrow> unharmed_since tr0 t"
    by (cases res) (simp_all add: unharmed_since_def surfaced_since_def)
qed

lemma surfacesD: "surfaces tr0 f \<Longrightarrow> unharmed tr0 (calls s) \<Longrightarrow> f s = (res, t) \<Longrightarrow> outcome tr0 res (calls t)"
  by (cases res) (auto simp: unharmed_since_def surfaced_since_def dest: upholds_Inr upholds_Inl)

lemma try_start_surfaces: "surfaces tr0 (try_start P n r c)"
proof (rule surfacesI)
  fix s res t
  assume ok: "unharmed tr0 (calls s)" and run: "try_start P n r c s = (res, t)"
  define lg where "lg = os P (calls s) (Log_create (get_name c))"
  define tr1 where "tr1 = (Log_create (get_name c), lg) # calls s"
  have sc: "sys_call P (Log_create (get_name c)) s = (lg, s\<lparr>calls := tr1\<rparr>)"
    by (simp add: sys_call_def lg_def tr1_def)
  have u1: "unharmed tr0 tr1" using ok by (simp add: tr1_def failure_rules)
  obtain res1 c' reg tr2 where df: "do_fork P n (c, id_for_pid s, tr1) = (res1, (c', reg, tr2))"
    by (metis prod.exhaust)
  obtain res2 m types tr3 where rg:
    "register_with_epoll P (epoll_fd s) c' (id_for_fd s, fd_type s, tr2) = (res2, (m, types, tr3))"
    by (metis prod.exhaust)
  note o1 = do_fork_failure [OF df u1]
  have o2: "outcome tr0 res2 tr3" if "res1 = Inr ()"
    using register_with_epoll_failure [OF rg] o1 that by simp
  show "outcome tr0 res (calls t)"
    using run u1 o1 o2 unfolding try_start_def sc Let_def prod.case
    by (auto simp: df rg split: if_splits sum.splits)
qed

lemma catch_std_outcome:
  assumes "outcome tr0 res (calls u)" and "catch_std (res, u) = (res', t)"
  shows "outcome tr0 res' (calls t)"
proof (cases "\<exists>x. res = Inl (Throw x) \<and> caught_as_std_exception x")
  case True
  then obtain x where x: "res = Inl (Throw x)" "caught_as_std_exception x" by blast
  then have "\<not> ended_by_failure tr0 (Throw x) (calls u)" by (auto simp: ended_by_failure_def)
  with assms(1) x have "unharmed tr0 (calls u)" by (simp add: surfaced_def)
  moreover have "t = u" using assms(2) x by (simp add: catch_std_def)
  ultimately show ?thesis by simp
next
  case False
  then have "catch_std (res, u) = (res, u)" by (auto simp: catch_std_def split: sum.split stop.split)
  with assms show ?thesis by simp
qed

lemma start_program_surfaces: "surfaces tr0 (start_program P n w)"
proof (rule surfacesI)
  fix s res t
  assume ok: "unharmed tr0 (calls s)" and run: "start_program P n w s = (res, t)"
  show "outcome tr0 res (calls t)"
  proof (cases "\<exists>r c. lock (objects s) w = Some (r, c) \<and> can_start_now c")
    case False
    with run ok show ?thesis by (auto simp: start_program_def split: option.splits if_splits)
  next
    case True
    then obtain r c where w: "lock (objects s) w = Some (r, c)" "can_start_now c" by blast
    obtain res1 u where ts: "try_start P n r c s = (res1, u)" by fastforce
    then have "catch_std (res1, u) = (res, t)" using run w by (simp add: start_program_def)
    with surfacesD [OF try_start_surfaces ok ts] show ?thesis by (rule catch_std_outcome)
  qed
qed

lemma start_programs_surfaces: "surfaces tr0 (start_programs P n)"
proof (rule surfacesI)
  fix s res t
  assume ok: "unharmed tr0 (calls s)" and run: "start_programs P n s = (res, t)"
  let ?u = "fold notify_one (all_objs s) s"
  have loop: "surfaces tr0 (for_each (start_program P n) (all_objs s))"
    by (rule upholds_for_each) (rule start_program_surfaces)
  have "calls (notify_one w s) = calls s \<and> all_objs (notify_one w s) = all_objs s" for w s
    by (simp add: notify_one_def split: option.split)
  then have frame: "calls (fold notify_one ws s) = calls s \<and> all_objs (fold notify_one ws s) = all_objs s" for ws
    by (induction ws arbitrary: s) simp_all
  have "unharmed tr0 (calls ?u)" using ok frame by simp
  moreover have "for_each (start_program P n) (all_objs s) ?u = (res, t)"
    using run frame by (simp add: start_programs_def Let_def)
  ultimately show "outcome tr0 res (calls t)" by (rule surfacesD [OF loop])
qed

lemma signal_received_unharmed:
  assumes "unharmed tr0 (calls s)"
  shows "unharmed tr0 (calls (signal_received P sig s))"
proof -
  have "unharmed tr0 (calls (forward_signal P g m s))" for g m
    using assms by (induction P g m s rule: forward_signal.induct) (simp_all add: sys_call_def failure_rules)
  with assms show ?thesis by (simp add: signal_received_def Let_def)
qed

lemma event_received_surfaces: "surfaces tr0 (event_received P fd ev)"
proof (rule surfacesI)
  fix s res t
  assume ok: "unharmed tr0 (calls s)" and run: "event_received P fd ev s = (res, t)"
  have signal: "outcome tr0 res (calls t)" if "read_signal P s = (res, t)"
  proof -
    let ?s1 = "s\<lparr>calls := (Sys_read (signal_fd s) sizeof_signalfd_siginfo,
        os P (calls s) (Sys_read (signal_fd s) sizeof_signalfd_siginfo)) # calls s\<rparr>"
    have "unharmed tr0 (calls ?s1)" using ok by (simp add: failure_rules)
    note this signal_received_unharmed [OF this]
    with that show ?thesis by (auto simp: read_signal_def sys_call_def throw_handler_def Let_def split: if_splits)
  qed
  have out: "outcome tr0 res (calls t)" if "read_output P fd s = (res, t)"
    using that ok
    by (auto simp: read_output_def handle_child_output_def sys_call_def Let_def failure_rules
        split: if_splits sum.splits option.splits FDType.splits)
  have hang: "outcome tr0 res (calls t)" if "hang_up P fd s = (res, t)"
    using that ok
    by (auto simp: hang_up_def sys_call_def throw_handler_def Let_def failure_rules split: if_splits option.splits prod.splits)
  show "outcome tr0 res (calls t)"
    using run ok signal out hang by (auto simp: event_received_def throw_handler_def split: if_splits)
qed

lemma setup_signal_handlers_surfaces: "surfaces tr0 (setup_signal_handlers P)"
  by (rule surfacesI)
    (auto simp: setup_signal_handlers_def throw_handler_def sys_call_def Let_def failure_rules split: if_splits)

lemma sigchld_received_calls:
  assumes "sigchld_received pid rc s = (res, t)"
  shows "calls t = calls s"
proof -
  have loop: "calls v = calls u" if "for_each (emit_to EXIT rc) slots u = (res, v)" for slots u v and res :: "unit res"
    using that
    by (rule for_each_invariant [where P = "\<lambda>v. calls v = calls u", rotated 2]) (auto dest: emit_to_frame)
  show ?thesis using assms
    by (auto simp: sigchld_received_def Let_def split: option.splits elim!: andThen_cases dest!: loop)
qed

interpretation failing: loop_contract P "unharmed_since tr0" "surfaced_since tr0" for P tr0
proof
  show "surfaces tr0 (start_programs P n)" for n by (rule start_programs_surfaces)
  show "surfaces tr0 (event_received P fd ev)" for fd ev by (rule event_received_surfaces)
  show "unharmed_since tr0 t" if "unharmed_since tr0 s" "sys_call P (Sys_epoll_wait fd k ms) s = (r, t)" for s fd k ms r t
    using that by (auto simp: unharmed_since_def sys_call_def failure_rules)
  show "unharmed_since tr0 t" if "unharmed_since tr0 s" "sys_call P Sys_waitpid s = (r, t)" "ret r \<le> 0" for s r t
    using that by (auto simp: unharmed_since_def sys_call_def failure_rules)
  show "case res of Inl e \<Rightarrow> surfaced_since tr0 e t | Inr x \<Rightarrow> unharmed_since tr0 t"
    if "unharmed_since tr0 s" "sys_call P Sys_waitpid s = (r, u)" "0 < ret r" "sigchld_received (ret r) (out_num r) u = (res, t)"
    for s r u res t
  proof -
    have "unharmed tr0 (calls u)" using that(1,2) by (auto simp: unharmed_since_def sys_call_def failure_rules)
    then show ?thesis using sigchld_received_calls [OF that(4)]
      by (simp add: unharmed_since_def surfaced_since_def split: sum.split)
  qed
qed (simp add: unharmed_since_def surfaced_since_def)

section \<open>Properties\<close>

text \<open>
  C33. A failed call ends scinit. If in the event loop, set-up included, one of these calls fails: \<open>pipe\<close> or \<open>openpty\<close> for
  the channels of a program, registering or removing a descriptor with \<open>epoll_ctl\<close>, or creating the signal and epoll
  descriptors, then it is the last call, and the event loop ends with a \<open>ChildProcessException\<close> or a \<open>ProcessHandlerException\<close>:
  the handler for \<open>std::exception&\<close> around the start of a program does not take them. So one program whose channels cannot be
  opened, whenever it becomes ready, takes the whole system down.
\<close>

theorem failed_call_ends_loop:
  assumes "enter_eventloop P n s = (res, t)" and "calls t = newer @ (call, r) # older @ calls s" and "fatal call r"
  shows "newer = [] \<and> (\<exists>x. res = Inl (Throw x) \<and> own_exception x)"
proof -
  have "outcome (calls s) res (calls t)"
    using surfacesD [OF failing.enter_upholds [OF setup_signal_handlers_surfaces], of "calls s" s P n res t] assms(1) by simp
  moreover have "\<not> unharmed (calls s) (calls t)" using assms(2,3) by (auto simp: unharmed_def)
  ultimately obtain e where e: "res = Inl e" "ended_by_failure (calls s) e (calls t)"
    by (cases res) (auto simp: surfaced_def)
  then obtain x call' r' tr where x: "e = Throw x" "own_exception x"
    and t: "calls t = (call', r') # tr" "unharmed (calls s) tr" by (auto simp: ended_by_failure_def)
  have "newer = []"
  proof (cases newer)
    case (Cons ev rest)
    then have "tr = rest @ (call, r) # older @ calls s" using assms(2) t(1) by simp
    with t(2) assms(3) show ?thesis by (auto simp: unharmed_def)
  qed simp
  with e(1) x show ?thesis by blast
qed

text \<open>An example: the signal descriptor and the epoll descriptor can be created, pipes cannot.\<close>

definition pipeless_platform :: platform where
  "pipeless_platform = (plain_platform 1)\<lparr>os := \<lambda>tr call. case call of Sys_pipe \<Rightarrow> ok_reply\<lparr>ret := -1\<rparr> | _ \<Rightarrow> ok_reply\<rparr>"

theorem failed_call_ends_loop_witness:
  "\<exists>x. fst (enter_eventloop pipeless_platform 3 example_sys) = Inl (Throw x) \<and> own_exception x"
proof -
  let ?t = "snd (enter_eventloop pipeless_platform 3 example_sys)"
  have "hd (calls ?t) = (Sys_pipe, ok_reply\<lparr>ret := -1\<rparr>)" and "calls ?t \<noteq> []" and "calls example_sys = []"
    by code_simp+
  then have "calls ?t = [] @ (Sys_pipe, ok_reply\<lparr>ret := -1\<rparr>) # tl (calls ?t) @ calls example_sys"
    by (metis append_Nil append_Nil2 list.collapse)
  from failed_call_ends_loop [OF prod.collapse [symmetric] this] show ?thesis by (simp add: fatal_def)
qed

end
