(* ===== verification/Spec2Isabelle.thy ===== *)
theory Spec2Isabelle
  imports Sample_Outcomes Execution Accounting Control Runs Failing_Calls
begin

text \<open>
  scinit is an init process for containers: it reads a list of programs from YAML files, starts them in the order of
  their dependencies with a filtered environment and reduced privileges, logs their output, forwards signals to them,
  reaps children and zombies, and ends when no program is running any more. This library is a model of its code and a
  proof of what the code guarantees. Paths below are relative to the directory \<open>src/\<close> of the repository's sources.

  \<^bold>\<open>The program and its model.\<close>

  \<^item> \<open>Prelude\<close>: the exception classes (\<open>*Exception.h\<close>, \<open>*Exception.cpp\<close>) as the datatype \<open>exn\<close>; the ways in which an
    operation does not return (\<open>stop\<close>: an exception, the end of the process, its replacement by another program,
    undefined behaviour, fuel used up); sequencing (\<open>andThen\<close>, \<open>for_each\<close>); contracts of operations (\<open>upholds\<close>) and how
    they compose. An operation maps a state to a result and
    a state; the state is kept when an exception is thrown, as it is in the code.
  \<^item> \<open>Ordered_Map\<close>: \<open>std::map\<close> as the ascending list of its entries. The locale \<open>finite_map\<close> holds the laws the users
    rely on. \<open>operator[]\<close> is \<open>omap_index\<close>: it inserts the default value, and where the code calls it on a
    key that may be missing, the model inserts too.
  \<^item> \<open>OS_Interface\<close>: the outside world as a parameter, the record \<open>platform\<close>: the replies of kernel, C library, libcap and
    spdlog as a function of the trace of all calls so far and the call; the variable \<open>environ\<close>; the template engine.
    Strings that the code passes by \<open>c_str()\<close> arrive there up to their first zero byte (\<open>c_string\<close>).
    The locales \<open>traced\<close> and \<open>quiet_traced\<close> are the contract of the operations that make such calls.
  \<^item> \<open>Process_Types\<close>: the enumerations of \<open>ChildProcessInterface.h\<close> and \<open>ProcessHandlerInterface.h\<close>, ordered as their
    enumerators are, and the moves between process states.
  \<^item> \<open>Child_Process\<close>: the members of \<open>ChildProcess.h\<close> as the record \<open>child\<close>; constructor, dependencies and state changes of
    \<open>ChildProcess.cpp\<close>. Objects live in a store from addresses to records; \<open>std::weak_ptr\<close> is an optional address and \<open>lock\<close>
    looks it up. \<open>propagate_dependencies\<close> changes other objects, and reads its own object anew on each pass, since
    both may be the same.
  \<^item> \<open>Child_Env\<close>, \<open>Child_Caps\<close>, \<open>Child_Fork\<close>: \<open>handle_env\<close>, \<open>handle_caps\<close>, and \<open>do_fork\<close> with \<open>register_with_epoll\<close>. A
    reply 0 to \<open>fork\<close> selects the branch of the child, which never returns to the parent's code.
  \<^item> \<open>Process_Handler\<close> and \<open>Event_Loop\<close>: the members of \<open>ProcessHandler.h\<close> as the record \<open>sys\<close>, which also holds the store
    and the trace; all operations of \<open>ProcessHandler.cpp\<close>. Event handlers are bound member functions, so a
    slot of a signal is the address of its object.
  \<^item> \<open>Config\<close>: \<open>Config.h\<close> for the class \<open>ChildProcess\<close>, over a record \<open>yaml\<close> of the operations of yaml-cpp that it uses.
  \<^item> \<open>Main_Program\<close>: \<open>main.cpp\<close> after the command line has been parsed; the file system is a parameter.

  \<^bold>\<open>What is proved about the parts.\<close> The theories of the components hold the properties of single operations: that
  the early-exit folds, index loops and template mean what they are for (\<open>notify_of_state\<close>, \<open>strip_newlines\<close>, \<open>handle_env\<close>),
  that \<open>handle_caps\<close> and \<open>do_fork\<close> execute a program only after every call that the code checks has succeeded (the request to
  clear the ambient set is not among them), what is left of the output that is logged, what an entry of the configuration
  becomes, that the retry loops end, and where the code departs from its comments.

  \<^bold>\<open>What is proved about the whole.\<close>

  \<^item> \<open>Supervision\<close>: the event loop performs \<open>step\<close>s (start what can be started, reap one child, wait, handle one event), in
    any order and for any replies. The invariant \<open>sys_inv\<close> ties the tables to the objects (\<open>wired\<close>, \<open>tracked\<close>), the table
    of process ids to the kernel (\<open>known_pids\<close>), and the states to the dependencies (\<open>order_respected\<close>); every step keeps it, and
    objects only change as \<open>advances\<close> allows. The locale \<open>preserved\<close> lifts such facts from steps to runs.
  \<^item> \<open>Registration\<close>: \<open>register_processes\<close> on the objects the configuration created; which conditions each object ends
    with, which objects become ready at once, and which conditions come too late (\<open>overtaken\<close>).
  \<^item> \<open>Startup\<close>: from the command line to the event loop; the state that the loop is entered with satisfies \<open>sys_inv\<close>.
  \<^item> \<open>Blocking\<close>: a condition that has been missed is missed for ever.
  \<^item> \<open>Guarantees\<close>: the reachable states, the count of running processes, the result of \<open>main\<close>, and that a ready process
    starts when no call fails.
  \<^item> \<open>Stages\<close>: an abstract machine on process states as the specification, and the simulation (locale \<open>simulation\<close>) by which
    the handler refines it. \<open>Runs\<close>: runs as lists of states, cut at every single notification, start, exit and event, and the
    number of changes of state along them. \<open>Starts\<close>: one fork per started process. \<open>Descriptors\<close>: the tables for file
    descriptors.
  \<^item> \<open>Completion\<close> and \<open>Ending\<close>: for programs that exit, the event loop and then \<open>main\<close> return, and nothing is left to do; each
    pass of the loop leaves no process running, and starts another one or is the last. After a request to quit the next
    pass is the last. \<open>Outcomes\<close>: what follows from the dependencies alone, that cycles are never started and that
    oneshots without a cycle are all run.
  \<^item> \<open>Contracts\<close>: the locale \<open>loop_contract\<close>, by which what single starts, exits and events uphold is upheld by the event
    loop. It is interpreted three times. \<open>Execution\<close>, without any hypothesis on the kernel: nothing is executed but the
    programs of the configuration, after the checked calls that drop the privileges (\<open>confined\<close>). \<open>Control\<close>: the reasons for
    which \<open>main\<close> can stop. \<open>Failing_Calls\<close>, without a hypothesis on the kernel: a failed \<open>pipe\<close>, \<open>openpty\<close> or
    \<open>epoll_ctl\<close> is the last call of the event loop (\<open>surfaces\<close>).
  \<^item> \<open>Accounting\<close>, without any hypothesis on the kernel either: the counter of running processes is never below the number of
    children still to be waited for, so \<open>main\<close> returns only after all have been, and never after a failed \<open>fork\<close>; and the table
    of process ids holds such children only, and what a failed \<open>fork\<close> returned, so signals go nowhere else.
  \<^item> \<open>Sample_System\<close>, \<open>Sample_Outcomes\<close>: concrete platforms, documents and runs, evaluated and used to instantiate the
    theorems about runs.
  \<^item> This theory states the properties of the whole program.

  \<^bold>\<open>Hypotheses.\<close> \<open>fork_gives_fresh_pid\<close> (used for runs): \<open>fork\<close> succeeds in the parent, with a number that no child has
  which has not been reaped; the failing case is dealt with in \<open>Child_Fork\<close> and \<open>Accounting\<close>. \<open>few_programs\<close>: fewer programs than the
  \<open>int\<close> that numbers them can count. \<open>renders_loop\<close>: the documented meaning of a loop for the one template in
  the code. For completion only: \<open>cooperative\<close>, the calls that start a program succeed; \<open>startable\<close>, no program wants a terminal
  and the environment of each can be computed; \<open>short_lived\<close>, there is an exited child whenever \<open>waitpid\<close> is asked and one is
  left; \<open>only_hang_ups\<close>, the events are hang-ups; \<open>clean_exits\<close>, children exit with status 0. The platforms of
  \<open>Sample_System\<close> have these, for the last one with status 0.

  \<^bold>\<open>Bounds and fuel.\<close> Process numbers, ids, signals, event masks and descriptor counts are 32 bit words and wrap; file
  descriptors, process ids, exit statuses and the count of running processes (a C \<open>int\<close>, below the number of programs by the
  invariant) are integers. The event loop, the loop over exited children, and the loops around \<open>dup2\<close> and \<open>ttyname_r\<close>
  have no bound in the code; they take a fuel whose exhaustion is the result \<open>No_fuel\<close>. \<open>ttyname_loop_terminates\<close> and
  \<open>reap_terminates\<close> say how much is enough. The event loop runs as long as its programs do, so its properties are
  about every state that a run of any length passes through; for short-lived programs \<open>4 * n + 2\<close> passes are enough, and
  after a request to quit one pass is (whose loop over exited children needs the number of programs).

  \<^bold>\<open>Not modelled.\<close> Messages of scinit itself (\<open>log.h\<close>, \<open>std::cerr\<close>, \<open>std::cout\<close>) and the format of the loggers, since they do
  not influence the program; the creation and use of the loggers of the programs are calls. Option parsing, the file
  system, yaml-cpp, the template engine and libcap are parameters. Allocation failures and the pure virtual
  functions of the interface classes have no counterpart. The test programs and mocks under \<open>test/\<close> are left out.
\<close>

section \<open>Properties of the whole program\<close>

text \<open>
  C2. Bookkeeping. In every state that the running program passes through, the counter of running processes is the
  number of objects that are running, and the table of process ids holds exactly the running objects under the ids
  that \<open>fork\<close> returned for them. (Hypothesis on the kernel: \<open>fork\<close> does not fail, and a new process has a number that
  no child has which is still to be waited for.)
\<close>

theorem running_processes_tracked:
  assumes "reachable P Y F opts cfg s0 t" and "few_programs cfg" and "fork_gives_fresh_pid P"
  shows "number_of_running_procs t = int (card {r. \<exists>c. objects t r = Some c \<and> state c = RUNNING}) \<and>
    (\<forall>pid i. omap_find (id_for_pid t) pid = Some i \<longleftrightarrow>
       (\<exists>r c. objects t r = Some c \<and> state c = RUNNING \<and> graph_id c = i \<and> primaryPid c = pid))"
proof -
  have wt: "wired t" "tracked t" using reachable_inv(1) [OF assms] by (simp_all add: sys_inv_def)
  moreover have "omap_find (id_for_pid t) pid = Some i \<longleftrightarrow> (\<exists>r. running_at (objects t) r i pid)" for pid i
    using tracked_pid [OF wt(2)] tracked_running [OF wt(2)] by blast
  ultimately show ?thesis using running_count(2) [of t] by (simp add: running_def running_at_def)
qed

theorem running_processes_tracked_witness:
  "number_of_running_procs (snd sample_setup) =
     int (card {r. \<exists>c. objects (snd sample_setup) r = Some c \<and> state c = RUNNING})"
  using running_processes_tracked [OF sample_reachable_start sample_few sample_fork] by blast

text \<open>
  C1. Order. A process that is not blocked any more has all those behind it that it had to wait for: whoever names it in
  \<open>before\<close> and whoever it names in \<open>after\<close> has been started. The only exceptions are processes that a process
  listed later in the configuration names in \<open>before\<close> (set \<open>overtaken\<close>). As in all properties about runs with the hypothesis
  \<open>fork_gives_fresh_pid\<close>, \<open>fork\<close> is supposed to succeed with a number that no child has which is still to be waited for.
\<close>

theorem start_order:
  assumes "reachable P Y F opts cfg s0 t" and "few_programs cfg" and "fork_gives_fresh_pid P"
    and "objects s0 a = Some ca" and "objects s0 b = Some cb"
    and "name ca \<in> set (before cb) \<or> name cb \<in> set (after ca)"
    and "a \<notin> overtaken (objects s0) (processes cfg)"
    and "objects t a = Some ca'" and "state ca' \<noteq> BLOCKED"
  shows "\<exists>cb'. objects t b = Some cb' \<and> state cb' \<in> {RUNNING, DONE, CRASHED}"
  using assms by (rule waited_for_started)

theorem start_order_witness:
  "\<exists>t web db. sample_reach t \<and> objects t 0 = Some web \<and> state web = RUNNING \<and>
     objects t 1 = Some db \<and> state db \<in> {RUNNING, DONE, CRASHED}"
proof -
  obtain t web db where t: "sample_reach t" "objects t 0 = Some web" "state web = RUNNING"
    using sample_second_round by metis
  obtain ca cb where c: "objects sample_configured 0 = Some ca" "objects sample_configured 1 = Some cb"
      and n: "name ca = ''w''" "after ca = [''d'']" "name cb = ''d''" "before cb = []"
    by (rule sample_configured_objects)
  have "0 \<notin> overtaken (objects sample_configured) (processes sample_config)"
    using c n by (simp add: sample_processes before_list_def)
  moreover have "name ca \<in> set (before cb) \<or> name cb \<in> set (after ca)" using n by simp
  moreover have "state web \<noteq> BLOCKED" using t(3) by simp
  ultimately have "\<exists>cb'. objects t 1 = Some cb' \<and> state cb' \<in> {RUNNING, DONE, CRASHED}"
    using start_order [OF t(1) sample_few sample_fork c _ _ t(2)] by blast
  with t show ?thesis by blast
qed

text \<open>
  C3. Refinement. Seen through the states of the processes, every run of the event loop is a run of the abstract machine
  \<open>stage_move\<close>, in which a process waits for exactly those that name it in \<open>before\<close> or that it names in \<open>after\<close>: tables,
  descriptors, output, foreign children and failing calls cause no other change of a state.
\<close>

theorem supervision_refines_stages:
  assumes "launched P Y F opts cfg s0 s" and "few_programs cfg" and "fork_gives_fresh_pid P" and "(step P)\<^sup>*\<^sup>* s t"
  shows "(stage_move (awaited s))\<^sup>*\<^sup>* (stages_of s) (stages_of t) \<and>
    (\<forall>a b ca cb. objects s0 a = Some ca \<longrightarrow> objects s0 b = Some cb \<longrightarrow>
       ((\<exists>st. (b, st) \<in> awaited s a) \<longleftrightarrow> name ca \<in> set (before cb) \<or> name cb \<in> set (after ca)))"
  using launched_moves [OF assms] awaited_launched [OF assms(1,2)] by blast

theorem supervision_refines_stages_witness:
  "\<exists>t db. objects t 1 = Some db \<and> state db = RUNNING \<and>
     (stage_move (awaited (snd sample_setup)))\<^sup>*\<^sup>* (stages_of (snd sample_setup)) (stages_of t)"
proof -
  obtain t db where run: "start_programs sample_platform 10 (snd sample_setup) = (Inr (), t)"
    and db: "objects t 1 = Some db" "state db = RUNNING"
    by (rule sample_first_round)
  have "(step sample_platform)\<^sup>*\<^sup>* (snd sample_setup) t" using step.start [OF run] by blast
  with supervision_refines_stages [OF sample_launched sample_few sample_fork] db show ?thesis by blast
qed

text \<open>
  C28. Only so much happens. However long the event loop runs, the state of a process changes at most three times, so there are
  at most three changes per program of the configuration. The changes are counted between neighbours of a run that is cut
  at every single notification, start, exit and event (every state that the handler reaches is the end of such a run:
  \<open>steps_are_runs\<close>).
\<close>

theorem state_changes_bounded:
  assumes "launched P Y F opts cfg s0 s" and "few_programs cfg" and "fork_gives_fresh_pid P"
    and "successively (small_step P) (s # ss)"
  shows "state_changes r (s # ss) \<le> 3 \<and>
    (\<Sum>q\<in>set (processes cfg). state_changes q (s # ss)) \<le> 3 * length (processes cfg)"
proof -
  have each: "state_changes q (s # ss) \<le> 3" for q by (rule launched_changes [OF assms])
  then have "(\<Sum>q\<in>set (processes cfg). state_changes q (s # ss)) \<le> card (set (processes cfg)) * 3"
    using sum_bounded_above [of "set (processes cfg)" "\<lambda>q. state_changes q (s # ss)" 3] by simp
  also have "\<dots> \<le> 3 * length (processes cfg)" using card_length [of "processes cfg"] by simp
  finally show ?thesis using each by blast
qed

theorem state_changes_bounded_witness:
  "\<exists>ss db. successively (small_step sample_platform) (snd sample_setup # ss) \<and> state_changes 1 (snd sample_setup # ss) \<le> 3 \<and>
     objects (last (snd sample_setup # ss)) 1 = Some db \<and> state db = RUNNING"
proof -
  obtain t db where run: "start_programs sample_platform 10 (snd sample_setup) = (Inr (), t)"
    and db: "objects t 1 = Some db" "state db = RUNNING"
    by (rule sample_first_round)
  have "(step sample_platform)\<^sup>*\<^sup>* (snd sample_setup) t" using step.start [OF run] by blast
  then obtain ss where ss: "successively (small_step sample_platform) (snd sample_setup # ss)" "last (snd sample_setup # ss) = t"
    by (rule steps_are_runs)
  from state_changes_bounded [OF sample_launched sample_few sample_fork ss(1), of 1] ss db show ?thesis by blast
qed

text \<open>
  C4. Started once. In every state of a run there has been exactly one \<open>fork\<close> for each process that is running or has
  exited, so no program of the configuration is ever started twice.
\<close>

theorem started_once:
  assumes "reachable P Y F opts cfg s0 t" and "few_programs cfg" and "fork_gives_fresh_pid P"
  shows "count_calls Sys_fork (calls t) = card {r. \<exists>c. objects t r = Some c \<and> state c \<in> {RUNNING, DONE, CRASHED}} \<and>
    count_calls Sys_fork (calls t) \<le> length (processes cfg)"
  using reachable_forks [OF assms] by (simp add: forks_match_def started_def)

theorem started_once_witness:
  "\<exists>t web. sample_reach t \<and> objects t 0 = Some web \<and> state web = RUNNING \<and> count_calls Sys_fork (calls t) \<le> 2"
proof -
  obtain t web where t: "sample_reach t" "objects t 0 = Some web" "state web = RUNNING"
    by (rule sample_second_round)
  from started_once [OF t(1) sample_few sample_fork] t show ?thesis by (auto simp: sample_processes)
qed

text \<open>
  C24. Life. Between any two states of a run a process only goes forward, from blocked over ready and running to one of the
  two final states, and its name, number, type, conditions and settings stay. In particular nothing is ever restarted.
\<close>

theorem processes_only_go_forward:
  assumes "reachable P Y F opts cfg s0 s" and "few_programs cfg" and "fork_gives_fresh_pid P"
    and "(step P)\<^sup>*\<^sup>* s t" and "objects s r = Some c"
  shows "\<exists>c'. objects t r = Some c' \<and> lives (state c) (state c') \<and> state c \<le> state c' \<and>
    (state c \<in> {DONE, CRASHED} \<longrightarrow> state c' = state c) \<and>
    name c' = name c \<and> graph_id c' = graph_id c \<and> ptype c' = ptype c \<and> conditions c' = conditions c \<and>
    settings c' = settings c"
proof -
  have "advances s t"
    using machine.run_inv [OF assms(4)] reachable_inv(1) [OF assms(1-3)] assms(3) by blast
  then have "evolves (objects s) (objects t)" by (simp add: advances_def)
  from evolves_Some [OF this assms(5)] show ?thesis
    using lives_le by (auto simp: successor_def)
qed

theorem processes_only_go_forward_witness:
  "\<exists>t c'. (step sample_platform)\<^sup>*\<^sup>* (snd sample_setup) t \<and> objects t 1 = Some c' \<and> lives READY (state c')"
proof -
  obtain t where run: "start_programs sample_platform 10 (snd sample_setup) = (Inr (), t)"
    using sample_first_round by metis
  then have "(step sample_platform)\<^sup>*\<^sup>* (snd sample_setup) t" by (blast intro: step.start)
  moreover obtain db where "objects (snd sample_setup) 1 = Some db" "state db = READY"
    using sample_db by (auto simp: example_object_def split: option.splits)
  ultimately show ?thesis
    using processes_only_go_forward [OF sample_reachable_start sample_few sample_fork] by metis
qed

text \<open>
  C6. Blocked for ever. A process that waits for a state which the other process has already left (it waits for a service
  to run, and the service has exited before the check; or for the success of a program that has crashed) stays blocked in
  every continuation of the run.
\<close>

theorem missed_condition_blocks_forever:
  assumes "reachable P Y F opts cfg s0 s" and "few_programs cfg" and "fork_gives_fresh_pid P"
    and "objects s r = Some c" and "state c = BLOCKED" and "(i, st) \<in> set (conditions c)"
    and "omap_find (obj_for_id s) i = Some (Some q)" and "objects s q = Some d"
    and "lives st (state d)" and "state d \<noteq> st"
    and "(step P)\<^sup>*\<^sup>* s t"
  shows "\<exists>c'. objects t r = Some c' \<and> state c' = BLOCKED"
proof -
  have "missed s r" using assms(4-10) by (auto simp: missed_def)
  with stuck.run_inv [OF assms(11)] reachable_inv(1) [OF assms(1-3)] assms(3) have "missed t r" by blast
  then show ?thesis by (rule missed_blocked)
qed

theorem missed_condition_blocks_forever_witness:
  "\<exists>t. sample_reach t \<and> (\<forall>u. (step sample_platform)\<^sup>*\<^sup>* t u \<longrightarrow> (\<exists>c'. objects u 0 = Some c' \<and> state c' = BLOCKED))"
proof -
  obtain t web db where t: "sample_reach t" "objects t 0 = Some web" "state web = BLOCKED"
      "conditions web = [(1, RUNNING)]" "omap_find (obj_for_id t) 1 = Some (Some 1)" "objects t 1 = Some db" "state db = CRASHED"
    using sample_crash by metis
  have "\<exists>c'. objects u 0 = Some c' \<and> state c' = BLOCKED" if "(step sample_platform)\<^sup>*\<^sup>* t u" for u
    by (rule missed_condition_blocks_forever [where st = RUNNING, OF t(1) sample_few sample_fork t(2,3) _ t(5,6) _ _ that])
      (use t in simp_all)
  with t(1) show ?thesis by blast
qed

text \<open>
  C13. Signals. Whatever the kernel replies, in every state of a run the signals that are forwarded go to children that have been
  forked and not been reaped since, or, if a \<open>fork\<close> has failed in this run, to the negative number that it returned: never to
  the process group of scinit (process id 0) and never to a number that \<open>waitpid\<close> has reported and that may have been reused.
\<close>

theorem signals_reach_own_children:
  assumes "reachable P Y F opts cfg s0 t"
    and "calls (signal_received P sig t) = es @ calls t" and "(Sys_kill pid sg, r) \<in> set es"
  shows "0 < pid \<and> pid \<in> outstanding (calls t) \<or>
    pid < 0 \<and> (\<exists>rf. (Sys_fork, rf) \<in> set (calls t) \<and> ret rf = pid)"
proof -
  have es: "map fst es = (if sig = SIGCHLD then []
      else rev (map (\<lambda>(pid, i). Sys_kill pid (if sig = SIGINT then SIGTERM else sig)) (id_for_pid t)))"
    using signal_received_calls [of P sig t] assms(2) by simp
  have "Sys_kill pid sg \<in> set (map fst es)" using assms(3) by force
  then have "pid \<in> set (omap_keys (id_for_pid t))" unfolding es by (force split: if_splits)
  then have "omap_find (id_for_pid t) pid \<noteq> None" by (simp only: omap_keys_find not_False_eq_True)
  with reachable_accounted [OF assms(1)] show ?thesis by (simp add: accounted_def own_pid_def)
qed

theorem signals_reach_own_children_witness:
  "\<exists>t pid. sample_reach t \<and> omap_find (id_for_pid t) pid = Some 1 \<and> (0 < pid \<and> pid \<in> outstanding (calls t) \<or>
     pid < 0 \<and> (\<exists>rf. (Sys_fork, rf) \<in> set (calls t) \<and> ret rf = pid))"
proof -
  have "\<exists>t db. sample_reach t \<and> omap_find (id_for_pid t) (primaryPid (db :: child)) = Some 1"
    by (rule sample_first_round) blast
  then obtain t and db :: child where t: "sample_reach t" "omap_find (id_for_pid t) (primaryPid db) = Some 1" by blast
  let ?u = "signal_received sample_platform SIGQUIT t"
  obtain es where es: "calls ?u = es @ calls t"
    using signal_received_bystander [of t sample_platform SIGQUIT] by (auto simp: bystander_def quiet_ext_def)
  have "omap_ok (id_for_pid t)"
    using reachable_inv(1) [OF t(1) sample_few sample_fork] by (simp add: sys_inv_def tracked_def)
  with t(2) have "(primaryPid db, 1) \<in> set (id_for_pid t)" by (simp only: omap_entry_find)
  then have "Sys_kill (primaryPid db) SIGQUIT \<in> set (map fst es)"
    using signal_received_calls [of sample_platform SIGQUIT t] es by (force simp: SIGQUIT_def SIGCHLD_def SIGINT_def)
  then obtain r where "(Sys_kill (primaryPid db) SIGQUIT, r) \<in> set es" by auto
  from signals_reach_own_children [OF t(1) es this] t show ?thesis by blast
qed

text \<open>
  C19. End. \<open>main\<close> returns -1 only if the configuration does not exist, and otherwise returns 0 and only in a state in
  which no process is running.
\<close>

theorem main_returns_when_nothing_runs:
  assumes "main_scinit P Y F opts n = (Inr rc, t)" and "fork_gives_fresh_pid P"
    and "\<And>cfg s. handle_commandline_invocation P Y F opts ProcessHandler = (Inr (Some cfg), s) \<Longrightarrow> few_programs cfg"
  shows "(rc = -1 \<and> \<not> fs_exists F (opt_config opts)) \<or>
    (rc = 0 \<and> (\<forall>r c. objects t r = Some c \<longrightarrow> state c \<noteq> RUNNING))"
  using assms(1)
proof (cases rule: main_result)
  case no_config
  then show ?thesis by simp
next
  case (served cfg s0)
  have few: "few_programs cfg" using served(2) assms(3) by (auto simp: reachable_def launched_def)
  have "wired t" "tracked t" using reachable_inv(1) [OF served(2) few assms(2)] by (simp_all add: sys_inv_def)
  from running_count [OF this] served(3) have "running t = {}" by simp
  with served(1) show ?thesis by (auto simp: running_def)
qed

theorem main_returns_when_nothing_runs_witness:
  "fst (main_scinit sample_platform (document_yaml idle_document) sample_files sample_options 3) = Inr 0"
proof -
  let ?m = "main_scinit sample_platform (document_yaml idle_document) sample_files sample_options 3"
  let ?boot = "handle_commandline_invocation sample_platform (document_yaml idle_document) sample_files sample_options ProcessHandler"
  have "succeeded (fst ?m)" by code_simp
  then have m: "?m = (Inr (projr (fst ?m)), snd ?m)" by (metis prod.collapse succeeded_projr)
  have "processes (the (projr (fst ?boot))) = []" by code_simp
  then have few: "few_programs cfg" if "?boot = (Inr (Some cfg), s)" for cfg s
    using that by (simp add: few_programs_def)
  from main_returns_when_nothing_runs [OF m sample_fork few]
  have "projr (fst ?m) = 0" by (simp add: sample_files_def)
  then show ?thesis using m by (metis fst_conv)
qed

text \<open>
  C26. Numbers. Every program of the configuration gets its own number, in the order of the entries, and the handler finds
  its object under that number, in the table of objects as well as in the table of event handlers.
\<close>

theorem programs_are_numbered:
  assumes "handle_commandline_invocation P Y F opts ProcessHandler = (Inr (Some cfg), s)" and "few_programs cfg"
  shows "processes cfg = [0..<length (processes cfg)] \<and>
    (\<forall>r<length (processes cfg). \<exists>c. objects s r = Some c \<and> graph_id c = of_nat r \<and> state c = BLOCKED \<and>
       omap_find (obj_for_id s) (of_nat r) = Some (Some r) \<and> omap_find (sig_for_id s) (sint (of_nat r :: u32)) = Some [r])"
proof -
  have cf: "configured (cfg, s)" by (rule handle_commandline_configured [OF assms(1)])
  then have pr: "processes cfg = [0..<next_ref s]" by (simp add: configured_def)
  then have len: "length (processes cfg) = next_ref s" by simp
  then have "wired s" using cf assms(2) by (auto simp: configured_def few_programs_def)
  have "\<exists>c. objects s r = Some c \<and> graph_id c = of_nat r \<and> state c = BLOCKED \<and>
       omap_find (obj_for_id s) (of_nat r) = Some (Some r) \<and> omap_find (sig_for_id s) (sint (of_nat r :: u32)) = Some [r]"
    if "r < next_ref s" for r
  proof -
    from cf that obtain c where "objects s r = Some c" "graph_id c = of_nat r" "state c = BLOCKED"
      unfolding configured_def by blast
    with \<open>wired s\<close> show ?thesis unfolding wired_def by metis
  qed
  with pr len show ?thesis by auto
qed

theorem programs_are_numbered_witness:
  "\<exists>c. objects sample_configured 1 = Some c \<and> graph_id c = 1 \<and> state c = BLOCKED"
  using programs_are_numbered [OF sample_boot_ok sample_few]
  by (auto simp: sample_processes)

text \<open>
  C9. Completion. Let the configuration be read and set up without an error, and not be empty. If no program wants a terminal and the
  environment of each can be computed, every call that starts a program succeeds, programs exit whenever scinit asks for
  exited ones, and the kernel reports nothing but hang-ups, then \<open>main\<close> returns 0 after at most \<open>4 * n + 2\<close> passes for \<open>n\<close> programs. It returns
  only when nothing is left to do: no process could become ready, be started or end any more, so a program that has not
  run waits for a state that cannot be reached any more.
\<close>

theorem short_lived_programs_complete:
  assumes "launched P Y F opts cfg s0 s" and "few_programs cfg" and "fork_gives_fresh_pid P" and "cooperative P"
    and "short_lived P" and "only_hang_ups P" and "startable P s0"
    and "processes cfg \<noteq> []" and "4 * length (processes cfg) + 2 \<le> n"
  shows "\<exists>t. main_scinit P Y F opts n = (Inr 0, t) \<and> (\<forall>b. \<not> stage_move (awaited s) (stages_of t) b)"
  using assms by (rule main_completes)

theorem short_lived_programs_complete_witness:
  "\<exists>t. main_scinit sample_platform (document_yaml sample_document) sample_files sample_options 10 = (Inr 0, t) \<and>
     (\<forall>b. \<not> stage_move (awaited (snd sample_setup)) (stages_of t) b)"
  by (rule short_lived_programs_complete [OF sample_launched sample_few sample_fork sample_cooperative sample_short_lived
        sample_hang_ups sample_startable]) (simp_all add: sample_processes)

text \<open>
  C31. Output. In every state of a run, a descriptor that is watched for a child has a type, and its number leads to the
  object of the child. So of the ways in which \<open>handle_child_output\<close> can fail, only that of a logger that is not registered
  remains: the exceptions of \<open>std::map::at\<close> and the branches for unknown objects and types are never taken for it.
\<close>

theorem descriptors_lead_to_objects:
  assumes "reachable P Y F opts cfg s0 t" and "few_programs cfg" and "fork_gives_fresh_pid P"
    and "omap_find (id_for_fd t) fd = Some i"
  shows "\<exists>r c ty. omap_find (obj_for_id t) i = Some (Some r) \<and> objects t r = Some c \<and> graph_id c = i \<and>
    omap_find (fd_type t) fd = Some ty \<and>
    fst (handle_child_output P fd str t) =
      (if ret (os P (calls t) (Log_get (name c))) = 0 then Inl (Undefined_behaviour ''null logger'') else Inr ())"
proof -
  have "fds_ok t" by (rule reachable_fds [OF assms(1-3)])
  with assms(4) obtain r c ty where rc: "omap_find (obj_for_id t) i = Some (Some r)" "objects t r = Some c" "graph_id c = i"
    "omap_find (fd_type t) fd = Some ty"
    unfolding fds_ok_def leads_to_object_def by (metis option.exhaust option.distinct(1))
  with assms(4) show ?thesis
    by (auto simp: handle_child_output_def lock_def sys_call_def get_name_def Let_def split: FDType.split)
qed

theorem descriptors_lead_to_objects_witness:
  "\<exists>t fd r ty. sample_reach t \<and> omap_find (id_for_fd t) fd = Some 1 \<and> omap_find (obj_for_id t) 1 = Some (Some r) \<and>
     omap_find (fd_type t) fd = Some ty"
proof -
  obtain t and db :: child where t: "sample_reach t" "omap_find (id_for_fd t) (fst (stdout db)) = Some 1"
    using sample_first_round by metis
  from descriptors_lead_to_objects [OF t(1) sample_few sample_fork t(2)] t show ?thesis by blast
qed

text \<open>
  C10. Success. If every program is a oneshot, no chain of dependencies is a cycle, every program exits with status 0, and
  the hypotheses of the completion property hold, then \<open>main\<close> returns 0 after at most \<open>4 * n + 2\<close> passes for \<open>n\<close> programs,
  and by then each of them has been started exactly once and has succeeded.
\<close>

theorem oneshots_all_succeed:
  assumes "launched P Y F opts cfg s0 s" and "few_programs cfg" and "fork_gives_fresh_pid P" and "cooperative P"
    and "short_lived P" and "only_hang_ups P" and "startable P s0" and "clean_exits P"
    and "\<forall>r c. objects s0 r = Some c \<longrightarrow> ptype c = ONESHOT" and "acyclic (dependencies s0)"
    and "processes cfg \<noteq> []" and "4 * length (processes cfg) + 2 \<le> n"
  shows "\<exists>t. main_scinit P Y F opts n = (Inr 0, t) \<and> count_calls Sys_fork (calls t) = length (processes cfg) \<and>
    (\<forall>r\<in>set (processes cfg). \<exists>c. objects t r = Some c \<and> state c = DONE)"
proof -
  obtain t where t: "main_scinit P Y F opts n = (Inr 0, t)" "reachable P Y F opts cfg s0 t"
    "\<forall>r\<in>set (processes cfg). \<exists>c. objects t r = Some c \<and> state c = DONE"
    using all_oneshots_succeed [OF assms] by blast
  from reachable_forks [OF t(2) assms(2,3)] have forks: "count_calls Sys_fork (calls t) = card (started t)"
    and fin: "finite (dom (objects t))" and le: "card (started t) \<le> length (processes cfg)"
    by (simp_all add: forks_match_def)
  have "set (processes cfg) \<subseteq> started t" using t(3) by (fastforce simp: started_def)
  moreover have "started t \<subseteq> dom (objects t)" by (auto simp: started_def)
  ultimately have "card (set (processes cfg)) \<le> card (started t)"
    using fin by (meson card_mono finite_subset)
  then have "length (processes cfg) \<le> card (started t)"
    using reachable_configured(3) [OF t(2) assms(2)] by (simp add: distinct_card)
  with t forks le show ?thesis by (intro exI [of _ t]) simp
qed

theorem oneshots_all_succeed_witness:
  "\<exists>t c. main_scinit (sample_world 0) (document_yaml oneshot_document) sample_files sample_options 10 = (Inr 0, t) \<and>
     count_calls Sys_fork (calls t) = 2 \<and> objects t 0 = Some c \<and> state c = DONE"
proof -
  have two: "processes (boot_config 0 oneshot_document) = [0, 1]" by (rule oneshot_facts)
  from oneshots_all_succeed [OF oneshot_facts(1,3) sample_fork sample_cooperative sample_short_lived sample_hang_ups
      oneshot_facts(4) clean_world oneshot_types oneshot_acyclic, of 10]
  show ?thesis by (auto simp: two)
qed



text \<open>
  C12. Deadlock. A set of processes each of which depends on another one of the set, such as a cycle of dependencies, is
  never started: in every state of a run all of them are blocked. (No process of the set may be named in a \<open>before\<close> of a later
  entry, see \<open>start_order\<close>.)
\<close>

theorem cyclic_dependencies_block:
  assumes "reachable P Y F opts cfg s0 t" and "few_programs cfg" and "fork_gives_fresh_pid P"
    and "\<And>a. a \<in> C \<Longrightarrow> a \<notin> overtaken (objects s0) (processes cfg) \<and> (\<exists>b\<in>C. (a, b) \<in> dependencies s0)"
    and "a \<in> C"
  shows "\<exists>c. objects t a = Some c \<and> state c = BLOCKED"
  using assms by (rule cycle_blocked)

theorem cyclic_dependencies_block_witness:
  "\<exists>c. objects (snd (boot_setup 1 ring_document)) 1 = Some c \<and> state c = BLOCKED"
  by (rule cyclic_dependencies_block [OF ring_reachable ring_facts(3) sample_fork ring_cycle]) simp_all

text \<open>
  C7. Execution. Whatever the kernel replies, and however \<open>main\<close> ends: if a program is executed, this is the last call, in a
  process in which \<open>fork\<close> returned 0; the program, its arguments and its environment (each read up to its first zero byte)
  are those of a process of the configuration; and since that \<open>fork\<close> all calls that the code checks have succeeded, and in
  this order the group was set, the user was set, the clearing of the ambient set was requested (the code does not look at
  the reply to this request), and the capability sets were set to the configured ones.
\<close>

theorem only_configured_programs_run:
  assumes "main_scinit P Y F opts n = (res, t)" and "calls t = newer @ (Sys_execvpe program av envp, r) # older"
  shows "newer = [] \<and> (\<exists>cfg s0 q c environment.
    handle_commandline_invocation P Y F opts ProcessHandler = (Inr (Some cfg), s0) \<and> objects s0 q = Some c \<and>
    program = c_string (path c) \<and> av = map c_string (path c # args c) \<and>
    handle_env P c = Inr environment \<and> envp = map c_string environment \<and>
    (\<exists>after_fork rf before_fork h. older = after_fork @ (Sys_fork, rf) # before_fork \<and> ret rf = 0 \<and>
      (\<forall>(call, r)\<in>set after_fork. passed call r) \<and>
      since ((Sys_fork, rf) # before_fork)
        [\<lambda>call r. call = Sys_cap_set_proc h \<and> ret r = 0,
         \<lambda>call r. call = Sys_cap_from_text (c_string (concat (map cap_clause (capabilities c)))) \<and> ret r = h,
         \<lambda>call r. call = Sys_prctl_ambient_clear_all,
         \<lambda>call r. call = Sys_setuid (uid c) \<and> ret r \<noteq> -1,
         \<lambda>call r. call = Sys_setgid (gid c) \<and> ret r \<noteq> -1] older))"
proof -
  have x: "(Sys_execvpe program av envp, r) \<in> set (calls t)" using assms(2) by simp
  then have "\<not> no_exec (calls t)" unfolding no_exec_def by blast
  with main_executes [OF assms(1)] obtain cfg s0 q c' envp' r' rf bf tr where
    boot: "handle_commandline_invocation P Y F opts ProcessHandler = (Inr (Some cfg), s0)" and
    q: "settings_of (objects s0) q = Some (settings c')" "handle_env P c' = Inr envp'" and
    t: "calls t = (Sys_execvpe (c_string (path c')) (argv c') (map c_string envp'), r') # tr" "no_exec tr" and
    f: "suffix ((Sys_fork, rf) # bf) tr" "ret rf = 0" "dropped_to c' ((Sys_fork, rf) # bf) tr"
    unfolding executed_def by blast
  obtain c where c: "objects s0 q = Some c" "settings c' = settings c"
    using q(1) by (auto simp: settings_of_def)
  note st = settings_cong [OF c(2)]
  have new: "newer = []"
  proof (cases newer)
    case (Cons e es)
    then have "(Sys_execvpe program av envp, r) \<in> set tr" using assms(2) t(1) by simp
    with t(2) show ?thesis unfolding no_exec_def by blast
  qed simp
  with assms(2) t(1) have eq: "program = c_string (path c)" "av = map c_string (path c # args c)"
      "envp = map c_string envp'" "older = tr"
    using st by (auto simp: argv_def)
  have "handle_env P c = Inr envp'" using q(2) st(1) by simp
  moreover have "dropped_to c ((Sys_fork, rf) # bf) older" using f(3) eq(4) st(2) by simp
  ultimately show ?thesis
    using f(2) boot c(1) eq(1-3) unfolding dropped_to_def all_passed_def
    by (intro conjI [OF new] exI [of _ cfg] exI [of _ s0] exI [of _ q] exI [of _ c] exI [of _ envp'] conjI) blast+
qed

theorem only_configured_programs_run_witness:
  "\<exists>cfg s0 q c. handle_commandline_invocation child_world (document_yaml child_document) sample_files sample_options
     ProcessHandler = (Inr (Some cfg), s0) \<and> objects s0 q = Some c \<and> c_string (path c) = ''/d''"
proof -
  let ?m = "main_scinit child_world (document_yaml child_document) sample_files sample_options 1"
  obtain av envp r older where t: "calls (snd ?m) = [] @ (Sys_execvpe ''/d'' av envp, r) # older"
    using child_check by (auto simp: last_call_executes_def split: list.splits oscall.splits)
  have "?m = (fst ?m, snd ?m)" by simp
  from only_configured_programs_run [OF this t] show ?thesis by metis
qed

text \<open>
  C8. Everything is reaped. Whatever the kernel replies: when \<open>main\<close> returns, every process that scinit has forked has been
  reported by \<open>waitpid\<close>, and no \<open>fork\<close> has failed; after a failed \<open>fork\<close> it never returns.
\<close>

theorem children_all_reaped:
  assumes "main_scinit P Y F opts n = (Inr rc, t)" and "fs_exists F (opt_config opts)"
  shows "outstanding (calls t) = {} \<and> (\<forall>r. (Sys_fork, r) \<in> set (calls t) \<longrightarrow> 0 < ret r)"
  using assms(1)
proof (cases rule: main_result)
  case no_config
  with assms(2) show ?thesis by simp
next
  case (served cfg s0)
  from accounted_zero [OF reachable_accounted [OF served(2)] served(3)] show ?thesis .
qed

theorem children_all_reaped_witness:
  "\<exists>t. main_scinit sample_platform (document_yaml sample_document) sample_files sample_options 10 = (Inr 0, t) \<and>
     outstanding (calls t) = {}"
proof -
  obtain t where t: "main_scinit sample_platform (document_yaml sample_document) sample_files sample_options 10 = (Inr 0, t)"
    using main_completes [OF sample_launched sample_few sample_fork sample_cooperative sample_short_lived sample_hang_ups
        sample_startable, of 10] by (auto simp: sample_processes)
  from children_all_reaped [OF this] t show ?thesis by (auto simp: sample_files_def)
qed

text \<open>
  C14. A failed \<open>fork\<close>. Once \<open>fork\<close> has failed, the counter of running processes stays positive in the rest of the run, and
  every signal but \<open>SIGCHLD\<close> that is received is also sent to the process id -1, that is, to every process there is.
\<close>

theorem failed_fork_reaches_everyone:
  assumes "reachable P Y F opts cfg s0 t" and "(Sys_fork, r) \<in> set (calls t)" and "ret r = -1" and "sig \<noteq> SIGCHLD"
  shows "0 < number_of_running_procs t \<and>
    (\<exists>es. calls (signal_received P sig t) = es @ calls t \<and>
       Sys_kill (-1) (if sig = SIGINT then SIGTERM else sig) \<in> fst ` set es)"
proof -
  let ?u = "signal_received P sig t" and ?k = "Sys_kill (-1) (if sig = SIGINT then SIGTERM else sig)"
  have acc: "accounted t" by (rule reachable_accounted [OF assms(1)])
  with assms(2,3) have entry: "omap_find (id_for_pid t) (-1) \<noteq> None" by (force simp: accounted_def)
  then obtain i where "omap_find (id_for_pid t) (-1) = Some i" by blast
  with acc have mem: "(-1, i) \<in> set (id_for_pid t)" by (simp add: accounted_def omap_entry_find)
  obtain es where es: "calls ?u = es @ calls t"
    using signal_received_bystander [of t P sig] by (auto simp: bystander_def quiet_ext_def)
  have "map fst es = rev (map (\<lambda>(pid, i). Sys_kill pid (if sig = SIGINT then SIGTERM else sig)) (id_for_pid t))"
    using signal_received_calls [of P sig t] es assms(4) by simp
  then have "set (map fst es) = (\<lambda>(pid, i). Sys_kill pid (if sig = SIGINT then SIGTERM else sig)) ` set (id_for_pid t)" by simp
  with mem have "?k \<in> fst ` set es" by force
  with es accounted_positive [OF acc entry] show ?thesis by blast
qed

theorem failed_fork_reaches_everyone_witness:
  "\<exists>t es. 0 < number_of_running_procs t \<and> calls (signal_received (plain_world (-1)) SIGTERM t) = es @ calls t \<and>
     Sys_kill (-1) SIGTERM \<in> fst ` set es"
proof -
  obtain cfg s0 t r where t: "reachable (plain_world (-1)) (document_yaml child_document) sample_files sample_options cfg s0 t"
    "(Sys_fork, r) \<in> set (calls t)" "ret r = -1"
    by (rule failing_reachable)
  have "SIGTERM \<noteq> SIGCHLD" "SIGTERM \<noteq> SIGINT" by (simp_all add: SIGTERM_def SIGCHLD_def SIGINT_def)
  with failed_fork_reaches_everyone [OF t this(1)] show ?thesis by auto
qed

text \<open>
  C15. Control. Once the configuration has been read, \<open>main\<close> can only stop with an exception: scinit itself neither calls
  \<open>exit\<close> nor becomes another program, and its behaviour stays defined, as long as \<open>fork\<close> succeeds, and unless a logger is looked up that does not exist
  (in the model, the loop may also be cut off by its fuel).
\<close>

theorem supervisor_keeps_control:
  assumes "main_scinit P Y F opts n = (Inl e, t)" and "fork_gives_fresh_pid P"
    and "handle_commandline_invocation P Y F opts ProcessHandler = (Inr (Some cfg), s0)" and "few_programs cfg"
  shows "(\<exists>x. e = Throw x) \<or> e = No_fuel \<or>
    (\<exists>x nm r tr. e = Undefined_behaviour x \<and> calls t = (Log_get nm, r) # tr \<and> ret r = 0)"
  using main_stops [OF assms] by (auto simp: permitted_def split: stop.splits)

theorem supervisor_keeps_control_witness:
  "\<exists>e t. main_scinit refusing_world (document_yaml idle_document) sample_files sample_options 1 = (Inl e, t) \<and> e \<noteq> Image_replaced"
proof -
  let ?m = "main_scinit refusing_world (document_yaml idle_document) sample_files sample_options 1"
  let ?boot = "handle_commandline_invocation refusing_world (document_yaml idle_document) sample_files sample_options ProcessHandler"
  obtain e t where m: "?m = (Inl e, t)"
    using refusing_check by (cases ?m) (auto simp: isl_def)
  obtain cfg where "projr (fst ?boot) = Some cfg" and none: "processes cfg = []"
    using refusing_check by auto
  with refusing_check have boot: "?boot = (Inr (Some cfg), snd ?boot)"
    using succeeded_projr [of "fst ?boot"] by (metis prod.collapse)
  have "few_programs cfg" by (simp add: few_programs_def none)
  from supervisor_keeps_control [OF m refusing_fork boot this] m show ?thesis by auto
qed

end
